(* ===== verification/Prelude.thy ===== *)
theory Prelude
  imports Main "HOL-Library.Word" "HOL-Library.List_Lexorder" "HOL-Library.Product_Lexorder"
begin

unbundle bit_operations_syntax

text \<open>
  Types and generic facts shared by every theory of the development.

  A \<open>std::string\<close> or a \<open>uint8_t[]\<close> of the program is a list of bytes
  (\<open>8 word\<close>), compared as \<open>std::string\<close> compares it: byte by byte, unsigned, a proper
  prefix first, which is the lexicographic order of \<open>List_Lexorder\<close>. A \<open>uint64_t\<close> is a
  \<open>64 word\<close>. A computation that can leave by \<open>exit\<close>, by an exception or by undefined
  behaviour is a value of \<open>err + 'a\<close>; one that may not return is an \<open>option\<close> of it,
  \<open>None\<close> meaning that it never returns.
\<close>

section \<open>Collections\<close>

named_theorems loop_defs "one round of the server's loop, unfolded"
named_theorems file_frame "what a file operation leaves alone"

section \<open>Types\<close>

type_synonym byte = "8 word"
type_synonym bytes = "8 word list"
type_synonym u64 = "64 word"

text \<open>
  \<open>Exit\<close> is a call of \<open>exit(n)\<close>; \<open>OutOfRange\<close> is \<open>std::out_of_range\<close> thrown by
  \<open>at\<close> and not caught in the function; \<open>LengthError\<close> is \<open>std::length_error\<close> or
  \<open>std::bad_alloc\<close>, for a string that cannot be had; \<open>Undefined\<close> is an access outside an array or a
  read of bytes nobody wrote, where the C++ standard gives the program no meaning;
  \<open>ZmqError\<close> is \<open>zmq::error_t\<close>. Nothing in the program catches any of the exceptions.
\<close>

datatype err = Exit int | OutOfRange | LengthError | Undefined | ZmqError

text \<open>Sequencing of computations that can leave early.\<close>

fun rbind :: "'e + 'a \<Rightarrow> ('a \<Rightarrow> 'e + 'b) \<Rightarrow> 'e + 'b" where
  "rbind (Inl e) f = Inl e"
| "rbind (Inr x) f = f x"

lemma rbind_Inr_iff: "rbind m f = Inr y \<longleftrightarrow> (\<exists>x. m = Inr x \<and> f x = Inr y)"
  by (cases m) auto

lemma rbind_Inl_iff: "rbind m f = Inl e \<longleftrightarrow> m = Inl e \<or> (\<exists>x. m = Inr x \<and> f x = Inl e)"
  by (cases m) auto

text \<open>The same for computations that may also not return.\<close>

definition obind :: "(err + 'a) option \<Rightarrow> ('a \<Rightarrow> (err + 'b) option) \<Rightarrow> (err + 'b) option" where
  "obind m f = (case m of None \<Rightarrow> None | Some (Inl e) \<Rightarrow> Some (Inl e) | Some (Inr x) \<Rightarrow> f x)"

lemma obind_simps [simp]:
  "obind None f = None" "obind (Some (Inl e)) f = Some (Inl e)" "obind (Some (Inr x)) f = f x"
  by (simp_all add: obind_def)

lemma obind_Inr_iff:
  "obind m f = Some (Inr y) \<longleftrightarrow> (\<exists>x. m = Some (Inr x) \<and> f x = Some (Inr y))"
  by (auto simp: obind_def split: option.splits sum.splits)

text \<open>Running a fallible step over a list, in order, and collecting the results.\<close>

fun rmap :: "('a \<Rightarrow> err + 'b) \<Rightarrow> 'a list \<Rightarrow> err + 'b list" where
  "rmap f [] = Inr []"
| "rmap f (x # xs) = rbind (f x) (\<lambda>y. rbind (rmap f xs) (\<lambda>ys. Inr (y # ys)))"

lemma rmap_Inr: "(\<And>x. x \<in> set xs \<Longrightarrow> f x = Inr (g x)) \<Longrightarrow> rmap f xs = Inr (map g xs)"
  by (induction xs) auto

section \<open>Counters\<close>

lemma unat_of_nat_u64: "n < 2 ^ 64 \<Longrightarrow> unat (of_nat n :: u64) = n"
  by (simp add: unat_of_nat)

lemma unat_less_u64: "unat (v :: u64) < 2 ^ 64"
  using unsigned_less [of v] by simp

lemma of_nat_u64_inj:
  "m < 2 ^ 64 \<Longrightarrow> n < 2 ^ 64 \<Longrightarrow> (of_nat m :: u64) = of_nat n \<Longrightarrow> m = n"
  by (metis unat_of_nat_u64)

section \<open>Lists\<close>

lemma strictly_sorted_eq:
  fixes xs ys :: "'a::linorder list"
  assumes "sorted_wrt (<) xs" "sorted_wrt (<) ys" "set xs = set ys"
  shows "xs = ys"
  using assms by (metis sorted_list_of_set.idem_if_sorted_distinct strict_sorted_iff)

lemma concat_replicate_length:
  "(\<And>x. x \<in> set xs \<Longrightarrow> length (f x) = n) \<Longrightarrow> length (concat (map f xs)) = n * length xs"
  by (induction xs) auto

lemma drop_concat_map:
  assumes "\<And>x. length (f x) = n" and "i \<le> length xs"
  shows "drop (i * n) (concat (map f xs)) = concat (map f (drop i xs))"
  using assms(2)
proof (induction i arbitrary: xs)
  case 0
  show ?case by simp
next
  case (Suc i)
  then obtain x ys where xs: "xs = x # ys" by (cases xs) auto
  have "drop (Suc i * n) (concat (map f xs)) = drop (i * n) (concat (map f ys))"
    by (simp add: xs assms(1) add.commute)
  with Suc show ?case by (simp add: xs)
qed

text \<open>
  Writing \<open>bs\<close> at the start of an array: the rest of the array keeps what it held.
\<close>

definition write_prefix :: "bytes \<Rightarrow> bytes \<Rightarrow> bytes" where
  "write_prefix buf bs = bs @ drop (length bs) buf"

lemma length_write_prefix [simp]:
  "length bs \<le> length buf \<Longrightarrow> length (write_prefix buf bs) = length buf"
  by (simp add: write_prefix_def)

lemma take_write_prefix [simp]: "take (length bs) (write_prefix buf bs) = bs"
  by (simp add: write_prefix_def)

end
