(* ===== verification/Bytes.thy ===== *)
theory Bytes
  imports Prelude
begin

text \<open>
  The little-endian codec of \<open>src/DSSE.cpp\<close> (\<open>getu64\<close>, \<open>putu64\<close>), the C-string view of
  a token (\<open>c_str\<close>, \<open>strlen\<close>) and the layout of a block of file ids. The round trip and
  the injectivity of the codec are what makes labels and ciphertexts of different
  counters and ids different.
\<close>

section \<open>putu64 and getu64\<close>

definition putu64 :: "u64 \<Rightarrow> bytes" where
  "putu64 v =
    [ucast (v AND 0xff), ucast (drop_bit 8 v AND 0xff),
     ucast (drop_bit 16 v AND 0xff), ucast (drop_bit 24 v AND 0xff),
     ucast (drop_bit 32 v AND 0xff), ucast (drop_bit 40 v AND 0xff),
     ucast (drop_bit 48 v AND 0xff), ucast (drop_bit 56 v AND 0xff)]"

text \<open>
  \<open>getu64(&buf[off])\<close>: the eight bytes from \<open>off\<close> on, which must lie inside the array
  and have been written.
\<close>

fun getu64_bytes :: "bytes \<Rightarrow> u64 option" where
  "getu64_bytes (b0 # b1 # b2 # b3 # b4 # b5 # b6 # b7 # rest) =
     Some (push_bit 0 (ucast b0) OR push_bit 8 (ucast b1)
        OR push_bit 16 (ucast b2) OR push_bit 24 (ucast b3)
        OR push_bit 32 (ucast b4) OR push_bit 40 (ucast b5)
        OR push_bit 48 (ucast b6) OR push_bit 56 (ucast b7))"
| "getu64_bytes bs = None"

definition getu64 :: "bytes \<Rightarrow> nat \<Rightarrow> err + u64" where
  "getu64 buf off = (case getu64_bytes (drop off buf) of None \<Rightarrow> Inl Undefined | Some v \<Rightarrow> Inr v)"

lemma length_putu64 [simp]: "length (putu64 v) = 8"
  by (simp add: putu64_def)

text \<open>Each byte of the encoding carries eight consecutive bits of the value.\<close>

lemma byte_mask: "(0xff :: u64) = mask 8"
  by (simp add: mask_eq_exp_minus_1)

lemma bit_byte_at:
  "bit (push_bit k (ucast (ucast (drop_bit k v AND 0xff :: u64) :: byte)) :: u64) n
   \<longleftrightarrow> k \<le> n \<and> n < k + 8 \<and> n < 64 \<and> bit (v::u64) n"
  unfolding byte_mask by (auto simp: bit_simps)

lemma bytes_of_u64:
  fixes v :: u64
  shows "push_bit 0 (ucast (ucast (v AND 0xff) :: byte))
      OR push_bit 8 (ucast (ucast (drop_bit 8 v AND 0xff) :: byte))
      OR push_bit 16 (ucast (ucast (drop_bit 16 v AND 0xff) :: byte))
      OR push_bit 24 (ucast (ucast (drop_bit 24 v AND 0xff) :: byte))
      OR push_bit 32 (ucast (ucast (drop_bit 32 v AND 0xff) :: byte))
      OR push_bit 40 (ucast (ucast (drop_bit 40 v AND 0xff) :: byte))
      OR push_bit 48 (ucast (ucast (drop_bit 48 v AND 0xff) :: byte))
      OR push_bit 56 (ucast (ucast (drop_bit 56 v AND 0xff) :: byte)) = v" (is "?l = v")
proof (rule bit_word_eqI)
  fix n assume n: "n < LENGTH(64)"
  have 0: "bit (push_bit 0 (ucast (ucast (v AND 0xff :: u64) :: byte)) :: u64) n \<longleftrightarrow> n < 8 \<and> bit v n"
    using bit_byte_at [of 0 v n] n by simp
  consider "n < 8" | "8 \<le> n \<and> n < 16" | "16 \<le> n \<and> n < 24" | "24 \<le> n \<and> n < 32"
    | "32 \<le> n \<and> n < 40" | "40 \<le> n \<and> n < 48" | "48 \<le> n \<and> n < 56" | "56 \<le> n \<and> n < 64"
    using n by force
  then show "bit ?l n = bit v n"
    by cases (simp_all only: bit_or_iff 0 bit_byte_at, simp_all)
qed

lemma getu64_bytes_putu64: "getu64_bytes (putu64 v @ rest) = Some v"
  using bytes_of_u64 [of v] by (simp only: putu64_def append_Cons append_Nil getu64_bytes.simps)

lemma getu64_putu64 [simp]: "getu64 (putu64 v @ rest) 0 = Inr v"
  by (simp add: getu64_def getu64_bytes_putu64)

lemma getu64_putu64_exact [simp]: "getu64 (putu64 v) 0 = Inr v"
  using getu64_putu64 [of v "[]"] by simp

lemma putu64_inj: "putu64 u = putu64 v \<Longrightarrow> u = v"
  by (metis getu64_putu64_exact sum.inject(2))

lemma getu64_bytes_Some_iff: "(\<exists>v. getu64_bytes bs = Some v) \<longleftrightarrow> 8 \<le> length bs"
proof
  assume "8 \<le> length bs"
  then obtain b0 b1 b2 b3 b4 b5 b6 b7 rest
    where "bs = b0 # b1 # b2 # b3 # b4 # b5 # b6 # b7 # rest"
    by (auto simp: numeral_eq_Suc Suc_le_length_iff)
  then show "\<exists>v. getu64_bytes bs = Some v" by simp
qed (auto elim!: getu64_bytes.elims)

lemma getu64_defined_iff: "(\<exists>v. getu64 buf off = Inr v) \<longleftrightarrow> off + 8 \<le> length buf"
proof -
  have "(\<exists>v. getu64 buf off = Inr v) \<longleftrightarrow> (\<exists>v. getu64_bytes (drop off buf) = Some v)"
    by (auto simp: getu64_def split: option.splits)
  then show ?thesis by (auto simp: getu64_bytes_Some_iff)
qed

lemma getu64_drop: "getu64 buf (a + b) = getu64 (drop a buf) b"
  by (simp add: getu64_def add.commute)

section \<open>C strings\<close>

text \<open>
  \<open>w.c_str()\<close> handed to \<open>strlen\<close>: the bytes before the first NUL. A token with a NUL
  inside is cut there, so two tokens that differ only after a NUL are the same C string.
\<close>

definition c_str :: "bytes \<Rightarrow> bytes" where
  "c_str s = takeWhile (\<lambda>b. b \<noteq> 0) s"

definition nul_free :: "bytes \<Rightarrow> bool" where
  "nul_free s \<longleftrightarrow> 0 \<notin> set s"

lemma c_str_nul_free [simp]: "nul_free s \<Longrightarrow> c_str s = s"
  by (auto simp: c_str_def nul_free_def takeWhile_eq_all_conv)

text \<open>\<open>s.data()\<close> of a \<open>std::string\<close>: its bytes and the NUL after them.\<close>

definition string_data :: "bytes \<Rightarrow> bytes" where
  "string_data s = s @ [0]"

section \<open>Blocks of file ids\<close>

text \<open>
  \<open>const int B = 5\<close>, the sizes derived from it and the placeholder for an unused slot.
\<close>

definition B :: nat where "B = 5"

lemma B_pos [simp]: "0 < B"
  by (simp add: B_def)

definition BLOCK_SIZE :: nat where "BLOCK_SIZE = 8 * B"

definition ENCRYPTED_BLOCK_SIZE :: nat where "ENCRYPTED_BLOCK_SIZE = 8 * B + 16"

definition ENCRYPTED_FILEID_SIZE :: nat where "ENCRYPTED_FILEID_SIZE = 8 + 16"

definition KEYLEN :: nat where "KEYLEN = 256 div 8"

definition DIGESTLEN :: nat where "DIGESTLEN = 256 div 8"

definition INVALID :: u64 where "INVALID = 0xFFFFFFFFFFFFFFFF"

lemmas sizes = B_def BLOCK_SIZE_def ENCRYPTED_BLOCK_SIZE_def ENCRYPTED_FILEID_SIZE_def
  KEYLEN_def DIGESTLEN_def

text \<open>A block is its slots, eight bytes each; slot \<open>i\<close> is read back at offset \<open>8 * i\<close>.\<close>

definition block_of :: "u64 list \<Rightarrow> bytes" where
  "block_of ids = concat (map putu64 ids)"

lemma length_block_of [simp]: "length (block_of ids) = 8 * length ids"
  unfolding block_of_def by (rule concat_replicate_length) simp

lemma getu64_block_of:
  assumes "i < length ids"
  shows "getu64 (block_of ids) (i * 8) = Inr (ids ! i)"
proof -
  have "getu64 (block_of ids) (i * 8) = getu64 (drop (i * 8) (block_of ids)) 0"
    using getu64_drop [of "block_of ids" "i * 8" 0] by simp
  also have "drop (i * 8) (block_of ids) = putu64 (ids ! i) @ block_of (drop (Suc i) ids)"
    using assms by (simp add: block_of_def drop_concat_map Cons_nth_drop_Suc [symmetric])
  finally show ?thesis by simp
qed

section \<open>Bytes printed for debugging\<close>

text \<open>\<open>bstring\<close> makes a \<open>std::string\<close> of an array; \<open>print_bytes\<close> writes one in hex.\<close>

definition bstring :: "byte list \<Rightarrow> nat \<Rightarrow> bytes" where
  "bstring bs n = take n bs"

definition hex_digit :: "nat \<Rightarrow> byte" where
  "hex_digit n = (if n < 10 then 48 + of_nat n else 87 + of_nat n)"

definition print_bytes :: "bytes \<Rightarrow> bytes \<Rightarrow> bytes" where
  "print_bytes title data =
     title @ [0x3A, 0x20] @ concat (map (\<lambda>b. [hex_digit (unat b div 16), hex_digit (unat b mod 16)]) data) @ [10]"

lemma hex_digit_inj: "m < 16 \<Longrightarrow> n < 16 \<Longrightarrow> hex_digit m = hex_digit n \<longleftrightarrow> m = n"
proof -
  have "inj_on hex_digit {..<16}"
    by (rule inj_on_inverseI [of _ "\<lambda>b. if unat b < 58 then unat b - 48 else unat b - 87"])
      (auto simp: hex_digit_def unat_word_ariths unat_of_nat)
  then show "m < 16 \<Longrightarrow> n < 16 \<Longrightarrow> ?thesis" by (auto simp: inj_on_def)
qed

lemma print_bytes_inj: "print_bytes title xs = print_bytes title ys \<longleftrightarrow> xs = ys"
proof -
  let ?h = "\<lambda>b :: byte. [hex_digit (unat b div 16), hex_digit (unat b mod 16)]"
  have byte: "?h a = ?h b \<longleftrightarrow> a = b" for a b
  proof -
    have "unat (x :: byte) < 2 ^ LENGTH(8)" for x by (rule unsigned_less)
    then have lt: "unat (x :: byte) div 16 < 16" for x by (simp add: div_less_iff_less_mult)
    have "?h a = ?h b \<longleftrightarrow> unat a div 16 = unat b div 16 \<and> unat a mod 16 = unat b mod 16"
      using lt hex_digit_inj by simp
    also have "\<dots> \<longleftrightarrow> unat a = unat b" by (metis div_mult_mod_eq)
    also have "\<dots> \<longleftrightarrow> a = b" by (simp add: word_unat_eq_iff)
    finally show ?thesis .
  qed
  have "concat (map ?h xs) = concat (map ?h ys) \<longleftrightarrow> xs = ys"
  proof (induction xs arbitrary: ys)
    case Nil
    show ?case by (cases ys) auto
  next
    case (Cons x xs)
    show ?case using Cons.IH byte by (cases ys) auto
  qed
  then show ?thesis by (simp add: print_bytes_def)
qed

end
