(* ===== verification/Crypto.thy ===== *)
theory Crypto
  imports Bytes
begin

text \<open>
  The cryptographic layer of \<open>src/DSSE.cpp\<close>: random keys (\<open>random_bytes\<close>,
  \<open>random_key\<close>), labels (\<open>mac_key\<close>, \<open>mac_counter\<close>, \<open>mac_long\<close>) and encryption of ids
  and blocks (\<open>encrypt_bytes\<close>, \<open>decrypt_bytes\<close>, \<open>encrypt_long\<close>, \<open>decrypt_long\<close>), over
  the counter mode of libtomcrypt (\<open>ctr_start.c\<close>, \<open>ctr_encrypt.c\<close>, \<open>ctr_decrypt.c\<close>).

  HMAC-SHA-256 and the AES-256 block function are parameters, the fields of \<open>prims\<close>;
  what is used of them is their output length (\<open>prims_ok\<close>) and, for the functional
  theorems, that HMAC has no collision among the calls the index makes (\<open>mac_cf\<close>).
  The ciphers and hashes are registered by \<open>main\<close> and the key sizes are the fixed ones
  of the code, so the return codes that \<open>crypt_or_die\<close> checks are \<open>CRYPT_OK\<close>: theories
  \<open>Cipher\<close> and \<open>Hmac\<close> have the calls of the library with their return codes, and show it.
\<close>

section \<open>Primitives\<close>

record prims =
  hmac_sha256 :: "bytes \<Rightarrow> bytes \<Rightarrow> bytes" \<comment> \<open>key, message\<close>
  aes_block :: "bytes \<Rightarrow> bytes \<Rightarrow> bytes" \<comment> \<open>key, 16-byte block\<close>

definition prims_ok :: "prims \<Rightarrow> bool" where
  "prims_ok P \<longleftrightarrow> (\<forall>k m. length (hmac_sha256 P k m) = DIGESTLEN)
               \<and> (\<forall>k b. length b = 16 \<longrightarrow> length (aes_block P k b) = 16)"

section \<open>Random bytes\<close>

text \<open>
  The operating system is a parameter: \<open>None\<close> when \<open>fopen("/dev/urandom")\<close> fails,
  otherwise what each \<open>fread\<close> delivers, by its number and the count asked for. The loop
  asks again until the buffer is full; a read that delivers nothing leaves \<open>n\<close> as it was
  (\<open>fread\<close> returns an unsigned count, so the test \<open>nread < 0\<close> never holds).
\<close>

type_synonym urandom = "(nat \<Rightarrow> nat \<Rightarrow> bytes) option"

partial_function (option) random_loop ::
  "(nat \<Rightarrow> nat \<Rightarrow> bytes) \<Rightarrow> nat \<Rightarrow> nat \<Rightarrow> bytes \<Rightarrow> bytes option" where
  "random_loop rd i n buf =
     (if n = 0 then Some buf
      else random_loop rd (Suc i) (n - length (take n (rd i n))) (buf @ take n (rd i n)))"

definition random_bytes :: "urandom \<Rightarrow> nat \<Rightarrow> (err + bytes) option" where
  "random_bytes dev sz =
     (case dev of None \<Rightarrow> Some (Inl (Exit 1))
      | Some rd \<Rightarrow> map_option Inr (random_loop rd 0 sz []))"

definition random_key :: "urandom \<Rightarrow> (err + bytes) option" where
  "random_key dev = random_bytes dev KEYLEN"

text \<open>A device that delivers at least one byte whenever it is asked for some.\<close>

definition delivers :: "(nat \<Rightarrow> nat \<Rightarrow> bytes) \<Rightarrow> bool" where
  "delivers rd \<longleftrightarrow> (\<forall>i n. 0 < n \<longrightarrow> rd i n \<noteq> [])"

lemma random_loop_fills:
  "delivers rd \<Longrightarrow> \<exists>out. random_loop rd i n buf = Some out \<and> length out = length buf + n"
proof (induction n arbitrary: i buf rule: less_induct)
  case (less n)
  show ?case
  proof (cases "n = 0")
    case True
    then show ?thesis by (subst random_loop.simps) simp
  next
    case False
    let ?got = "take n (rd i n)"
    have "0 < length ?got" "length ?got \<le> n"
      using False less.prems by (auto simp: delivers_def)
    then obtain out where
      "random_loop rd (Suc i) (n - length ?got) (buf @ ?got) = Some out"
      "length out = length (buf @ ?got) + (n - length ?got)"
      using less.IH [of "n - length ?got" "Suc i" "buf @ ?got"] less.prems False by fastforce
    with False \<open>length ?got \<le> n\<close> show ?thesis
      by (subst random_loop.simps) simp
  qed
qed

lemma random_key_length:
  "delivers rd \<Longrightarrow> \<exists>k. random_key (Some rd) = Some (Inr k) \<and> length k = KEYLEN"
  using random_loop_fills [of rd 0 KEYLEN "[]"]
  by (auto simp: random_key_def random_bytes_def)

text \<open>A device that has nothing to deliver: every unfolding of the loop is the loop again.\<close>

lemma random_loop_stuck_raw:
  "random_loop rd i n buf = Some out \<Longrightarrow> (\<forall>i n. rd i n = []) \<Longrightarrow> n = 0"
proof (rule random_loop.raw_induct [where P = "\<lambda>rd i n buf out. (\<forall>i n. rd i n = []) \<longrightarrow> n = 0",
    THEN mp], goal_cases)
  case (1 f rd i n buf out)
  then show ?case by (cases "n = 0") (simp, fastforce)
qed

lemma random_loop_stuck: "(\<forall>i n. rd i n = []) \<Longrightarrow> 0 < n \<Longrightarrow> random_loop rd i n buf = None"
  by (cases "random_loop rd i n buf") (auto dest: random_loop_stuck_raw)

section \<open>Counter mode\<close>

text \<open>
  \<open>symmetric_CTR\<close> of libtomcrypt for a 16-byte block cipher in little-endian mode, as
  \<open>ctr_start\<close> leaves it (\<open>ctrlen = blocklen = 16\<close>, \<open>mode = 0\<close>).
\<close>

record ctr_state =
  ctr :: bytes
  pad :: bytes
  padlen :: nat
  ctr_key :: bytes

definition ctr_start :: "prims \<Rightarrow> bytes \<Rightarrow> bytes \<Rightarrow> ctr_state" where
  "ctr_start P IV k =
     \<lparr>ctr = take 16 IV, pad = aes_block P k (take 16 IV), padlen = 0, ctr_key = k\<rparr>"

text \<open>\<open>ctr[x] = ctr[x] + 1\<close>, stopping at the first byte that does not wrap to zero.\<close>

fun ctr_increment :: "bytes \<Rightarrow> bytes" where
  "ctr_increment [] = []"
| "ctr_increment (b # bs) = (if b + 1 \<noteq> 0 then (b + 1) # bs else (b + 1) # ctr_increment bs)"

definition ctr_refill :: "prims \<Rightarrow> ctr_state \<Rightarrow> ctr_state" where
  "ctr_refill P s =
     (if padlen s = 16
      then let c = ctr_increment (ctr s)
           in s\<lparr>ctr := c, pad := aes_block P (ctr_key s) c, padlen := 0\<rparr>
      else s)"

text \<open>
  The loop \<open>while (len)\<close> of \<open>ctr_encrypt\<close>, a byte at a time. (Its \<open>LTC_FAST\<close> branch does
  sixteen of these steps at once on a fresh pad, with the same bytes.)
\<close>

fun ctr_encrypt :: "prims \<Rightarrow> bytes \<Rightarrow> ctr_state \<Rightarrow> bytes" where
  "ctr_encrypt P [] s = []"
| "ctr_encrypt P (b # pt) s =
     (let s' = ctr_refill P s
      in (b XOR pad s' ! padlen s') # ctr_encrypt P pt (s'\<lparr>padlen := Suc (padlen s')\<rparr>))"

definition ctr_decrypt :: "prims \<Rightarrow> bytes \<Rightarrow> ctr_state \<Rightarrow> bytes" where
  "ctr_decrypt P ct s = ctr_encrypt P ct s"

lemma length_ctr_encrypt [simp]: "length (ctr_encrypt P pt s) = length pt"
  by (induction pt arbitrary: s) (auto simp: Let_def)

lemma byte_xor_cancel: "(b XOR c) XOR c = (b :: byte)"
  by (simp add: xor.assoc)

lemma ctr_decrypt_encrypt: "ctr_decrypt P (ctr_encrypt P pt s) s = pt"
  unfolding ctr_decrypt_def
  by (induction pt arbitrary: s) (simp_all add: Let_def byte_xor_cancel)

text \<open>The key stream does not depend on the text: the XOR of two ciphertexts shows it.\<close>

lemma ctr_encrypt_xor:
  "length m = length m' \<Longrightarrow>
   map2 (XOR) (ctr_encrypt P m s) (ctr_encrypt P m' s) = map2 (XOR) m m'"
proof (induction m m' arbitrary: s rule: list_induct2)
  case Nil
  then show ?case by simp
next
  case (Cons x xs y ys)
  have "(x XOR c) XOR (y XOR c) = x XOR y" for c :: byte
    by (rule bit_word_eqI) (auto simp: bit_xor_iff)
  with Cons.IH show ?case by (simp add: Let_def)
qed

section \<open>Encryption of ids and blocks\<close>

text \<open>\<open>out\<close> after \<open>encrypt_bytes\<close>: the all-zero IV, then the ciphertext.\<close>

definition encrypt_bytes :: "prims \<Rightarrow> bytes \<Rightarrow> bytes \<Rightarrow> bytes" where
  "encrypt_bytes P k msg =
     (let IV = replicate 16 0 in IV @ ctr_encrypt P msg (ctr_start P IV k))"

definition encrypt_long :: "prims \<Rightarrow> bytes \<Rightarrow> u64 \<Rightarrow> bytes" where
  "encrypt_long P k v = encrypt_bytes P k (putu64 v)"

text \<open>
  \<open>decrypt_bytes(key, ctext, ctextlen, out)\<close>, with the array behind \<open>ctext\<close> and the size
  of the array \<open>out\<close> points to: the code checks neither, so a length outside them (or one
  below the 16 bytes of the IV, where \<open>ctextlen-16\<close> wraps) is undefined.
\<close>

definition decrypt_bytes :: "prims \<Rightarrow> bytes \<Rightarrow> bytes \<Rightarrow> nat \<Rightarrow> nat \<Rightarrow> err + bytes" where
  "decrypt_bytes P k ctext ctextlen outsize =
     (if ctextlen < 16 \<or> length ctext < ctextlen \<or> outsize < ctextlen - 16 then Inl Undefined
      else Inr (ctr_decrypt P (take (ctextlen - 16) (drop 16 ctext)) (ctr_start P (take 16 ctext) k)))"

definition decrypt_long :: "prims \<Rightarrow> bytes \<Rightarrow> bytes \<Rightarrow> err + u64" where
  "decrypt_long P k ctext =
     rbind (decrypt_bytes P k ctext ENCRYPTED_FILEID_SIZE 8) (\<lambda>outbytes. getu64 outbytes 0)"

lemma length_encrypt_bytes [simp]: "length (encrypt_bytes P k msg) = 16 + length msg"
  by (simp add: encrypt_bytes_def Let_def)

lemma length_encrypt_long [simp]: "length (encrypt_long P k v) = 24"
  by (simp add: encrypt_long_def)

lemma decrypt_encrypt_bytes:
  "length msg \<le> outsize \<Longrightarrow>
   decrypt_bytes P k (encrypt_bytes P k msg @ rest) (16 + length msg) outsize = Inr msg"
  by (simp add: decrypt_bytes_def encrypt_bytes_def Let_def ctr_decrypt_encrypt)

lemma decrypt_encrypt_long: "decrypt_long P k (encrypt_long P k v @ rest) = Inr v"
  using decrypt_encrypt_bytes [of "putu64 v" 8 P k rest]
  by (simp add: decrypt_long_def encrypt_long_def sizes)

lemma decrypt_long_total: "24 \<le> length ctext \<Longrightarrow> \<exists>v. decrypt_long P k ctext = Inr v"
  using getu64_defined_iff [of "ctr_decrypt P (take 8 (drop 16 ctext)) (ctr_start P (take 16 ctext) k)" 0]
  by (simp add: decrypt_long_def decrypt_bytes_def sizes ctr_decrypt_def)

lemma decrypt_bytes_Undefined_iff:
  "decrypt_bytes P k ctext n outsize = Inl Undefined
     \<longleftrightarrow> n < 16 \<or> length ctext < n \<or> outsize + 16 < n"
  by (auto simp: decrypt_bytes_def)

section \<open>Labels\<close>

definition mac_key :: "prims \<Rightarrow> bytes \<Rightarrow> byte \<Rightarrow> bytes \<Rightarrow> bytes" where
  "mac_key P k keynum token = hmac_sha256 P k ([keynum] @ c_str token)"

definition mac_counter :: "prims \<Rightarrow> bytes \<Rightarrow> bytes \<Rightarrow> bytes" where
  "mac_counter P k message = hmac_sha256 P k message"

definition mac_long :: "prims \<Rightarrow> bytes \<Rightarrow> u64 \<Rightarrow> bytes" where
  "mac_long P k counter = hmac_sha256 P k (putu64 counter)"

lemma mac_counter_putu64: "mac_counter P k (putu64 c) = mac_long P k c"
  by (simp add: mac_counter_def mac_long_def)

lemma length_mac [simp]:
  "prims_ok P \<Longrightarrow> length (mac_key P k n w) = DIGESTLEN"
  "prims_ok P \<Longrightarrow> length (mac_long P k c) = DIGESTLEN"
  "prims_ok P \<Longrightarrow> length (mac_counter P k m) = DIGESTLEN"
  by (simp_all add: prims_ok_def mac_key_def mac_long_def mac_counter_def)

text \<open>
  The label of entry \<open>c\<close> of token \<open>w\<close> under a master key: \<open>mac_long\<close> with the key that
  \<open>mac_key\<close> derives with key number \<open>'1'\<close>.
\<close>

definition label :: "prims \<Rightarrow> bytes \<Rightarrow> bytes \<Rightarrow> u64 \<Rightarrow> bytes" where
  "label P mk w c = mac_long P (mac_key P mk 0x31 w) c"

text \<open>
  The calls of HMAC those labels take, and the assumption about HMAC: among these calls
  it has no collision. (It is a statement about the primitive and its inputs only. That
  the labels are then different needs the codec and the C-string view of the tokens.)
\<close>

definition mac_calls :: "bytes \<Rightarrow> (bytes \<Rightarrow> bytes \<Rightarrow> bytes) \<Rightarrow> bytes set \<Rightarrow> (bytes \<times> bytes) set" where
  "mac_calls mk h W =
     {(mk, [0x31] @ c_str w) | w. w \<in> W}
     \<union> {(h mk ([0x31] @ c_str w), m) | w m. w \<in> W \<and> length m = 8}"

definition mac_cf :: "prims \<Rightarrow> bytes \<Rightarrow> bytes set \<Rightarrow> bool" where
  "mac_cf P mk W \<longleftrightarrow>
     inj_on (\<lambda>(k, m). hmac_sha256 P k m) (mac_calls mk (hmac_sha256 P) W)"

text \<open>Labels of different tokens or different counters are different.\<close>

lemma label_inj:
  assumes cf: "mac_cf P mk W" and nf: "\<And>w. w \<in> W \<Longrightarrow> nul_free w"
    and w: "w \<in> W" "v \<in> W" and eq: "label P mk w c = label P mk v d"
  shows "w = v \<and> c = d"
proof -
  let ?k = "\<lambda>w. hmac_sha256 P mk ([0x31] @ c_str w)"
  have inj: "p = q" if "p \<in> mac_calls mk (hmac_sha256 P) W" "q \<in> mac_calls mk (hmac_sha256 P) W"
      "(\<lambda>(k, m). hmac_sha256 P k m) p = (\<lambda>(k, m). hmac_sha256 P k m) q" for p q
    using cf that unfolding mac_cf_def by (meson inj_onD)
  have "(?k w, putu64 c) = (?k v, putu64 d)"
    using eq w by (intro inj) (auto simp: mac_calls_def label_def mac_long_def mac_key_def)
  then have c: "putu64 c = putu64 d" and "?k w = ?k v" by auto
  then have "(mk, [0x31] @ c_str w) = (mk, [0x31] @ c_str v)"
    using w by (intro inj) (auto simp: mac_calls_def)
  with c w nf show ?thesis by (auto dest: putu64_inj)
qed

lemma label_eq_iff:
  "mac_cf P mk W \<Longrightarrow> (\<And>w. w \<in> W \<Longrightarrow> nul_free w) \<Longrightarrow> w \<in> W \<Longrightarrow> v \<in> W \<Longrightarrow>
   label P mk w c = label P mk v d \<longleftrightarrow> w = v \<and> c = d"
  by (auto dest: label_inj)

end
