(* ===== verification/Tokenpair.thy ===== *)
theory Tokenpair
  imports Crypto "HOL-Library.Multiset"
begin

text \<open>
  \<open>struct token_pair\<close> of \<open>src/DSSE.cpp\<close>, its comparison and the sorting of the lists
  that go to the server. The comparison is proved to be the lexicographic order of
  \<open>(l, d, r)\<close>, a strict weak order as \<open>std::sort\<close> requires, and the sorted list is
  proved independent of the sorting algorithm as far as the server can see it.
\<close>

section \<open>The struct\<close>

record token_pair =
  tp_w :: bytes \<comment> \<open>the token \<open>w\<close> points to, empty for a null pointer\<close>
  tp_l :: bytes
  tp_d :: bytes
  tp_r :: bytes

definition token_pair_sized :: "token_pair \<Rightarrow> bool" where
  "token_pair_sized p \<longleftrightarrow> length (tp_l p) = DIGESTLEN
     \<and> length (tp_d p) = ENCRYPTED_BLOCK_SIZE \<and> length (tp_r p) = DIGESTLEN"

text \<open>\<open>token_pair p = {0}\<close>\<close>

definition zero_pair :: token_pair where
  "zero_pair = \<lparr>tp_w = [], tp_l = replicate DIGESTLEN 0,
     tp_d = replicate ENCRYPTED_BLOCK_SIZE 0, tp_r = replicate DIGESTLEN 0\<rparr>"

section \<open>compare_token_pair\<close>

text \<open>
  One of its three loops: \<open>Some True\<close> for \<open>return true\<close>, \<open>Some False\<close> for
  \<open>return false\<close>, \<open>None\<close> when the loop ends without returning.
\<close>

fun compare_loop :: "bytes \<Rightarrow> bytes \<Rightarrow> bool option" where
  "compare_loop (x # xs) (y # ys) =
     (if x < y then Some True else if x > y then Some False else compare_loop xs ys)"
| "compare_loop xs ys = None"

definition compare_token_pair :: "token_pair \<Rightarrow> token_pair \<Rightarrow> bool" where
  "compare_token_pair a b =
     (case compare_loop (tp_l a) (tp_l b) of Some r \<Rightarrow> r
      | None \<Rightarrow> (case compare_loop (tp_d a) (tp_d b) of Some r \<Rightarrow> r
      | None \<Rightarrow> (case compare_loop (tp_r a) (tp_r b) of Some r \<Rightarrow> r
      | None \<Rightarrow> False)))"

definition pair_key :: "token_pair \<Rightarrow> bytes \<times> bytes \<times> bytes" where
  "pair_key p = (tp_l p, tp_d p, tp_r p)"

lemma compare_loop_eq:
  "length xs = length ys \<Longrightarrow>
   compare_loop xs ys = (if xs < ys then Some True else if ys < xs then Some False else None)"
  by (induction xs ys rule: list_induct2) auto

lemma compare_loop_refl: "compare_loop xs xs = None"
  by (induction xs) auto

lemma compare_token_pair_iff:
  assumes "token_pair_sized a" "token_pair_sized b"
  shows "compare_token_pair a b \<longleftrightarrow> pair_key a < pair_key b"
proof -
  have "length (tp_l a) = length (tp_l b)" "length (tp_d a) = length (tp_d b)"
    "length (tp_r a) = length (tp_r b)"
    using assms by (simp_all add: token_pair_sized_def)
  note loops = this [THEN compare_loop_eq]
  have pair: "(x, y) < (u, v) \<longleftrightarrow> x < u \<or> x = u \<and> y < v"
    for x u :: bytes and y v :: "'z::order"
    by (auto simp: less_prod_def)
  consider "tp_l a < tp_l b" | "tp_l b < tp_l a"
    | "tp_l a = tp_l b" "tp_d a < tp_d b" | "tp_l a = tp_l b" "tp_d b < tp_d a"
    | "tp_l a = tp_l b" "tp_d a = tp_d b"
    using linorder_less_linear by metis
  then show ?thesis
    by cases (simp_all add: compare_token_pair_def pair_key_def loops compare_loop_refl pair
      order_less_imp_not_less)
qed

section \<open>std::sort\<close>

text \<open>
  \<open>std::sort\<close> with a comparison: an insertion sort stands for it, any other algorithm
  gives the same keys (\<open>sorted_perm_keys\<close>), hence the same bytes for the server.
\<close>

fun std_insert :: "('a \<Rightarrow> 'a \<Rightarrow> bool) \<Rightarrow> 'a \<Rightarrow> 'a list \<Rightarrow> 'a list" where
  "std_insert cmp x [] = [x]"
| "std_insert cmp x (y # ys) = (if cmp y x then y # std_insert cmp x ys else x # y # ys)"

fun std_sort :: "('a \<Rightarrow> 'a \<Rightarrow> bool) \<Rightarrow> 'a list \<Rightarrow> 'a list" where
  "std_sort cmp [] = []"
| "std_sort cmp (x # xs) = std_insert cmp x (std_sort cmp xs)"

lemma mset_std_insert: "mset (std_insert cmp x ys) = add_mset x (mset ys)"
  by (induction ys) auto

lemma mset_std_sort [simp]: "mset (std_sort cmp xs) = mset xs"
  by (induction xs) (auto simp: mset_std_insert)

lemma set_std_sort [simp]: "set (std_sort cmp xs) = set xs"
  by (metis mset_std_sort set_mset_mset)

lemma length_std_sort [simp]: "length (std_sort cmp xs) = length xs"
  by (metis mset_std_sort size_mset)

lemma distinct_std_sort [simp]: "distinct (std_sort cmp xs) = distinct xs"
  by (metis mset_std_sort mset_eq_imp_distinct_iff)

lemma std_insert_insort_key:
  assumes "\<And>y. y \<in> set ys \<Longrightarrow> cmp y x \<longleftrightarrow> f y < f x"
  shows "std_insert cmp x ys = insort_key f x ys"
  using assms by (induction ys) auto

lemma std_sort_sort_key:
  assumes "\<And>x y. x \<in> set xs \<Longrightarrow> y \<in> set xs \<Longrightarrow> cmp x y \<longleftrightarrow> f x < f y"
  shows "std_sort cmp xs = sort_key f xs"
  using assms by (induction xs) (auto intro!: std_insert_insort_key)

lemma std_sort_token_pairs:
  "(\<And>p. p \<in> set L \<Longrightarrow> token_pair_sized p) \<Longrightarrow>
   std_sort compare_token_pair L = sort_key pair_key L"
  by (rule std_sort_sort_key) (simp add: compare_token_pair_iff)

text \<open>Two sorted arrangements of the same pairs carry the same bytes in the same order.\<close>

lemma sorted_perm_keys:
  assumes "mset K = mset L"
    and "sorted (map pair_key K)" "sorted (map pair_key L)"
  shows "map pair_key K = map pair_key L"
proof -
  have "mset (map pair_key K) = mset (map pair_key L)" using assms(1) by simp
  then have "sort (map pair_key L) = map pair_key K" using assms(2) by (rule properties_for_sort)
  with assms(3) show ?thesis by (simp add: sorted_sort_id)
qed

end
