(* ===== verification/Ordmap.thy ===== *)
theory Ordmap
  imports Prelude
begin

text \<open>
  \<open>std::map\<close> and \<open>std::set\<close> as the program uses them: ordered containers whose
  iteration order (which decides what \<open>storage.cpp\<close> writes) is the order of the keys.
  A map is the list of its pairs in iteration order, a set the list of its elements; both
  are strictly sorted, which is the invariant every operation keeps. The interface the
  other components rely on is the locale \<open>map_ops\<close>, interpreted here on the lists.
\<close>

section \<open>std::map\<close>

type_synonym ('k, 'v) omap = "('k \<times> 'v) list"

definition om_inv :: "('k::linorder, 'v) omap \<Rightarrow> bool" where
  "om_inv m \<longleftrightarrow> sorted_wrt (<) (map fst m)"

fun om_lookup :: "('k, 'v) omap \<Rightarrow> 'k \<Rightarrow> 'v option" where
  "om_lookup [] k = None"
| "om_lookup ((a, b) # m) k = (if k = a then Some b else om_lookup m k)"

text \<open>\<open>m[k] = v\<close>: assign, inserting the key if it is new.\<close>

fun om_insert :: "'k::linorder \<Rightarrow> 'v \<Rightarrow> ('k, 'v) omap \<Rightarrow> ('k, 'v) omap" where
  "om_insert k v [] = [(k, v)]"
| "om_insert k v ((a, b) # m) =
     (if k < a then (k, v) # (a, b) # m
      else if k = a then (a, v) # m
      else (a, b) # om_insert k v m)"

definition om_count :: "('k, 'v) omap \<Rightarrow> 'k \<Rightarrow> bool" where
  "om_count m k = (om_lookup m k \<noteq> None)"

lemma om_lookup_eq_map_of: "om_lookup m = map_of m"
  by (rule ext, induct m) auto

lemma om_lookup_insert:
  "om_lookup (om_insert k v m) k' = (if k' = k then Some v else om_lookup m k')"
  by (induction m) auto

lemma set_om_insert_keys: "fst ` set (om_insert k v m) = insert k (fst ` set m)"
  by (induction k v m rule: om_insert.induct) (simp_all add: insert_commute)

lemma om_inv_empty: "om_inv []"
  by (simp add: om_inv_def)

lemma om_inv_Cons: "om_inv (p # m) \<longleftrightarrow> (\<forall>q \<in> set m. fst p < fst q) \<and> om_inv m"
  by (auto simp: om_inv_def)

lemma om_inv_insert: "om_inv m \<Longrightarrow> om_inv (om_insert k v m)"
proof (induction m)
  case Nil
  show ?case by (simp add: om_inv_def)
next
  case (Cons p m)
  obtain a b where p: "p = (a, b)" by fastforce
  have keys: "\<forall>q \<in> set m. a < fst q" and inv: "om_inv m"
    using Cons.prems by (auto simp: om_inv_Cons p)
  have "a < fst q" if "k > a" "q \<in> set (om_insert k v m)" for q
  proof -
    have "fst q \<in> insert k (fst ` set m)"
      using that(2) set_om_insert_keys [of k v m] by blast
    with keys that(1) show ?thesis by auto
  qed
  with keys inv Cons.IH [OF inv] show ?case
    by (fastforce simp: om_inv_Cons p)
qed

section \<open>std::set\<close>

type_synonym 'a oset = "'a list"

definition os_inv :: "'a::linorder oset \<Rightarrow> bool" where
  "os_inv s \<longleftrightarrow> sorted_wrt (<) s"

definition os_count :: "'a oset \<Rightarrow> 'a \<Rightarrow> bool" where
  "os_count s x = List.member s x"

fun os_insert :: "'a::linorder \<Rightarrow> 'a oset \<Rightarrow> 'a oset" where
  "os_insert x [] = [x]"
| "os_insert x (y # s) =
     (if x < y then x # y # s else if x = y then y # s else y # os_insert x s)"

fun os_erase :: "'a::linorder \<Rightarrow> 'a oset \<Rightarrow> 'a oset" where
  "os_erase x [] = []"
| "os_erase x (y # s) = (if x = y then s else y # os_erase x s)"

lemma os_count_iff [simp]: "os_count s x \<longleftrightarrow> x \<in> set s"
  by (simp add: os_count_def)

lemma set_os_insert [simp]: "set (os_insert x s) = insert x (set s)"
  by (induction s) auto

lemma os_inv_empty: "os_inv []"
  by (simp add: os_inv_def)

lemma os_inv_Cons: "os_inv (x # s) \<longleftrightarrow> (\<forall>y \<in> set s. x < y) \<and> os_inv s"
  by (simp add: os_inv_def)

lemma os_inv_insert: "os_inv s \<Longrightarrow> os_inv (os_insert x s)"
  by (induction s) (auto simp: os_inv_Cons os_inv_empty)

lemma set_os_erase: "os_inv s \<Longrightarrow> set (os_erase x s) = set s - {x}"
  by (induction s) (auto simp: os_inv_Cons)

lemma os_inv_erase: "os_inv s \<Longrightarrow> os_inv (os_erase x s)"
  by (induction s) (auto simp: os_inv_Cons set_os_erase)

lemma os_inv_unique: "os_inv s \<Longrightarrow> os_inv t \<Longrightarrow> set s = set t \<Longrightarrow> s = t"
  unfolding os_inv_def by (rule strictly_sorted_eq)

lemma om_inv_distinct: "om_inv m \<Longrightarrow> distinct (map fst m)"
  unfolding om_inv_def by (simp add: strict_sorted_iff)

lemma om_inv_unique:
  assumes inv: "om_inv m" "om_inv n" and same: "\<And>k. om_lookup m k = om_lookup n k"
  shows "m = n"
proof -
  have "map_of m = map_of n"
    using same by (simp add: om_lookup_eq_map_of fun_eq_iff)
  moreover have "distinct (map fst m)" "distinct (map fst n)"
    using inv by (auto intro: om_inv_distinct)
  ultimately have "set m = set n"
    using map_of_inject_set by blast
  moreover have "sorted (map fst m)" "sorted (map fst n)"
    using inv by (auto simp: om_inv_def strict_sorted_iff)
  ultimately show ?thesis
    using \<open>distinct (map fst m)\<close> \<open>distinct (map fst n)\<close>
    by (metis distinct_map map_sorted_distinct_set_unique set_map inj_on_Un Un_absorb)
qed

lemma set_os_erase_subset: "set (os_erase x s) \<subseteq> set s"
  by (induction s) auto

section \<open>The interface\<close>

text \<open>
  What the index, the update and the storage code rely on: a lookup after an assignment,
  and an invariant every assignment keeps. \<open>insert_all\<close> is the loop
  \<open>for (p : L) m[p.first] = p.second\<close>.
\<close>

locale map_ops =
  fixes empty :: "'m"
    and insert :: "'k \<Rightarrow> 'v \<Rightarrow> 'm \<Rightarrow> 'm"
    and lookup :: "'m \<Rightarrow> 'k \<Rightarrow> 'v option"
    and inv :: "'m \<Rightarrow> bool"
  assumes lookup_empty: "lookup empty k = None"
    and lookup_insert: "lookup (insert k v m) k' = (if k' = k then Some v else lookup m k')"
    and inv_empty: "inv empty"
    and inv_insert: "inv m \<Longrightarrow> inv (insert k v m)"
begin

lemma lookup_insert_all_other:
  "k \<notin> fst ` set L \<Longrightarrow> lookup (foldl (\<lambda>m p. insert (fst p) (snd p) m) m L) k = lookup m k"
  by (induction L arbitrary: m) (auto simp: lookup_insert)

lemma lookup_insert_all_val:
  assumes "k \<in> fst ` set L" and "\<And>p. p \<in> set L \<Longrightarrow> fst p = k \<Longrightarrow> snd p = v"
  shows "lookup (foldl (\<lambda>m p. insert (fst p) (snd p) m) m L) k = Some v"
  using assms
proof (induction L arbitrary: m)
  case Nil
  then show ?case by simp
next
  case (Cons p L)
  show ?case
  proof (cases "k \<in> fst ` set L")
    case True
    with Cons show ?thesis by simp
  next
    case False
    with Cons.prems have "fst p = k" "snd p = v" by auto
    with False show ?thesis by (simp add: lookup_insert_all_other lookup_insert)
  qed
qed

lemma lookup_insert_all_in:
  "lookup (foldl (\<lambda>m p. insert (fst p) (snd p) m) m L) k = Some v
   \<Longrightarrow> (k, v) \<in> set L \<or> (k \<notin> fst ` set L \<and> lookup m k = Some v)"
proof (induction L arbitrary: m)
  case Nil
  then show ?case by simp
next
  case (Cons p L)
  from Cons.prems have "lookup (foldl (\<lambda>m p. insert (fst p) (snd p) m)
    (insert (fst p) (snd p) m) L) k = Some v" by simp
  from Cons.IH [OF this] show ?case
    by (cases p) (auto simp: lookup_insert split: if_splits)
qed

lemma inv_insert_all: "inv m \<Longrightarrow> inv (foldl (\<lambda>m p. insert (fst p) (snd p) m) m L)"
  by (induction L arbitrary: m) (auto simp: inv_insert)

end

interpretation om: map_ops "[] :: ('k::linorder, 'v) omap" om_insert om_lookup om_inv
  by unfold_locales (simp_all add: om_lookup_insert om_inv_empty om_inv_insert)

text \<open>Sets of revoked identifiers: what \<open>count\<close>, \<open>insert\<close> and \<open>erase\<close> promise.\<close>

locale set_ops =
  fixes ins :: "'a \<Rightarrow> 's \<Rightarrow> 's"
    and del :: "'a \<Rightarrow> 's \<Rightarrow> 's"
    and elems :: "'s \<Rightarrow> 'a set"
    and inv :: "'s \<Rightarrow> bool"
  assumes elems_ins: "elems (ins x s) = insert x (elems s)"
    and elems_del: "inv s \<Longrightarrow> elems (del x s) = elems s - {x}"
    and inv_ins: "inv s \<Longrightarrow> inv (ins x s)"
    and inv_del: "inv s \<Longrightarrow> inv (del x s)"
begin

lemma elems_ins_all: "elems (foldl (\<lambda>s x. ins x s) s xs) = elems s \<union> set xs"
  by (induction xs arbitrary: s) (auto simp: elems_ins)

lemma inv_ins_all: "inv s \<Longrightarrow> inv (foldl (\<lambda>s x. ins x s) s xs)"
  by (induction xs arbitrary: s) (auto simp: inv_ins)

end

interpretation os: set_ops os_insert os_erase "set :: 'a::linorder list \<Rightarrow> 'a set" os_inv
  by unfold_locales (simp_all add: set_os_erase os_inv_insert os_inv_erase)

end
