(* ===== verification/Setup.thy ===== *)
theory Setup
  imports Tokenpair Ordmap
begin

text \<open>
  The state of \<open>DSSE::Core\<close> and the Setup operation: the three client variants
  (\<open>SetupClientBasic\<close>, \<open>SetupClientPacked\<close>, \<open>SetupClientPointer\<close>), their dispatch
  \<open>SetupClient\<close>, and \<open>SetupServer\<close>.
\<close>

section \<open>State\<close>

text \<open>\<open>enum Version\<close>; the field and the arguments are \<open>int\<close>.\<close>

definition Basic :: int where "Basic = 0"
definition Packed :: int where "Packed = 1"
definition Pointer :: int where "Pointer = 2"
definition TwoLevelPointer :: int where "TwoLevelPointer = 3"

lemmas versions = Basic_def Packed_def Pointer_def TwoLevelPointer_def

record core =
  version :: int
  key :: bytes
  kplus :: bytes
  kminus :: bytes
  Dcount :: "(bytes, u64) omap"
  D :: "(bytes, bytes) omap"
  A :: "bytes list"
  Dplus :: "(bytes, bytes) omap"
  Srev :: "bytes oset"
  dirtyD :: bool

definition new_core :: core where
  "new_core = \<lparr>version = Basic,
     key = replicate KEYLEN 0, kplus = replicate KEYLEN 0, kminus = replicate KEYLEN 0,
     Dcount = [], D = [], A = [], Dplus = [], Srev = [], dirtyD = False\<rparr>"

record setup_pair =
  sp_Token :: bytes
  sp_FileID :: bytes

text \<open>
  Where a container is a \<open>std::map\<close> or \<open>std::set\<close> it is ordered; that is all the
  operations ever assume of the state they are given.
\<close>

definition core_inv :: "core \<Rightarrow> bool" where
  "core_inv s \<longleftrightarrow> om_inv (Dcount s) \<and> om_inv (D s) \<and> om_inv (Dplus s) \<and> os_inv (Srev s)"

lemma core_inv_new: "core_inv new_core"
  by (simp add: core_inv_def new_core_def om_inv_empty os_inv_empty)

section \<open>Setup, client side\<close>

text \<open>
  The devices behind the three \<open>fopen("/dev/urandom")\<close> of a setup, in order, and the
  keys they give: \<open>key\<close>, \<open>kplus\<close>, \<open>kminus\<close>.
\<close>

definition draw_keys :: "urandom \<times> urandom \<times> urandom \<Rightarrow> core \<Rightarrow> (err + core) option" where
  "draw_keys devs s =
     obind (random_key (fst devs)) (\<lambda>k.
     obind (random_key (fst (snd devs))) (\<lambda>kp.
     obind (random_key (snd (snd devs))) (\<lambda>km.
       Some (Inr (s\<lparr>key := k, kplus := kp, kminus := km\<rparr>)))))"

text \<open>\<open>fileids.at(w)\<close>\<close>

type_synonym filemap = "(bytes, u64 list) omap"

definition fileids_at :: "filemap \<Rightarrow> bytes \<Rightarrow> err + u64 list" where
  "fileids_at fileids w =
     (case om_lookup fileids w of None \<Rightarrow> Inl OutOfRange | Some fids \<Rightarrow> Inr fids)"

text \<open>Handing the sorted list to the server: \<open>n\<close> bytes of each \<open>p.d\<close>.\<close>

definition hand_off :: "nat \<Rightarrow> token_pair list \<Rightarrow> setup_pair list" where
  "hand_off n L =
     map (\<lambda>p. \<lparr>sp_Token = tp_l p, sp_FileID = take n (tp_d p)\<rparr>) (std_sort compare_token_pair L)"

text \<open>Any order that agrees with the comparison gives the server the same list.\<close>

lemma hand_off_any_sort:
  assumes K: "mset K = mset L" and sized: "\<And>p. p \<in> set L \<Longrightarrow> token_pair_sized p"
    and ordered: "sorted_wrt (\<lambda>p q. \<not> compare_token_pair q p) K"
  shows "map (\<lambda>p. \<lparr>sp_Token = tp_l p, sp_FileID = take n (tp_d p)\<rparr>) K = hand_off n L"
proof -
  have sizedK: "token_pair_sized p" if "p \<in> set K" for p
    using sized that K by (metis set_mset_mset)
  have "sorted_wrt (\<lambda>p q. pair_key p \<le> pair_key q) K"
    using sizedK by (intro sorted_wrt_mono_rel [OF _ ordered]) (auto simp: compare_token_pair_iff)
  then have "sorted (map pair_key K)" by (simp add: sorted_wrt_map)
  moreover have "sorted (map pair_key (std_sort compare_token_pair L))"
    by (simp add: std_sort_token_pairs [OF sized] sorted_sort_key)
  ultimately have "map pair_key K = map pair_key (std_sort compare_token_pair L)"
    using K by (intro sorted_perm_keys) simp_all
  then have "map (\<lambda>(l, d, r). \<lparr>sp_Token = l, sp_FileID = take n d\<rparr>) (map pair_key K)
      = map (\<lambda>(l, d, r). \<lparr>sp_Token = l, sp_FileID = take n d\<rparr>)
          (map pair_key (std_sort compare_token_pair L))"
    by simp
  then show ?thesis by (simp add: hand_off_def pair_key_def comp_def)
qed

subsection \<open>Basic\<close>

definition basic_pair :: "prims \<Rightarrow> bytes \<Rightarrow> bytes \<Rightarrow> u64 list \<Rightarrow> nat \<Rightarrow> token_pair" where
  "basic_pair P K1 K2 fids c =
     (let counter_bytes = putu64 (of_nat c); fileid_bytes = putu64 (fids ! c); p = zero_pair
      in p\<lparr>tp_l := mac_counter P K1 counter_bytes,
           tp_d := write_prefix (tp_d p) (encrypt_bytes P K2 fileid_bytes)\<rparr>)"

definition basic_token :: "prims \<Rightarrow> core \<Rightarrow> filemap \<Rightarrow> bytes \<Rightarrow> err + token_pair list" where
  "basic_token P s fileids w =
     (let K1 = mac_key P (key s) 0x31 w; K2 = mac_key P (key s) 0x32 w
      in rbind (fileids_at fileids w) (\<lambda>fids.
           Inr (map (basic_pair P K1 K2 fids) [0..<length fids])))"

definition SetupClientBasic ::
  "prims \<Rightarrow> urandom \<times> urandom \<times> urandom \<Rightarrow> core \<Rightarrow> bytes list \<Rightarrow> filemap
    \<Rightarrow> (err + core \<times> setup_pair list) option" where
  "SetupClientBasic P devs s tokens fileids =
     obind (draw_keys devs s) (\<lambda>s.
       Some (rbind (rmap (basic_token P s fileids) tokens) (\<lambda>Ls.
         Inr (s, hand_off ENCRYPTED_FILEID_SIZE (concat Ls)))))"

subsection \<open>Packed\<close>

definition packed_slot :: "u64 list \<Rightarrow> nat \<Rightarrow> nat \<Rightarrow> bytes" where
  "packed_slot fids c fidc =
     (if c * B + fidc < length fids then putu64 (fids ! (c * B + fidc)) else replicate 8 0xff)"

definition packed_pair :: "prims \<Rightarrow> bytes \<Rightarrow> bytes \<Rightarrow> u64 list \<Rightarrow> nat \<Rightarrow> token_pair" where
  "packed_pair P K1 K2 fids c =
     (let counter_bytes = putu64 (of_nat c);
          fileid_bytes = concat (map (packed_slot fids c) [0..<B]);
          p = zero_pair
      in p\<lparr>tp_l := mac_counter P K1 counter_bytes,
           tp_d := write_prefix (tp_d p) (encrypt_bytes P K2 fileid_bytes)\<rparr>)"

definition packed_token :: "prims \<Rightarrow> core \<Rightarrow> filemap \<Rightarrow> bytes \<Rightarrow> err + token_pair list" where
  "packed_token P s fileids w =
     (let K1 = mac_key P (key s) 0x31 w; K2 = mac_key P (key s) 0x32 w
      in rbind (fileids_at fileids w) (\<lambda>fids.
           Inr (map (packed_pair P K1 K2 fids) [0..<(length fids + (B - 1)) div B])))"

definition SetupClientPacked ::
  "prims \<Rightarrow> urandom \<times> urandom \<times> urandom \<Rightarrow> core \<Rightarrow> bytes list \<Rightarrow> filemap
    \<Rightarrow> (err + core \<times> setup_pair list) option" where
  "SetupClientPacked P devs s tokens fileids =
     obind (draw_keys devs s) (\<lambda>s.
       Some (rbind (rmap (packed_token P s fileids) tokens) (\<lambda>Ls.
         Inr (s, hand_off ENCRYPTED_BLOCK_SIZE (concat Ls)))))"

subsection \<open>Pointer\<close>

text \<open>The loop over \<open>k\<close> filling \<open>fileid_block\<close>: its bytes, and \<open>i\<close> afterwards.\<close>

fun fileid_slots :: "u64 list \<Rightarrow> nat \<Rightarrow> nat \<Rightarrow> bytes \<times> nat" where
  "fileid_slots fids 0 i = ([], i)"
| "fileid_slots fids (Suc k) i =
     (if i < length fids
      then let (bs, i') = fileid_slots fids k (Suc i) in (putu64 (fids ! i) @ bs, i')
      else let (bs, i') = fileid_slots fids k i in (putu64 INVALID @ bs, i'))"

text \<open>
  The loop over \<open>j\<close> filling \<open>pointer_block\<close>, with \<open>m\<close> slots to go: the bytes of those
  slots, \<open>i\<close> and \<open>M\<close> afterwards. When the file ids are used up the remaining slots are
  \<open>INVALID\<close> and the loop is left.
\<close>

fun pointer_slots :: "prims \<Rightarrow> bytes \<Rightarrow> u64 list \<Rightarrow> nat \<Rightarrow> nat \<Rightarrow> bytes list \<Rightarrow> bytes \<times> nat \<times> bytes list" where
  "pointer_slots P K2 fids 0 i M = ([], i, M)"
| "pointer_slots P K2 fids (Suc m) i M =
     (let (fileid_block, i) = fileid_slots fids B i;
          M = M @ [encrypt_bytes P K2 fileid_block];
          ptr = putu64 (of_nat (length M - 1))
      in if i \<ge> length fids then (ptr @ concat (replicate m (putu64 INVALID)), i, M)
         else let (ptrs, i, M) = pointer_slots P K2 fids m i M in (ptr @ ptrs, i, M))"

lemma fileid_slots_ge: "i \<le> snd (fileid_slots fids k i)"
proof (induction k arbitrary: i)
  case (Suc k)
  show ?case using Suc.IH [of "Suc i"] Suc.IH [of i] by (auto split: prod.split)
qed simp

lemma fileid_slots_progress: "i < length fids \<Longrightarrow> 0 < k \<Longrightarrow> i < snd (fileid_slots fids k i)"
  using fileid_slots_ge [of "Suc i" fids "k - 1"]
  by (cases k) (auto split: prod.split)

lemma pointer_slots_ge: "i \<le> fst (snd (pointer_slots P K2 fids m i M))"
proof (induction m arbitrary: i M)
  case (Suc m)
  obtain fb i' where fb: "fileid_slots fids B i = (fb, i')" by fastforce
  have "i \<le> i'" using fileid_slots_ge [of i fids B] by (simp add: fb)
  also have "i' \<le> fst (snd (pointer_slots P K2 fids m i' (M @ [encrypt_bytes P K2 fb])))"
    by (rule Suc.IH)
  finally show ?case using \<open>i \<le> i'\<close> by (auto simp: fb Let_def split: prod.split)
qed simp

lemma pointer_slots_progress_Suc:
  assumes "i < length fids"
  shows "i < fst (snd (pointer_slots P K2 fids (Suc m) i M))"
proof -
  obtain fb i' where fb: "fileid_slots fids B i = (fb, i')" by fastforce
  have "0 < B" by (simp add: B_def)
  then have "i < i'" using fileid_slots_progress [OF assms, of B] by (simp add: fb)
  also have "i' \<le> fst (snd (pointer_slots P K2 fids m i' (M @ [encrypt_bytes P K2 fb])))"
    by (rule pointer_slots_ge)
  finally show ?thesis
    using \<open>i < i'\<close> by (auto simp: fb Let_def split: prod.split)
qed

lemma B_Suc: "B = Suc 4"
  by (simp add: B_def)

lemmas pointer_slots_progress = pointer_slots_progress_Suc [where m = 4, folded B_Suc]

text \<open>The loop over \<open>c\<close>: the pairs of one token, and \<open>M\<close> afterwards.\<close>

function pointer_loop ::
  "prims \<Rightarrow> bytes \<Rightarrow> bytes \<Rightarrow> u64 list \<Rightarrow> nat \<Rightarrow> nat \<Rightarrow> bytes list \<Rightarrow> token_pair list \<times> bytes list" where
  "pointer_loop P K1 K2 fids c i M =
     (if i < length fids then
        let (pointer_block, i', M') = pointer_slots P K2 fids B i M;
            p = zero_pair\<lparr>tp_d := write_prefix (tp_d zero_pair) (encrypt_bytes P K2 pointer_block),
                          tp_l := mac_counter P K1 (putu64 (of_nat c))\<rparr>;
            (L, M'') = pointer_loop P K1 K2 fids (Suc c) i' M'
        in (p # L, M'')
      else ([], M))"
  by pat_completeness auto
termination
proof (relation "measure (\<lambda>(P, K1, K2, fids, c, i, M). length fids - i)", goal_cases)
  case (2 P K1 K2 fids c i M x pb y i' M')
  then have "fst (snd (pointer_slots P K2 fids B i M)) = i'" by (metis fst_conv snd_conv)
  with 2 show ?case using pointer_slots_progress [of i fids P K2 M] by (cases y) simp
qed simp

declare pointer_loop.simps [simp del]

fun pointer_tokens ::
  "prims \<Rightarrow> core \<Rightarrow> filemap \<Rightarrow> bytes list \<Rightarrow> bytes list \<Rightarrow> err + token_pair list \<times> bytes list" where
  "pointer_tokens P s fileids [] M = Inr ([], M)"
| "pointer_tokens P s fileids (w # ws) M =
     (let K1 = mac_key P (key s) 0x31 w; K2 = mac_key P (key s) 0x32 w
      in rbind (fileids_at fileids w) (\<lambda>fids.
           let (L, M') = pointer_loop P K1 K2 fids 0 0 M
           in rbind (pointer_tokens P s fileids ws M') (\<lambda>(L', M''). Inr (L @ L', M''))))"

definition SetupClientPointer ::
  "prims \<Rightarrow> urandom \<times> urandom \<times> urandom \<Rightarrow> core \<Rightarrow> bytes list \<Rightarrow> filemap
    \<Rightarrow> (err + core \<times> setup_pair list \<times> bytes list) option" where
  "SetupClientPointer P devs s tokens fileids =
     obind (draw_keys devs s) (\<lambda>s.
       Some (rbind (pointer_tokens P s fileids tokens []) (\<lambda>(L, M).
         Inr (s, hand_off ENCRYPTED_BLOCK_SIZE L, M))))"

subsection \<open>Dispatch\<close>

definition SetupClient ::
  "prims \<Rightarrow> urandom \<times> urandom \<times> urandom \<Rightarrow> core \<Rightarrow> int \<Rightarrow> bytes list \<Rightarrow> filemap
    \<Rightarrow> (err + core \<times> setup_pair list \<times> bytes list) option" where
  "SetupClient P devs s ver tokens fileids =
     obind
       (if ver = Basic then
          obind (SetupClientBasic P devs s tokens fileids) (\<lambda>(s, L). Some (Inr (s, L, [])))
        else if ver = Packed then
          obind (SetupClientPacked P devs s tokens fileids) (\<lambda>(s, L). Some (Inr (s, L, [])))
        else if ver = Pointer then
          SetupClientPointer P devs s tokens fileids
        else Some (Inl (Exit 1)))
       (\<lambda>(s, L, M). Some (Inr (s\<lparr>version := ver\<rparr>, L, M)))"

section \<open>Setup, server side\<close>

definition SetupServer :: "core \<Rightarrow> int \<Rightarrow> setup_pair list \<Rightarrow> bytes list \<Rightarrow> core" where
  "SetupServer s ver L M =
     (let s = s\<lparr>D := [], A := [], Dplus := [], dirtyD := True\<rparr>;
          s = foldl (\<lambda>s p. s\<lparr>D := om_insert (sp_Token p) (sp_FileID p) (D s)\<rparr>) s L
      in s\<lparr>A := M, version := ver\<rparr>)"

lemma SetupServer_eq:
  "SetupServer s ver L M =
     s\<lparr>D := foldl (\<lambda>m p. om_insert (fst p) (snd p) m) [] (map (\<lambda>p. (sp_Token p, sp_FileID p)) L),
       A := M, Dplus := [], dirtyD := True, version := ver\<rparr>"
proof -
  have "foldl (\<lambda>s p. s\<lparr>D := om_insert (sp_Token p) (sp_FileID p) (D s)\<rparr>) t L =
    t\<lparr>D := foldl (\<lambda>m p. om_insert (fst p) (snd p) m) (D t)
            (map (\<lambda>p. (sp_Token p, sp_FileID p)) L)\<rparr>" for t :: core
    by (induction L arbitrary: t) simp_all
  then show ?thesis by (simp add: SetupServer_def Let_def)
qed

lemma core_inv_SetupServer: "core_inv s \<Longrightarrow> core_inv (SetupServer s ver L M)"
  unfolding SetupServer_eq core_inv_def
  by (auto intro: om.inv_insert_all om_inv_empty)

end
