(* ===== verification/Search.thy ===== *)
theory Search
  imports Setup
begin

text \<open>
  The Search operation: the keys the client derives (\<open>SearchClient\<close>) and the three
  server loops (\<open>SearchServerBasic\<close>, \<open>SearchServerPacked\<close>, \<open>SearchServerPointer\<close>) with
  their dispatch. A loop runs \<open>for (c = 0;; c++)\<close> on a wrapping 64-bit counter until a
  label is missing from the map, so whether it ends is a question; its model returns an
  \<open>option\<close>.
\<close>

section \<open>Client\<close>

record search_keys =
  sk_K1 :: bytes
  sk_K2 :: bytes
  sk_K1plus :: bytes
  sk_K2plus :: bytes
  sk_K1minus :: bytes

definition SearchClient :: "prims \<Rightarrow> core \<Rightarrow> bytes \<Rightarrow> search_keys" where
  "SearchClient P s w =
     \<lparr>sk_K1 = mac_key P (key s) 0x31 w, sk_K2 = mac_key P (key s) 0x32 w,
      sk_K1plus = mac_key P (kplus s) 0x31 w, sk_K2plus = mac_key P (kplus s) 0x32 w,
      sk_K1minus = mac_key P (kminus s) 0x31 w\<rparr>"

section \<open>Server\<close>

text \<open>
  The shape of all six loops: look label \<open>c\<close> up, leave when it is missing, otherwise
  append the ids found in the entry and go on with \<open>c + 1\<close>.
\<close>

partial_function (option) scan ::
  "(u64 \<Rightarrow> bytes option) \<Rightarrow> (bytes \<Rightarrow> err + u64 list) \<Rightarrow> u64 \<Rightarrow> u64 list \<Rightarrow> (err + u64 list) option" where
  "scan look entry c ids =
     (case look c of
        None \<Rightarrow> Some (Inr ids)
      | Some d \<Rightarrow> (case entry d of
            Inl e \<Rightarrow> Some (Inl e)
          | Inr new \<Rightarrow> scan look entry (c + 1) (ids @ new)))"

text \<open>\<open>if (Srev.count(revid) > 0) continue; ids.push_back(id)\<close>\<close>

definition push_unless_revoked :: "prims \<Rightarrow> core \<Rightarrow> bytes \<Rightarrow> u64 \<Rightarrow> u64 list" where
  "push_unless_revoked P s K1minus fid =
     (let revid = mac_long P K1minus fid
      in if os_count (Srev s) revid then [] else [fid])"

subsection \<open>Entries\<close>

definition entry_basic :: "prims \<Rightarrow> core \<Rightarrow> bytes \<Rightarrow> bytes \<Rightarrow> bytes \<Rightarrow> err + u64 list" where
  "entry_basic P s K2 K1minus d =
     rbind (decrypt_long P K2 (string_data d)) (\<lambda>fid. Inr (push_unless_revoked P s K1minus fid))"

text \<open>A packed entry: decrypt all of \<open>d\<close> into \<open>retid\<close>, then its \<open>B\<close> slots.\<close>

definition entry_packed :: "prims \<Rightarrow> core \<Rightarrow> bytes \<Rightarrow> bytes \<Rightarrow> bytes \<Rightarrow> err + u64 list" where
  "entry_packed P s K2 K1minus d =
     rbind (decrypt_bytes P K2 (string_data d) (length d) BLOCK_SIZE) (\<lambda>retid.
     rbind (rmap (\<lambda>i. rbind (getu64 retid (i * 8)) (\<lambda>retval.
              Inr (if retval < 0xffffffffffffffff then push_unless_revoked P s K1minus retval
                   else []))) [0..<B]) (\<lambda>slots.
     Inr (concat slots)))"

text \<open>The block a pointer leads to: its \<open>B\<close> slots, skipping the \<open>INVALID\<close> ones.\<close>

definition fileid_block_ids :: "prims \<Rightarrow> core \<Rightarrow> bytes \<Rightarrow> bytes \<Rightarrow> bytes \<Rightarrow> err + u64 list" where
  "fileid_block_ids P s K2 K1minus blk =
     rbind (decrypt_bytes P K2 (string_data blk) (length blk) BLOCK_SIZE) (\<lambda>fileid_block.
     rbind (rmap (\<lambda>j. rbind (getu64 fileid_block (j * 8)) (\<lambda>fileid.
              Inr (if fileid = INVALID then [] else push_unless_revoked P s K1minus fileid)))
            [0..<B]) (\<lambda>slots.
     Inr (concat slots)))"

text \<open>The slots of a pointer block, from slot \<open>i\<close> on: \<open>INVALID\<close> ends the loop, an index
  outside \<open>A\<close> is reported and skipped.\<close>

fun walk_pointers :: "prims \<Rightarrow> core \<Rightarrow> bytes \<Rightarrow> bytes \<Rightarrow> bytes \<Rightarrow> nat list \<Rightarrow> err + u64 list" where
  "walk_pointers P s K2 K1minus pointer_block [] = Inr []"
| "walk_pointers P s K2 K1minus pointer_block (i # is) =
     rbind (getu64 pointer_block (i * 8)) (\<lambda>index.
       if index = INVALID then Inr []
       else if unat index \<ge> length (A s) then walk_pointers P s K2 K1minus pointer_block is
       else rbind (fileid_block_ids P s K2 K1minus (A s ! unat index)) (\<lambda>ids.
            rbind (walk_pointers P s K2 K1minus pointer_block is) (\<lambda>rest. Inr (ids @ rest))))"

definition entry_pointer :: "prims \<Rightarrow> core \<Rightarrow> bytes \<Rightarrow> bytes \<Rightarrow> bytes \<Rightarrow> err + u64 list" where
  "entry_pointer P s K2 K1minus d =
     rbind (decrypt_bytes P K2 (string_data d) (length d) BLOCK_SIZE) (\<lambda>pointer_block.
       walk_pointers P s K2 K1minus pointer_block [0..<B])"

subsection \<open>The three searches\<close>

text \<open>The second half, the loop over \<open>Dplus\<close>, is the same text in all three.\<close>

definition scan_Dplus ::
  "prims \<Rightarrow> core \<Rightarrow> bytes \<Rightarrow> bytes \<Rightarrow> bytes \<Rightarrow> u64 list \<Rightarrow> (err + u64 list) option" where
  "scan_Dplus P s K1plus K2plus K1minus ids =
     scan (\<lambda>c. om_lookup (Dplus s) (mac_long P K1plus c)) (entry_basic P s K2plus K1minus) 0 ids"

definition SearchServerBasic :: "prims \<Rightarrow> core \<Rightarrow> search_keys \<Rightarrow> (err + u64 list) option" where
  "SearchServerBasic P s ks =
     obind (scan (\<lambda>c. om_lookup (D s) (mac_long P (sk_K1 ks) c))
              (entry_basic P s (sk_K2 ks) (sk_K1minus ks)) 0 [])
           (scan_Dplus P s (sk_K1plus ks) (sk_K2plus ks) (sk_K1minus ks))"

definition SearchServerPacked :: "prims \<Rightarrow> core \<Rightarrow> search_keys \<Rightarrow> (err + u64 list) option" where
  "SearchServerPacked P s ks =
     obind (scan (\<lambda>c. om_lookup (D s) (mac_long P (sk_K1 ks) c))
              (entry_packed P s (sk_K2 ks) (sk_K1minus ks)) 0 [])
           (scan_Dplus P s (sk_K1plus ks) (sk_K2plus ks) (sk_K1minus ks))"

definition SearchServerPointer :: "prims \<Rightarrow> core \<Rightarrow> search_keys \<Rightarrow> (err + u64 list) option" where
  "SearchServerPointer P s ks =
     obind (scan (\<lambda>c. om_lookup (D s) (mac_long P (sk_K1 ks) c))
              (entry_pointer P s (sk_K2 ks) (sk_K1minus ks)) 0 [])
           (scan_Dplus P s (sk_K1plus ks) (sk_K2plus ks) (sk_K1minus ks))"

definition SearchServer :: "prims \<Rightarrow> core \<Rightarrow> search_keys \<Rightarrow> (err + u64 list) option" where
  "SearchServer P s ks =
     (if version s = Basic then SearchServerBasic P s ks
      else if version s = Packed then SearchServerPacked P s ks
      else if version s = Pointer then SearchServerPointer P s ks
      else Some (Inl (Exit 1)))"

section \<open>The loop\<close>

text \<open>
  A scan over \<open>n\<close> consecutive entries followed by a missing label returns, with the ids
  of the entries in order. Nothing here needs the labels to be different.
\<close>

lemma scan_entries:
  assumes "\<And>c. c < n \<Longrightarrow> \<exists>d. look (c0 + of_nat c) = Some d \<and> entry d = Inr (chunk c)"
    and "look (c0 + of_nat n) = None"
  shows "scan look entry c0 ids = Some (Inr (ids @ concat (map chunk [0..<n])))"
  using assms
proof (induction n arbitrary: c0 ids chunk)
  case 0
  then show ?case by (subst scan.simps) simp
next
  case (Suc n)
  obtain d where d: "look c0 = Some d" "entry d = Inr (chunk 0)"
    using Suc.prems(1) [of 0] by auto
  have "scan look entry (c0 + 1) (ids @ chunk 0)
      = Some (Inr ((ids @ chunk 0) @ concat (map (\<lambda>c. chunk (Suc c)) [0..<n])))"
  proof (rule Suc.IH)
    show "\<exists>d. look (c0 + 1 + of_nat c) = Some d \<and> entry d = Inr (chunk (Suc c))" if "c < n" for c
      using Suc.prems(1) [of "Suc c"] that by (simp add: add.assoc)
    show "look (c0 + 1 + of_nat n) = None"
      using Suc.prems(2) by (simp add: add.assoc)
  qed
  moreover have "[0..<Suc n] = 0 # map Suc [0..<n]"
    by (metis map_Suc_upt upt_conv_Cons zero_less_Suc)
  ultimately show ?case
    by (subst scan.simps) (simp add: d comp_def)
qed

text \<open>An entry that fails stops the scan with its error.\<close>

lemma scan_first_error:
  "look c0 = Some d \<Longrightarrow> entry d = Inl e \<Longrightarrow> scan look entry c0 ids = Some (Inl e)"
  by (subst scan.simps) simp

text \<open>If every label is present and decodes, the loop never returns.\<close>

lemma scan_diverges:
  assumes "\<And>c. \<exists>d new. look c = Some d \<and> entry d = Inr new"
  shows "scan look entry c ids = None"
proof (cases "scan look entry c ids")
  case (Some r)
  have "(\<forall>c. \<exists>d new. look c = Some d \<and> entry d = Inr new) \<longrightarrow> False"
  proof (rule scan.raw_induct [where P = "\<lambda>look entry c ids r.
      (\<forall>c. \<exists>d new. look c = Some d \<and> entry d = Inr new) \<longrightarrow> False", OF _ Some], goal_cases)
    case (1 f look entry c ids r)
    show ?case
    proof
      assume all: "\<forall>c. \<exists>d new. look c = Some d \<and> entry d = Inr new"
      then obtain d new where "look c = Some d" "entry d = Inr new" by blast
      with 1(2) have "f look entry (c + 1) (ids @ new) = Some r" by simp
      with 1(1) all show False by blast
    qed
  qed
  with assms show ?thesis by blast
qed

text \<open>
  It is enough that one label is missing: the loop reaches it, unless an entry fails
  before. With fewer than \<open>2 ^ 64\<close> entries and labels that differ, one is missing.
\<close>

lemma scan_returns:
  "look (c0 + of_nat n) = None \<Longrightarrow> scan look entry c0 ids \<noteq> None"
proof (induction n arbitrary: c0 ids)
  case 0
  then show ?case by (subst scan.simps) simp
next
  case (Suc n)
  have "look (c0 + 1 + of_nat n) = None" using Suc.prems by (simp add: add.assoc)
  then have "scan look entry (c0 + 1) ids' \<noteq> None" for ids' by (rule Suc.IH)
  then show ?case by (subst scan.simps) (auto split: option.split sum.split)
qed

lemma missing_label:
  assumes inj: "inj f" and len: "length m < 2 ^ 64"
  shows "\<exists>n. om_lookup m (f (of_nat n :: u64)) = None"
proof (rule ccontr)
  assume "\<nexists>n. om_lookup m (f (of_nat n :: u64)) = None"
  then have "om_lookup m (f c) \<noteq> None" for c
    by (metis word_nat_cases)
  then have "range f \<subseteq> fst ` set m"
    by (auto simp: om_lookup_eq_map_of map_of_eq_None_iff)
  then have "card (range f) \<le> card (fst ` set m)" by (intro card_mono) auto
  also have "\<dots> \<le> length m" using card_image_le [of "set m" fst] card_length [of m] by simp
  finally show False using inj len by (simp add: card_image card_word)
qed

lemma scan_map_returns:
  "inj f \<Longrightarrow> length m < 2 ^ 64 \<Longrightarrow> scan (\<lambda>c. om_lookup m (f c)) entry 0 ids \<noteq> None"
  using missing_label [of f m] scan_returns [of "\<lambda>c. om_lookup m (f c)" 0] by auto

lemma SearchServer_returns:
  assumes "inj (mac_long P (sk_K1 ks))" "inj (mac_long P (sk_K1plus ks))"
    and "length (D s) < 2 ^ 64" "length (Dplus s) < 2 ^ 64"
  shows "SearchServer P s ks \<noteq> None"
proof -
  have D: "scan (\<lambda>c. om_lookup (D s) (mac_long P (sk_K1 ks) c)) entry 0 [] \<noteq> None" for entry
    by (rule scan_map_returns [OF assms(1,3)])
  have plus: "scan_Dplus P s (sk_K1plus ks) K2 K1minus ids \<noteq> None" for K2 K1minus ids
    unfolding scan_Dplus_def by (rule scan_map_returns [OF assms(2,4)])
  have ob: "obind m f \<noteq> None" if "m \<noteq> None" "\<And>x. f x \<noteq> None" for m :: "(err + u64 list) option"
    and f :: "u64 list \<Rightarrow> (err + u64 list) option"
    using that by (cases m) (auto simp: obind_def split: sum.split)
  have "SearchServerBasic P s ks \<noteq> None" "SearchServerPacked P s ks \<noteq> None"
    "SearchServerPointer P s ks \<noteq> None"
    unfolding SearchServerBasic_def SearchServerPacked_def SearchServerPointer_def
    by (rule ob [OF D plus])+
  then show ?thesis by (simp only: SearchServer_def split: if_splits) simp
qed

text \<open>A search fails only by an entry, where bytes are read or written outside an array.\<close>

lemma scan_error:
  assumes "scan look entry c ids = Some r" "r = Inl e"
  shows "\<exists>c d. look c = Some d \<and> entry d = Inl e"
proof -
  have "r = Inl e \<longrightarrow> (\<exists>c d. look c = Some d \<and> entry d = Inl e)"
  proof (rule scan.raw_induct [where P = "\<lambda>look entry c ids r.
      r = Inl e \<longrightarrow> (\<exists>c d. look c = Some d \<and> entry d = Inl e)", OF _ assms(1)], goal_cases)
    case (1 f look entry c ids r)
    show ?case
    proof
      assume "r = Inl e"
      with 1 show "\<exists>c d. look c = Some d \<and> entry d = Inl e"
        by (auto split: option.splits sum.splits)
    qed
  qed
  with assms(2) show ?thesis by simp
qed

lemma scan_map_error:
  "scan (\<lambda>c. om_lookup m (f c)) entry c ids = Some (Inl e) \<Longrightarrow> \<exists>(k, d) \<in> set m. entry d = Inl e"
  by (drule scan_error [OF _ refl]) (force simp: om_lookup_eq_map_of dest: map_of_SomeD)

lemma rmap_error: "rmap f xs = Inl e \<Longrightarrow> \<exists>x \<in> set xs. f x = Inl e"
  by (induction xs) (auto simp: rbind_Inl_iff)

lemma getu64_error: "getu64 b off = Inl e \<Longrightarrow> e = Undefined \<and> length b < off + 8"
proof -
  assume err: "getu64 b off = Inl e"
  then have "\<nexists>v. getu64 b off = Inr v" by simp
  with err show ?thesis unfolding getu64_defined_iff by (auto simp: getu64_def split: option.splits)
qed

lemma decrypt_bytes_error:
  "decrypt_bytes P k ctext n m = Inl e \<Longrightarrow> e = Undefined \<and> (n < 16 \<or> length ctext < n \<or> m < n - 16)"
  by (auto simp: decrypt_bytes_def split: if_splits)

lemma decrypt_bytes_length: "decrypt_bytes P k ctext n m = Inr r \<Longrightarrow> length r = n - 16"
  by (auto simp: decrypt_bytes_def ctr_decrypt_def split: if_splits)

text \<open>A basic entry needs the 24 bytes of an encrypted id, the others have the size of a block.\<close>

definition block_sized :: "bytes \<Rightarrow> bool" where
  "block_sized d \<longleftrightarrow> length d = ENCRYPTED_BLOCK_SIZE"

lemma entry_basic_error:
  "entry_basic P s K2 K1minus d = Inl e \<Longrightarrow> e = Undefined \<and> length d < ENCRYPTED_FILEID_SIZE"
  using decrypt_long_total [of "string_data d" P K2]
  by (auto simp: entry_basic_def rbind_Inl_iff decrypt_long_def sizes string_data_def
      dest!: decrypt_bytes_error getu64_error dest: decrypt_bytes_length)

text \<open>Decrypting into a block and reading its slots is what the other two entries share.\<close>

lemma block_error:
  assumes "rbind (decrypt_bytes P K2 (string_data d) (length d) BLOCK_SIZE) f = Inl e"
    and "\<And>r. length r = length d - 16 \<Longrightarrow> f r = Inl e \<Longrightarrow> e = Undefined \<and> (length r < BLOCK_SIZE \<or> Q)"
  shows "e = Undefined \<and> (\<not> block_sized d \<or> Q)"
  using assms(1) decrypt_bytes_error [of P K2 "string_data d" "length d" BLOCK_SIZE e] assms(2)
  by (auto simp: rbind_Inl_iff block_sized_def sizes string_data_def dest: decrypt_bytes_length)

lemma slots_error:
  assumes "rbind (rmap (\<lambda>i. rbind (getu64 r (i * 8)) (\<lambda>v. Inr (g v))) [0..<B]) (\<lambda>xs. Inr (h xs)) = Inl e"
  shows "e = Undefined \<and> length r < BLOCK_SIZE"
proof -
  obtain i where "i < B" "getu64 r (i * 8) = Inl e"
    using assms by (auto simp: rbind_Inl_iff dest!: rmap_error)
  with getu64_error [of r "i * 8" e] show ?thesis by (auto simp: sizes)
qed

lemma entry_packed_error:
  "entry_packed P s K2 K1minus d = Inl e \<Longrightarrow> e = Undefined \<and> \<not> block_sized d"
  unfolding entry_packed_def by (drule block_error [where Q = False]) (auto dest: slots_error)

lemma fileid_block_ids_error:
  "fileid_block_ids P s K2 K1minus b = Inl e \<Longrightarrow> e = Undefined \<and> \<not> block_sized b"
  unfolding fileid_block_ids_def by (drule block_error [where Q = False]) (auto dest: slots_error)

lemma walk_pointers_error:
  "walk_pointers P s K2 K1minus r is = Inl e \<Longrightarrow> \<forall>i \<in> set is. i < B \<Longrightarrow>
   e = Undefined \<and> (length r < BLOCK_SIZE \<or> (\<exists>b \<in> set (A s). \<not> block_sized b))"
proof (induction "is")
  case (Cons i "is")
  consider "getu64 r (i * 8) = Inl e"
    | v :: u64 where "\<not> length (A s) \<le> unat v" "fileid_block_ids P s K2 K1minus (A s ! unat v) = Inl e"
    | "walk_pointers P s K2 K1minus r is = Inl e"
    using Cons.prems(1) by (auto simp: rbind_Inl_iff split: if_splits)
  then show ?case
  proof cases
    case 1
    then show ?thesis using getu64_error [OF 1] Cons.prems(2) by (auto simp: sizes)
  next
    case 2
    then show ?thesis using fileid_block_ids_error [OF 2(2)] by (meson not_le nth_mem)
  next
    case 3
    then show ?thesis using Cons by simp
  qed
qed simp

lemma entry_pointer_error:
  "entry_pointer P s K2 K1minus d = Inl e \<Longrightarrow>
   e = Undefined \<and> (\<not> block_sized d \<or> (\<exists>b \<in> set (A s). \<not> block_sized b))"
  unfolding entry_pointer_def by (erule block_error) (rule walk_pointers_error, auto)

text \<open>The sizes that Setup and Add write.\<close>

definition entries_sized :: "core \<Rightarrow> bool" where
  "entries_sized s \<longleftrightarrow> (\<forall>(k, d) \<in> set (Dplus s). ENCRYPTED_FILEID_SIZE \<le> length d)
     \<and> (\<forall>(k, d) \<in> set (D s). if version s = Basic then ENCRYPTED_FILEID_SIZE \<le> length d else block_sized d)
     \<and> (version s = Pointer \<longrightarrow> (\<forall>b \<in> set (A s). block_sized b))"

lemma SearchServer_error:
  assumes "SearchServer P s ks = Some (Inl e)"
  shows "if version s \<in> {Basic, Packed, Pointer} then e = Undefined \<and> \<not> entries_sized s else e = Exit 1"
proof -
  have plus: "e = Undefined \<and> \<not> entries_sized s" if "scan_Dplus P s K1 K2 K1minus ids = Some (Inl e)" for K1 K2 K1minus ids
    using that unfolding scan_Dplus_def
    by (force dest!: scan_map_error entry_basic_error simp: entries_sized_def)
  have split: "m = Some (Inl e) \<or> (\<exists>x. f x = Some (Inl e))" if "obind m f = Some (Inl e)"
    for m and f :: "u64 list \<Rightarrow> (err + u64 list) option"
    using that by (auto simp: obind_def split: option.splits sum.splits)
  consider "version s = Basic" "SearchServerBasic P s ks = Some (Inl e)"
    | "version s = Packed" "SearchServerPacked P s ks = Some (Inl e)"
    | "version s = Pointer" "SearchServerPointer P s ks = Some (Inl e)"
    | "version s \<notin> {Basic, Packed, Pointer}" "e = Exit 1"
    using assms by (auto simp: SearchServer_def split: if_splits)
  then show ?thesis
  proof cases
    case 1
    then show ?thesis unfolding SearchServerBasic_def
      by (force dest!: split plus scan_map_error entry_basic_error simp: entries_sized_def)
  next
    case 2
    then have "version s \<noteq> Basic" by (simp add: versions)
    with 2 show ?thesis unfolding SearchServerPacked_def
      by (force dest!: split plus scan_map_error entry_packed_error simp: entries_sized_def)
  next
    case 3
    then have "version s \<noteq> Basic" by (simp add: versions)
    with 3 show ?thesis unfolding SearchServerPointer_def
      by (force dest!: split plus scan_map_error entry_pointer_error simp: entries_sized_def)
  qed auto
qed

section \<open>What an entry holds\<close>

text \<open>
  The revocation check only filters: an entry of any variant yields the ids it holds, in
  order, less the revoked ones.
\<close>

definition live_ids :: "prims \<Rightarrow> core \<Rightarrow> bytes \<Rightarrow> u64 list \<Rightarrow> u64 list" where
  "live_ids P s K1minus ids = filter (\<lambda>fid. mac_long P K1minus fid \<notin> set (Srev s)) ids"

lemma live_ids_append: "live_ids P s k (xs @ ys) = live_ids P s k xs @ live_ids P s k ys"
  by (simp add: live_ids_def)

lemma live_ids_concat: "live_ids P s k (concat xss) = concat (map (live_ids P s k) xss)"
  by (induction xss) (auto simp: live_ids_def)

lemma push_unless_revoked_eq: "push_unless_revoked P s k fid = live_ids P s k [fid]"
  by (simp add: push_unless_revoked_def live_ids_def Let_def)

lemma entry_basic_encrypt_long:
  "entry_basic P s K2 k (encrypt_long P K2 fid @ rest) = Inr (live_ids P s k [fid])"
  using decrypt_encrypt_long [of P K2 fid "rest @ [0]"]
  by (simp add: entry_basic_def string_data_def push_unless_revoked_eq)

text \<open>Reading the \<open>B\<close> slots of a block, dropping the \<open>INVALID\<close> ones.\<close>

lemma valid_slot_eq:
  "(if x < 0xffffffffffffffff then push_unless_revoked P s k x else [])
   = live_ids P s k (filter (\<lambda>x. x \<noteq> INVALID) [x])"
proof -
  have max: "(0xffffffffffffffff :: u64) = - 1" by simp
  have "x < 0xffffffffffffffff \<longleftrightarrow> x \<noteq> INVALID"
    unfolding INVALID_def max using word_order.not_eq_extremum [of x] by simp
  then show ?thesis by (simp add: push_unless_revoked_eq live_ids_def)
qed

lemma concat_singleton_slots:
  "concat (map (\<lambda>i. live_ids P s k (filter Q [xs ! i])) [0..<length xs]) = live_ids P s k (filter Q xs)"
proof -
  have "concat (map (\<lambda>i. live_ids P s k (filter Q [xs ! i])) [0..<length xs])
      = concat (map (\<lambda>x. live_ids P s k (filter Q [x])) (map ((!) xs) [0..<length xs]))"
    by (simp add: comp_def)
  also have "\<dots> = concat (map (\<lambda>x. live_ids P s k (filter Q [x])) xs)"
    by (simp only: map_nth)
  also have "\<dots> = live_ids P s k (filter Q xs)"
    by (induction xs) (auto simp: live_ids_def)
  finally show ?thesis .
qed

lemma decrypt_encrypt_block:
  assumes "length ids = B"
  shows "decrypt_bytes P K2 (string_data (encrypt_bytes P K2 (block_of ids)))
           (16 + 8 * B) BLOCK_SIZE = Inr (block_of ids)"
  using decrypt_encrypt_bytes [of "block_of ids" BLOCK_SIZE P K2 "[0]"] assms
  by (simp add: string_data_def BLOCK_SIZE_def)

lemma entry_packed_block:
  assumes "length ids = B"
  shows "entry_packed P s K2 k (encrypt_bytes P K2 (block_of ids))
       = Inr (live_ids P s k (filter (\<lambda>x. x \<noteq> INVALID) ids))"
proof -
  have "rmap (\<lambda>i. rbind (getu64 (block_of ids) (i * 8)) (\<lambda>retval.
            Inr (if retval < 0xffffffffffffffff then push_unless_revoked P s k retval else []))) [0..<B]
      = Inr (map (\<lambda>i. live_ids P s k (filter (\<lambda>x. x \<noteq> INVALID) [ids ! i])) [0..<B])"
    by (rule rmap_Inr) (simp add: getu64_block_of assms valid_slot_eq del: filter.simps)
  then show ?thesis
    using concat_singleton_slots [of P s k "\<lambda>x. x \<noteq> INVALID" ids]
    by (simp add: entry_packed_def decrypt_encrypt_block assms del: filter.simps)
qed

lemma fileid_block_ids_block:
  assumes "length ids = B"
  shows "fileid_block_ids P s K2 k (encrypt_bytes P K2 (block_of ids))
       = Inr (live_ids P s k (filter (\<lambda>x. x \<noteq> INVALID) ids))"
proof -
  have "rmap (\<lambda>j. rbind (getu64 (block_of ids) (j * 8)) (\<lambda>fileid.
            Inr (if fileid = INVALID then [] else push_unless_revoked P s k fileid))) [0..<B]
      = Inr (map (\<lambda>j. live_ids P s k (filter (\<lambda>x. x \<noteq> INVALID) [ids ! j])) [0..<B])"
    by (rule rmap_Inr) (simp add: getu64_block_of assms push_unless_revoked_eq live_ids_def)
  then show ?thesis
    using concat_singleton_slots [of P s k "\<lambda>x. x \<noteq> INVALID" ids]
    by (simp add: fileid_block_ids_def decrypt_encrypt_block assms del: filter.simps)
qed

end
