(* ===== verification/Index.thy ===== *)
theory Index
  imports Search
begin

text \<open>
  What Setup puts on the server, variant by variant, and that Search reads it back.
  Each variant cuts the ids of a token into chunks (one id per entry in Basic, \<open>B\<close> in
  Packed, \<open>B * B\<close> behind a pointer block in Pointer), stores chunk \<open>c\<close> under label \<open>c\<close>,
  and the search loop concatenates the chunks.
\<close>

section \<open>Chunks\<close>

fun chunks :: "nat \<Rightarrow> 'a list \<Rightarrow> 'a list list" where
  "chunks n xs = (if n = 0 \<or> xs = [] then [] else take n xs # chunks n (drop n xs))"

declare chunks.simps [simp del]

lemma chunks_Nil [simp]: "chunks n [] = []"
  by (simp add: chunks.simps)

lemma chunks_step: "0 < n \<Longrightarrow> xs \<noteq> [] \<Longrightarrow> chunks n xs = take n xs # chunks n (drop n xs)"
  by (subst chunks.simps) simp

lemma concat_chunks: "0 < n \<Longrightarrow> concat (chunks n xs) = xs"
proof (induction n xs rule: chunks.induct)
  case (1 n xs)
  then show ?case by (cases "xs = []") (simp_all add: chunks_step)
qed

lemma length_chunks: "0 < n \<Longrightarrow> length (chunks n xs) = (length xs + (n - 1)) div n"
proof (induction n xs rule: chunks.induct)
  case (1 n xs)
  show ?case
  proof (cases "xs = []")
    case True
    with 1 show ?thesis by simp
  next
    case False
    with 1 have IH: "length (chunks n (drop n xs)) = (length xs - n + (n - 1)) div n" by simp
    show ?thesis
    proof (cases "n \<le> length xs")
      case True
      have "length xs + (n - 1) = (length xs - n + (n - 1)) + n" using True by simp
      then have "(length xs + (n - 1)) div n = Suc ((length xs - n + (n - 1)) div n)"
        using 1(2) by (simp only: div_add_self2)
      with IH False 1(2) show ?thesis by (simp add: chunks_step)
    next
      case le: False
      then have "(length xs + (n - 1)) div n = 1"
        using False 1(2) by (cases xs) (auto intro!: div_nat_eqI)
      with IH False 1(2) le show ?thesis by (simp add: chunks_step)
    qed
  qed
qed

lemma length_chunks_le: "0 < n \<Longrightarrow> length (chunks n xs) \<le> length xs"
proof (induction n xs rule: chunks.induct)
  case (1 n xs)
  then show ?case by (cases xs) (auto simp: chunks_step)
qed

lemma chunks_nth: "0 < n \<Longrightarrow> c < length (chunks n xs) \<Longrightarrow> chunks n xs ! c = take n (drop (n * c) xs)"
proof (induction n xs arbitrary: c rule: chunks.induct)
  case (1 n xs)
  then show ?case
    by (cases c; cases "xs = []") (auto simp: chunks_step ac_simps)
qed

section \<open>What an entry holds, for any set of revoked ids\<close>

text \<open>
  An entry made against the blocks \<open>blocks\<close> yields its ids on every server whose array \<open>A\<close>
  starts with them: blocks after those do not disturb it.
\<close>

definition entry_of ::
  "int \<Rightarrow> prims \<Rightarrow> core \<Rightarrow> bytes \<Rightarrow> bytes \<Rightarrow> bytes \<Rightarrow> err + u64 list" where
  "entry_of ver =
     (if ver = Basic then entry_basic else if ver = Packed then entry_packed else entry_pointer)"

definition entry_holds :: "prims \<Rightarrow> int \<Rightarrow> bytes list \<Rightarrow> bytes \<Rightarrow> bytes \<Rightarrow> u64 list \<Rightarrow> bool" where
  "entry_holds P ver blocks K2 d ids \<longleftrightarrow>
     (\<forall>s k Z. A s = blocks @ Z \<longrightarrow> length (A s) < 2 ^ 64 \<longrightarrow>
        entry_of ver P s K2 k d = Inr (live_ids P s k ids))"

lemma entry_holds_append: "entry_holds P ver blocks K2 d ids \<Longrightarrow> entry_holds P ver (blocks @ Y) K2 d ids"
  by (simp add: entry_holds_def)

lemma entry_holdsD:
  "entry_holds P ver (A s) K2 d ids \<Longrightarrow> length (A s) < 2 ^ 64 \<Longrightarrow>
   entry_of ver P s K2 k d = Inr (live_ids P s k ids)"
  unfolding entry_holds_def by (metis append_Nil2)

definition fanout :: "int \<Rightarrow> nat" where
  "fanout ver = (if ver = Basic then 1 else if ver = Packed then B else B * B)"

lemma fanout_pos [simp]: "0 < fanout ver"
  by (simp add: fanout_def B_def)

text \<open>The keys of token \<open>w\<close> under master key \<open>mk\<close>.\<close>

definition token_K2 :: "prims \<Rightarrow> bytes \<Rightarrow> bytes \<Rightarrow> bytes" where
  "token_K2 P mk w = mac_key P mk 0x32 w"

text \<open>
  \<open>holds P ver blocks mk m w ids\<close>: walking the labels of \<open>w\<close> through the map \<open>m\<close> finds
  exactly the ids \<open>ids\<close>, then a missing label.
\<close>

definition holds ::
  "prims \<Rightarrow> int \<Rightarrow> bytes list \<Rightarrow> bytes \<Rightarrow> (bytes, bytes) omap \<Rightarrow> bytes \<Rightarrow> u64 list \<Rightarrow> bool" where
  "holds P ver blocks mk m w ids \<longleftrightarrow>
     (\<exists>cs. concat cs = ids \<and> length cs < 2 ^ 64
        \<and> (\<forall>c < length cs. \<exists>d. om_lookup m (label P mk w (of_nat c)) = Some d
              \<and> entry_holds P ver blocks (token_K2 P mk w) d (cs ! c))
        \<and> om_lookup m (label P mk w (of_nat (length cs))) = None)"

lemma holds_append: "holds P ver blocks mk m w ids \<Longrightarrow> holds P ver (blocks @ Y) mk m w ids"
  unfolding holds_def by (elim exE conjE, intro exI conjI) (use entry_holds_append in blast)+

lemma scan_holds:
  assumes h: "holds P ver (A s) mk m w ids" and len: "length (A s) < 2 ^ 64"
  shows "scan (\<lambda>c. om_lookup m (mac_long P (mac_key P mk 0x31 w) c))
           (entry_of ver P s (token_K2 P mk w) k) 0 acc
       = Some (Inr (acc @ live_ids P s k ids))"
proof -
  obtain cs where cs: "concat cs = ids"
    and found: "\<And>c. c < length cs \<Longrightarrow> \<exists>d. om_lookup m (label P mk w (of_nat c)) = Some d
        \<and> entry_of ver P s (token_K2 P mk w) k d = Inr (live_ids P s k (cs ! c))"
    and stop: "om_lookup m (label P mk w (of_nat (length cs))) = None"
    using h entry_holdsD [OF _ len] unfolding holds_def by blast
  have "scan (\<lambda>c. om_lookup m (label P mk w c)) (entry_of ver P s (token_K2 P mk w) k) 0 acc
      = Some (Inr (acc @ concat (map (\<lambda>c. live_ids P s k (cs ! c)) [0..<length cs])))"
    by (rule scan_entries) (simp_all add: found stop)
  also have "concat (map (\<lambda>c. live_ids P s k (cs ! c)) [0..<length cs])
      = concat (map (live_ids P s k) (map ((!) cs) [0..<length cs]))"
    by (simp add: comp_def)
  also have "\<dots> = live_ids P s k ids"
    by (simp only: map_nth live_ids_concat [symmetric] cs)
  finally show ?thesis by (simp add: label_def)
qed

text \<open>
  A search over a server whose two maps hold \<open>ids\<close> and \<open>plus\<close> for \<open>w\<close> returns them in
  this order, less the revoked ones; in particular it returns, and no access is undefined.
\<close>

lemma SearchServer_holds:
  assumes ver: "version s = Basic \<or> version s = Packed \<or> version s = Pointer"
    and len: "length (A s) < 2 ^ 64"
    and D: "holds P (version s) (A s) (key cl) (D s) w ids"
    and plus: "holds P Basic (A s) (kplus cl) (Dplus s) w added"
  shows "SearchServer P s (SearchClient P cl w)
       = Some (Inr (live_ids P s (mac_key P (kminus cl) 0x31 w) (ids @ added)))"
proof -
  let ?k = "mac_key P (kminus cl) 0x31 w"
  have D': "scan (\<lambda>c. om_lookup (D s) (mac_long P (mac_key P (key cl) 0x31 w) c))
      (entry_of (version s) P s (mac_key P (key cl) 0x32 w) ?k) 0 []
      = Some (Inr (live_ids P s ?k ids))"
    using scan_holds [OF D len, of ?k "[]"] by (simp add: token_K2_def)
  have plus': "scan_Dplus P s (mac_key P (kplus cl) 0x31 w) (mac_key P (kplus cl) 0x32 w) ?k acc
      = Some (Inr (acc @ live_ids P s ?k added))" for acc
    using scan_holds [OF plus len, of ?k acc] by (simp add: scan_Dplus_def token_K2_def entry_of_def)
  show ?thesis
    using ver D'
    by (auto simp: SearchServer_def SearchServerBasic_def SearchServerPacked_def
        SearchServerPointer_def SearchClient_def entry_of_def versions plus' live_ids_append)
qed

section \<open>From the pairs of a setup to the server\<close>

text \<open>
  The pairs a setup hands over for tokens whose ids are \<open>ids w\<close>: each carries the label
  of some token and chunk and holds that chunk, and no chunk is left out.
\<close>

definition pairs_hold ::
  "prims \<Rightarrow> int \<Rightarrow> bytes list \<Rightarrow> bytes \<Rightarrow> bytes set \<Rightarrow> (bytes \<Rightarrow> u64 list) \<Rightarrow> setup_pair list \<Rightarrow> bool" where
  "pairs_hold P ver blocks mk W ids L \<longleftrightarrow>
     (\<forall>p \<in> set L. \<exists>w \<in> W. \<exists>c < length (chunks (fanout ver) (ids w)).
        sp_Token p = label P mk w (of_nat c)
        \<and> entry_holds P ver blocks (token_K2 P mk w) (sp_FileID p) (chunks (fanout ver) (ids w) ! c))
     \<and> (\<forall>w \<in> W. \<forall>c < length (chunks (fanout ver) (ids w)).
        label P mk w (of_nat c) \<in> sp_Token ` set L)"

lemma setup_lookup_Some:
  assumes "om_lookup (D (SetupServer s ver L M)) l = Some d"
  shows "\<exists>p \<in> set L. sp_Token p = l \<and> sp_FileID p = d"
  using om.lookup_insert_all_in [of "[]" "map (\<lambda>p. (sp_Token p, sp_FileID p)) L" l d] assms
  by (force simp: SetupServer_eq)

lemma setup_lookup_present:
  assumes "l \<in> sp_Token ` set L"
  shows "\<exists>d. om_lookup (D (SetupServer s ver L M)) l = Some d"
proof -
  have "om_lookup (foldl (\<lambda>m p. om_insert (fst p) (snd p) m) m xs) l \<noteq> None"
    if "l \<in> fst ` set xs \<or> om_lookup m l \<noteq> None" for m :: "(bytes, bytes) omap" and xs
    using that by (induction xs arbitrary: m) (auto simp: om_lookup_insert)
  then show ?thesis using assms by (force simp: SetupServer_eq)
qed

lemma SetupServer_holds:
  assumes L: "pairs_hold P ver M mk W ids L"
    and cf: "mac_cf P mk W" and nf: "\<And>w. w \<in> W \<Longrightarrow> nul_free w"
    and len: "\<And>w. w \<in> W \<Longrightarrow> length (ids w) < 2 ^ 64"
    and w: "w \<in> W"
  shows "holds P ver M mk (D (SetupServer s ver L M)) w (ids w)"
proof -
  let ?cs = "\<lambda>w. chunks (fanout ver) (ids w)"
  let ?D = "D (SetupServer s ver L M)"
  have small: "length (?cs v) < 2 ^ 64" if "v \<in> W" for v
    using length_chunks_le [of "fanout ver" "ids v"] len [OF that] by simp
  have found: "n < length (?cs w) \<and> entry_holds P ver M (token_K2 P mk w) d (?cs w ! n)"
    if p: "om_lookup ?D (label P mk w (of_nat n)) = Some d" and n: "n \<le> length (?cs w)" for n d
  proof -
    obtain p where p': "p \<in> set L" "sp_Token p = label P mk w (of_nat n)" "sp_FileID p = d"
      using setup_lookup_Some [OF p] by blast
    then obtain v c' where v: "v \<in> W" "c' < length (?cs v)"
        "sp_Token p = label P mk v (of_nat c')"
        "entry_holds P ver M (token_K2 P mk v) d (?cs v ! c')"
      using L unfolding pairs_hold_def by metis
    then have same: "w = v \<and> (of_nat n :: u64) = of_nat c'"
      using p' by (intro label_inj [OF cf nf w v(1)]) auto
    then have "n = c'"
      using of_nat_u64_inj [of n c'] small [OF w] n v(2) by simp
    with same v show ?thesis by blast
  qed
  have "\<exists>d. om_lookup ?D (label P mk w (of_nat c)) = Some d
      \<and> entry_holds P ver M (token_K2 P mk w) d (?cs w ! c)" if c: "c < length (?cs w)" for c
  proof -
    have "label P mk w (of_nat c) \<in> sp_Token ` set L"
      using L w c unfolding pairs_hold_def by blast
    then obtain d where d: "om_lookup ?D (label P mk w (of_nat c)) = Some d"
      using setup_lookup_present by blast
    with found [OF d] c show ?thesis by simp
  qed
  moreover have "om_lookup ?D (label P mk w (of_nat (length (?cs w)))) = None"
    using found [of "length (?cs w)"] by (metis le_refl less_irrefl option.exhaust)
  ultimately show ?thesis
    unfolding holds_def using small [OF w] by (intro exI [of _ "?cs w"]) (simp add: concat_chunks)
qed

end
