(* ===== verification/Variants.thy ===== *)
theory Variants
  imports Index
begin

text \<open>
  The three Setup variants hand over pairs that hold the chunks of the ids of their
  tokens (\<open>pairs_hold\<close>), and a search on the server they are sent to finds these ids.
\<close>

section \<open>Padded blocks\<close>

definition pad_block :: "nat \<Rightarrow> u64 list \<Rightarrow> u64 list" where
  "pad_block m ids = take m ids @ replicate (m - length ids) INVALID"

lemma length_pad_block [simp]: "length (pad_block m ids) = m"
  by (simp add: pad_block_def)

lemma filter_pad_block:
  "INVALID \<notin> set ids \<Longrightarrow> filter (\<lambda>x. x \<noteq> INVALID) (pad_block m ids) = take m ids"
  by (auto simp: pad_block_def filter_id_conv dest: in_set_takeD)

lemma pad_block_slots:
  "map (\<lambda>j. if i + j < length ids then ids ! (i + j) else INVALID) [0..<m] = pad_block m (drop i ids)"
  by (rule nth_equalityI) (auto simp: pad_block_def nth_append)

lemma block_of_append [simp]: "block_of (xs @ ys) = block_of xs @ block_of ys"
  by (simp add: block_of_def)

lemma putu64_INVALID: "putu64 INVALID = replicate 8 0xff"
  by code_simp

section \<open>Collected pairs\<close>

definition setup_ids :: "bytes list \<Rightarrow> filemap \<Rightarrow> bytes \<Rightarrow> u64 list" where
  "setup_ids tokens fileids w =
     (if w \<in> set tokens then (case om_lookup fileids w of None \<Rightarrow> [] | Some fids \<Rightarrow> fids) else [])"

lemma fileids_at_setup_ids:
  "fileids_at fileids w = Inr fids \<Longrightarrow> w \<in> set tokens \<Longrightarrow> setup_ids tokens fileids w = fids"
  by (auto simp: fileids_at_def setup_ids_def split: option.splits)

lemma rmap_set:
  "rmap f xs = Inr Ls \<Longrightarrow> set (concat Ls) = {y. \<exists>x \<in> set xs. \<exists>ys. f x = Inr ys \<and> y \<in> set ys}"
proof (induction xs arbitrary: Ls)
  case (Cons x xs)
  then obtain y ys where y: "f x = Inr y" "rmap f xs = Inr ys" "Ls = y # ys"
    by (auto simp: rbind_Inr_iff)
  with Cons.IH [OF y(2)] show ?case by (auto simp del: set_concat)
qed simp

lemma rmap_all: "rmap f xs = Inr Ls \<Longrightarrow> x \<in> set xs \<Longrightarrow> \<exists>y. f x = Inr y"
  by (induction xs arbitrary: Ls) (auto simp: rbind_Inr_iff)

lemma set_hand_off:
  "set (hand_off n L) = (\<lambda>p. \<lparr>sp_Token = tp_l p, sp_FileID = take n (tp_d p)\<rparr>) ` set L"
  by (simp add: hand_off_def)

text \<open>
  A variant that makes, for each token and chunk, a pair with the right label and an entry
  that holds the chunk, makes pairs that hold the index.
\<close>

lemma pairs_holdI:
  fixes pair :: "bytes \<Rightarrow> u64 list \<Rightarrow> nat \<Rightarrow> token_pair"
  assumes Ls: "rmap f tokens = Inr Ls" and W: "set tokens \<subseteq> W"
    and f: "\<And>w. f w = rbind (fileids_at fileids w) (\<lambda>fids.
              Inr (map (pair w fids) [0..<length (chunks (fanout ver) fids)]))"
    and label: "\<And>w fids c. tp_l (pair w fids c) = label P mk w (of_nat c)"
    and entry: "\<And>w fids c. fileids_at fileids w = Inr fids \<Longrightarrow> w \<in> set tokens \<Longrightarrow>
              c < length (chunks (fanout ver) fids) \<Longrightarrow>
              entry_holds P ver M (token_K2 P mk w) (take n (tp_d (pair w fids c)))
                (chunks (fanout ver) fids ! c)"
  shows "pairs_hold P ver M mk W (setup_ids tokens fileids) (hand_off n (concat Ls))"
proof -
  let ?cs = "\<lambda>w. chunks (fanout ver) (setup_ids tokens fileids w)"
  have pairs: "set (concat Ls)
      = {pair w fids c | w fids c. w \<in> set tokens \<and> fileids_at fileids w = Inr fids
          \<and> c < length (chunks (fanout ver) fids)}"
    by (subst rmap_set [OF Ls]) (fastforce simp: f rbind_Inr_iff)
  have "\<exists>w \<in> W. \<exists>c < length (?cs w). sp_Token p = label P mk w (of_nat c)
      \<and> entry_holds P ver M (token_K2 P mk w) (sp_FileID p) (?cs w ! c)"
    if "p \<in> set (hand_off n (concat Ls))" for p
  proof -
    from that obtain w fids c where p: "p = \<lparr>sp_Token = tp_l (pair w fids c),
          sp_FileID = take n (tp_d (pair w fids c))\<rparr>"
        "w \<in> set tokens" "fileids_at fileids w = Inr fids" "c < length (chunks (fanout ver) fids)"
      unfolding set_hand_off pairs by blast
    moreover have "setup_ids tokens fileids w = fids"
      using p(2,3) by (intro fileids_at_setup_ids)
    ultimately show ?thesis using W entry [of w fids c]
      by (intro bexI [of _ w] exI [of _ c]) (auto simp: label)
  qed
  moreover have "label P mk w (of_nat c) \<in> sp_Token ` set (hand_off n (concat Ls))"
    if "c < length (?cs w)" for w c
  proof -
    have w: "w \<in> set tokens"
      using that by (auto simp: setup_ids_def split: if_splits)
    then obtain fids where fids: "fileids_at fileids w = Inr fids"
      using rmap_all [OF Ls w] by (auto simp: f rbind_Inr_iff)
    have "pair w fids c \<in> set (concat Ls)"
      unfolding pairs using w fids that fileids_at_setup_ids [OF fids w] by auto
    then show ?thesis
      unfolding set_hand_off image_image by (rule rev_image_eqI) (simp add: label)
  qed
  ultimately show ?thesis unfolding pairs_hold_def by blast
qed

section \<open>Basic\<close>

lemma entry_holds_basic: "entry_holds P Basic M K2 (encrypt_long P K2 fid @ rest) [fid]"
  by (simp add: entry_holds_def entry_of_def entry_basic_encrypt_long)

lemma pairs_hold_basic:
  assumes Ls: "rmap (basic_token P s fileids) tokens = Inr Ls" and W: "set tokens \<subseteq> W"
  shows "pairs_hold P Basic M (key s) W (setup_ids tokens fileids)
           (hand_off ENCRYPTED_FILEID_SIZE (concat Ls))"
proof (rule pairs_holdI [OF Ls W, where pair = "\<lambda>w fids c.
    basic_pair P (mac_key P (key s) 0x31 w) (mac_key P (key s) 0x32 w) fids c"])
  fix w
  show "basic_token P s fileids w = rbind (fileids_at fileids w) (\<lambda>fids. Inr (map
      (basic_pair P (mac_key P (key s) 0x31 w) (mac_key P (key s) 0x32 w) fids)
      [0..<length (chunks (fanout Basic) fids)]))"
    by (simp add: basic_token_def Let_def fanout_def length_chunks)
next
  fix w c and fids :: "u64 list"
  show "tp_l (basic_pair P (mac_key P (key s) 0x31 w) (mac_key P (key s) 0x32 w) fids c)
      = label P (key s) w (of_nat c)"
    by (simp add: basic_pair_def Let_def label_def mac_counter_putu64)
next
  fix w c and fids :: "u64 list" assume c: "c < length (chunks (fanout Basic) fids)"
  then have "chunks (fanout Basic) fids ! c = [fids ! c]"
    by (subst chunks_nth) (simp_all add: fanout_def length_chunks take_Suc hd_drop_conv_nth)
  then show "entry_holds P Basic M (token_K2 P (key s) w) (take ENCRYPTED_FILEID_SIZE
      (tp_d (basic_pair P (mac_key P (key s) 0x31 w) (mac_key P (key s) 0x32 w) fids c)))
      (chunks (fanout Basic) fids ! c)"
    using entry_holds_basic [of P M "token_K2 P (key s) w" "fids ! c" "[]"]
    by (simp add: basic_pair_def Let_def write_prefix_def token_K2_def encrypt_long_def sizes)
qed

section \<open>Packed\<close>

lemma entry_holds_packed:
  assumes "INVALID \<notin> set ids"
  shows "entry_holds P Packed M K2 (encrypt_bytes P K2 (block_of (pad_block B ids))) (take B ids)"
  using assms
  by (simp add: entry_holds_def entry_of_def versions entry_packed_block filter_pad_block)

lemma packed_slots: "concat (map (packed_slot fids c) [0..<B]) = block_of (pad_block B (drop (c * B) fids))"
proof -
  have "packed_slot fids c = (\<lambda>j. putu64 (if c * B + j < length fids then fids ! (c * B + j) else INVALID))"
    by (rule ext) (simp add: packed_slot_def putu64_INVALID)
  then have "concat (map (packed_slot fids c) [0..<B])
      = block_of (map (\<lambda>j. if c * B + j < length fids then fids ! (c * B + j) else INVALID) [0..<B])"
    by (simp add: block_of_def comp_def)
  then show ?thesis by (simp only: pad_block_slots)
qed

lemma pairs_hold_packed:
  assumes Ls: "rmap (packed_token P s fileids) tokens = Inr Ls" and W: "set tokens \<subseteq> W"
    and valid: "\<And>w. w \<in> set tokens \<Longrightarrow> INVALID \<notin> set (setup_ids tokens fileids w)"
  shows "pairs_hold P Packed M (key s) W (setup_ids tokens fileids)
           (hand_off ENCRYPTED_BLOCK_SIZE (concat Ls))"
proof (rule pairs_holdI [OF Ls W, where pair = "\<lambda>w fids c.
    packed_pair P (mac_key P (key s) 0x31 w) (mac_key P (key s) 0x32 w) fids c"])
  fix w
  show "packed_token P s fileids w = rbind (fileids_at fileids w) (\<lambda>fids. Inr (map
      (packed_pair P (mac_key P (key s) 0x31 w) (mac_key P (key s) 0x32 w) fids)
      [0..<length (chunks (fanout Packed) fids)]))"
    by (simp add: packed_token_def Let_def fanout_def length_chunks versions B_def)
next
  fix w c and fids :: "u64 list"
  show "tp_l (packed_pair P (mac_key P (key s) 0x31 w) (mac_key P (key s) 0x32 w) fids c)
      = label P (key s) w (of_nat c)"
    by (simp add: packed_pair_def Let_def label_def mac_counter_putu64)
next
  fix w fids c
  assume w: "fileids_at fileids w = Inr fids" "w \<in> set tokens"
    and c: "c < length (chunks (fanout Packed) fids)"
  have "INVALID \<notin> set (drop (c * B) fids)"
    using valid [OF w(2)] fileids_at_setup_ids [OF w] by (auto dest: in_set_dropD)
  moreover have "chunks (fanout Packed) fids ! c = take B (drop (c * B) fids)"
    using c by (subst chunks_nth) (simp_all add: fanout_def versions ac_simps)
  ultimately show "entry_holds P Packed M (token_K2 P (key s) w) (take ENCRYPTED_BLOCK_SIZE
      (tp_d (packed_pair P (mac_key P (key s) 0x31 w) (mac_key P (key s) 0x32 w) fids c)))
      (chunks (fanout Packed) fids ! c)"
    using entry_holds_packed [of "drop (c * B) fids" P M "token_K2 P (key s) w"]
    by (simp add: packed_pair_def Let_def write_prefix_def token_K2_def packed_slots
        ENCRYPTED_BLOCK_SIZE_def)
qed

end
