(* ===== verification/Pointers.thy ===== *)
theory Pointers
  imports Variants
begin

text \<open>
  The Pointer variant: a label leads to a block of \<open>B\<close> pointers into the array \<open>A\<close>, a
  pointer to a block of \<open>B\<close> file ids. The lemmas follow the three nested loops of
  \<open>SetupClientPointer\<close> inside out, and the two of \<open>SearchServerPointer\<close>.
\<close>

section \<open>Reading a pointer block\<close>

lemma of_nat_not_INVALID: "n < 2 ^ 64 - 1 \<Longrightarrow> (of_nat n :: u64) \<noteq> INVALID"
proof
  assume n: "n < 2 ^ 64 - 1" and eq: "(of_nat n :: u64) = INVALID"
  have "unat (of_nat n :: u64) = n" using n by (intro unat_of_nat_u64) simp
  moreover have "unat INVALID = 2 ^ 64 - 1" by (simp add: INVALID_def)
  ultimately show False using n eq by simp
qed

lemma walk_pointers_from:
  assumes ptrs: "ptrs = map of_nat idxs @ replicate (B - length idxs) INVALID"
    and len: "length idxs \<le> B" "length cs = length idxs" "length (A s) < 2 ^ 64"
    and idxs: "\<And>j. j < length idxs \<Longrightarrow> idxs ! j < length (A s)
        \<and> fileid_block_ids P s K2 k (A s ! (idxs ! j)) = Inr (live_ids P s k (cs ! j))"
    and j: "j \<le> length idxs"
  shows "walk_pointers P s K2 k (block_of ptrs) [j..<B] = Inr (live_ids P s k (concat (drop j cs)))"
  using j
proof (induction "length idxs - j" arbitrary: j)
  case 0
  then have j: "j = length idxs" by simp
  show ?case
  proof (cases "j < B")
    case True
    then have "getu64 (block_of ptrs) (j * 8) = Inr INVALID"
      using getu64_block_of [of j ptrs] len(1) by (simp add: ptrs j nth_append)
    with True show ?thesis
      by (simp add: upt_conv_Cons j len live_ids_def)
  qed (use j len in \<open>simp add: live_ids_def\<close>)
next
  case (Suc m)
  then have j: "j < length idxs" and jB: "j < B" using len by simp_all
  have lt: "idxs ! j < length (A s)" using idxs [OF j] by simp
  have "getu64 (block_of ptrs) (j * 8) = Inr (of_nat (idxs ! j))"
    using getu64_block_of [of j ptrs] j jB by (simp add: ptrs nth_append)
  moreover have "(of_nat (idxs ! j) :: u64) \<noteq> INVALID"
    using lt len(3) by (intro of_nat_not_INVALID) simp
  moreover have "unat (of_nat (idxs ! j) :: u64) = idxs ! j"
    using lt len(3) by (intro unat_of_nat_u64) simp
  moreover have "walk_pointers P s K2 k (block_of ptrs) [Suc j..<B]
      = Inr (live_ids P s k (concat (drop (Suc j) cs)))"
    using Suc.hyps(2) j by (intro Suc.hyps(1)) simp_all
  moreover have "concat (drop j cs) = cs ! j @ concat (drop (Suc j) cs)"
    using j len(2) by (simp add: Cons_nth_drop_Suc [symmetric])
  ultimately show ?case
    using idxs [OF j] jB by (simp add: upt_conv_Cons live_ids_append)
qed

section \<open>Writing a pointer block\<close>

lemma fileid_slots_eq:
  "i \<le> length fids \<Longrightarrow>
   fileid_slots fids m i = (block_of (pad_block m (drop i fids)), min (length fids) (i + m))"
proof (induction m arbitrary: i)
  case 0
  then show ?case by (simp add: pad_block_def block_of_def)
next
  case (Suc m)
  show ?case
  proof (cases "i < length fids")
    case True
    then have "pad_block (Suc m) (drop i fids) = fids ! i # pad_block m (drop (Suc i) fids)"
      by (subst Cons_nth_drop_Suc [symmetric]) (simp_all add: pad_block_def)
    with True Suc.IH [of "Suc i"] show ?thesis by (simp add: block_of_def)
  next
    case False
    with Suc.prems have "i = length fids" by simp
    with Suc.IH [of i] show ?thesis by (simp add: pad_block_def block_of_def)
  qed
qed

text \<open>The block of ids a pointer leads to.\<close>

definition id_block :: "prims \<Rightarrow> bytes \<Rightarrow> u64 list \<Rightarrow> bytes" where
  "id_block P K2 ids = encrypt_bytes P K2 (block_of (pad_block B ids))"

lemma pointer_slots_last:
  assumes "i < length fids" "length fids \<le> i + B"
  shows "pointer_slots P K2 fids (Suc m) i M =
    (block_of (of_nat (length M) # replicate m INVALID), length fids,
     M @ [id_block P K2 (drop i fids)])"
proof -
  have "fileid_slots fids B i = (block_of (pad_block B (drop i fids)), length fids)"
    using assms by (simp add: fileid_slots_eq)
  then show ?thesis
    by (simp add: id_block_def block_of_def)
qed

lemma pointer_slots_more:
  assumes "i + B < length fids"
  shows "pointer_slots P K2 fids (Suc m) i M =
    (let (ptrs, i', M') = pointer_slots P K2 fids m (i + B) (M @ [id_block P K2 (drop i fids)])
     in (putu64 (of_nat (length M)) @ ptrs, i', M'))"
proof -
  have "fileid_slots fids B i = (block_of (pad_block B (drop i fids)), i + B)"
    using assms by (simp add: fileid_slots_eq)
  then show ?thesis
    using assms by (simp add: id_block_def)
qed

lemma id_block_take: "id_block P K2 (take B ids) = id_block P K2 ids"
proof -
  have "B - min (length ids) B = B - length ids" by (simp add: min_def)
  then show ?thesis by (simp add: id_block_def pad_block_def)
qed

lemma upt_add_Suc: "[a..<a + Suc n] = a # [Suc a..<Suc a + n]"
  by (simp add: upt_conv_Cons del: upt_Suc)

text \<open>
  One round of the loop over \<open>j\<close> with \<open>m\<close> slots: it takes the next \<open>B * m\<close> ids, appends
  one block per \<open>B\<close> of them to \<open>M\<close> and points to these blocks in order.
\<close>

lemma pointer_slots_eq:
  assumes "i < length fids" "0 < m"
  shows "pointer_slots P K2 fids m i M =
    (let cs = chunks B (take (B * m) (drop i fids))
     in (block_of (map of_nat [length M..<length M + length cs] @ replicate (m - length cs) INVALID),
         min (length fids) (i + B * m), M @ map (id_block P K2) cs))"
  using assms
proof (induction m arbitrary: i M)
  case 0
  then show ?case by simp
next
  case (Suc m)
  note IH = Suc.IH and i = Suc.prems(1)
  show ?case
  proof (cases "length fids \<le> i + B")
    case True
    then have all: "take (B * Suc m) (drop i fids) = drop i fids" by simp
    have "chunks B (drop i fids) = [drop i fids]"
      using True i by (simp add: chunks_step)
    with all show ?thesis
      using True pointer_slots_last [OF i True, of P K2 m M] by (simp add: block_of_def)
  next
    case False
    then have more: "i + B < length fids" by simp
    let ?M' = "M @ [id_block P K2 (drop i fids)]"
    let ?cs = "chunks B (take (B * m) (drop (i + B) fids))"
    have cs: "chunks B (take (B * Suc m) (drop i fids)) = take B (drop i fids) # ?cs"
      using i by (subst chunks_step) (simp_all add: drop_take ac_simps)
    have rest: "pointer_slots P K2 fids m (i + B) ?M'
      = (block_of (map of_nat [length ?M'..<length ?M' + length ?cs]
            @ replicate (m - length ?cs) INVALID),
         min (length fids) (i + B + B * m), ?M' @ map (id_block P K2) ?cs)"
    proof (cases "m = 0")
      case True
      then show ?thesis using more by (simp add: block_of_def)
    next
      case False
      then show ?thesis using IH [of "i + B" ?M'] more by (simp add: Let_def)
    qed
    show ?thesis
      unfolding pointer_slots_more [OF more] rest Let_def cs
      by (simp add: id_block_take upt_add_Suc block_of_def ac_simps
          del: upt_Suc add_Suc_right)
  qed
qed

section \<open>A pointer entry holds its ids\<close>

lemma fileid_block_ids_id_block:
  "INVALID \<notin> set ids \<Longrightarrow>
   fileid_block_ids P s K2 k (id_block P K2 ids) = Inr (live_ids P s k (take B ids))"
  by (simp add: id_block_def fileid_block_ids_block filter_pad_block)

lemma length_chunks_square: "length ids \<le> B * B \<Longrightarrow> length (chunks B ids) \<le> B"
  by (simp add: length_chunks B_def)

lemma chunks_nth_subset:
  "0 < n \<Longrightarrow> c < length (chunks n ids) \<Longrightarrow> set (chunks n ids ! c) \<subseteq> set ids"
  by (auto simp: chunks_nth dest: in_set_takeD in_set_dropD)

lemma chunks_nth_length: "0 < n \<Longrightarrow> c < length (chunks n ids) \<Longrightarrow> length (chunks n ids ! c) \<le> n"
  by (simp add: chunks_nth)

definition pointer_block :: "nat \<Rightarrow> u64 list \<Rightarrow> bytes" where
  "pointer_block a ids =
     block_of (map of_nat [a..<a + length (chunks B ids)] @ replicate (B - length (chunks B ids)) INVALID)"

lemma entry_holds_pointer:
  assumes ids: "INVALID \<notin> set ids" "length ids \<le> B * B"
    and blocks: "a + length (chunks B ids) \<le> length blocks"
      "\<And>j. j < length (chunks B ids) \<Longrightarrow> blocks ! (a + j) = id_block P K2 (chunks B ids ! j)"
  shows "entry_holds P Pointer blocks K2 (encrypt_bytes P K2 (pointer_block a ids)) ids"
  unfolding entry_holds_def
proof (intro allI impI)
  fix s :: core and k Z assume A: "A s = blocks @ Z" and lenA: "length (A s) < 2 ^ 64"
  let ?cs = "chunks B ids"
  define ptrs where "ptrs = map of_nat [a..<a + length ?cs] @ replicate (B - length ?cs) INVALID"
  have len: "length ?cs \<le> B" using ids(2) by (rule length_chunks_square)
  have "walk_pointers P s K2 k (block_of ptrs) [0..<B] = Inr (live_ids P s k (concat (drop 0 ?cs)))"
  proof (rule walk_pointers_from [where idxs = "[a..<a + length ?cs]"])
    fix j assume j: "j < length [a..<a + length ?cs]"
    have "INVALID \<notin> set (?cs ! j)"
      using j ids(1) chunks_nth_subset [of B j ids] by auto
    moreover have "take B (?cs ! j) = ?cs ! j"
      using j chunks_nth_length [of B j ids] by simp
    ultimately show "[a..<a + length ?cs] ! j < length (A s)
        \<and> fileid_block_ids P s K2 k (A s ! ([a..<a + length ?cs] ! j)) = Inr (live_ids P s k (?cs ! j))"
      using j blocks fileid_block_ids_id_block [of "?cs ! j" P s K2 k]
      by (simp add: A nth_append)
  qed (use len lenA in \<open>simp_all add: ptrs_def\<close>)
  moreover have "length ptrs = B" using len by (simp add: ptrs_def)
  ultimately show "entry_of Pointer P s K2 k (encrypt_bytes P K2 (pointer_block a ids))
      = Inr (live_ids P s k ids)"
    using decrypt_encrypt_block [of ptrs P K2]
    by (simp add: entry_of_def versions entry_pointer_def pointer_block_def concat_chunks
        ptrs_def [symmetric] del: block_of_append)
qed

section \<open>The pairs of a token\<close>

text \<open>
  What is known of the pairs of one token whose ids are \<open>fids\<close>, made from id \<open>i\<close> and
  counter \<open>c\<close> on, when \<open>M\<close> is the array so far.
\<close>

definition token_pairs_hold ::
  "prims \<Rightarrow> bytes \<Rightarrow> bytes \<Rightarrow> u64 list \<Rightarrow> nat \<Rightarrow> bytes list \<Rightarrow> token_pair list \<Rightarrow> bool" where
  "token_pairs_hold P K1 K2 ids c M L \<longleftrightarrow>
     length L = length (chunks (B * B) ids)
     \<and> (\<forall>q < length L. tp_l (L ! q) = mac_long P K1 (of_nat (c + q))
         \<and> (\<forall>Z. length (M @ Z) < 2 ^ 64 \<longrightarrow> INVALID \<notin> set ids \<longrightarrow>
              entry_holds P Pointer (M @ Z) K2 (take ENCRYPTED_BLOCK_SIZE (tp_d (L ! q)))
                (chunks (B * B) ids ! q)))"

lemma pointer_slots_round:
  assumes "i < length fids"
  shows "pointer_slots P K2 fids B i M =
    (pointer_block (length M) (take (B * B) (drop i fids)), min (length fids) (i + B * B),
     M @ map (id_block P K2) (chunks B (take (B * B) (drop i fids))))"
  using pointer_slots_eq [OF assms B_pos] by (simp add: Let_def pointer_block_def)

lemma pointer_loop_step:
  fixes P :: prims and K2 :: bytes and M :: "bytes list" and fids :: "u64 list" and i :: nat
  assumes "i < length fids"
  defines "ids \<equiv> take (B * B) (drop i fids)"
  defines "M1 \<equiv> M @ map (id_block P K2) (chunks B ids)"
  shows "pointer_loop P K1 K2 fids c i M =
    (let (L, M') = pointer_loop P K1 K2 fids (Suc c) (min (length fids) (i + B * B)) M1
     in (zero_pair\<lparr>tp_d := write_prefix (tp_d zero_pair) (encrypt_bytes P K2 (pointer_block (length M) ids)),
                   tp_l := mac_counter P K1 (putu64 (of_nat c))\<rparr> # L, M'))"
  using assms(1) by (subst pointer_loop.simps) (simp add: pointer_slots_round ids_def M1_def)

lemma length_pointer_block: "length ids \<le> B * B \<Longrightarrow> length (pointer_block a ids) = 8 * B"
  using length_chunks_square [of ids] by (simp add: pointer_block_def)

lemma pointer_loop_done: "length fids \<le> i \<Longrightarrow> pointer_loop P K1 K2 fids c i M = ([], M)"
  by (subst pointer_loop.simps) simp

lemma pointer_loop_holds:
  assumes "pointer_loop P K1 K2 fids c i M = (L, M')" "i \<le> length fids"
  shows "(\<exists>X. M' = M @ X) \<and> token_pairs_hold P K1 K2 (drop i fids) c M' L"
  using assms
proof (induction "length fids - i" arbitrary: c i M L M' rule: less_induct)
  case less
  show ?case
  proof (cases "i < length fids")
    case False
    with less.prems show ?thesis by (simp add: pointer_loop_done token_pairs_hold_def)
  next
    case i: True
    define ids where "ids = take (B * B) (drop i fids)"
    define M1 where "M1 = M @ map (id_block P K2) (chunks B ids)"
    define p where "p = zero_pair\<lparr>tp_d := write_prefix (tp_d zero_pair)
        (encrypt_bytes P K2 (pointer_block (length M) ids)),
        tp_l := mac_counter P K1 (putu64 (of_nat c))\<rparr>"
    let ?i' = "min (length fids) (i + B * B)"
    obtain L' where L': "pointer_loop P K1 K2 fids (Suc c) ?i' M1 = (L', M')" "L = p # L'"
      using less.prems(1) pointer_loop_step [OF i, of P K1 K2 c M]
      by (auto simp: ids_def M1_def p_def split: prod.splits)
    have "length fids - ?i' < length fids - i" using i by (simp add: B_def)
    from less.hyps [OF this L'(1)] obtain X where X: "M' = M1 @ X"
      and IH: "token_pairs_hold P K1 K2 (drop ?i' fids) (Suc c) M' L'" by auto
    have dr: "drop ?i' fids = drop (B * B) (drop i fids)"
      by (simp add: min_def ac_simps)
    have cs: "chunks (B * B) (drop i fids) = ids # chunks (B * B) (drop ?i' fids)"
      unfolding dr ids_def using i by (intro chunks_step) simp_all
    have here: "entry_holds P Pointer (M' @ Z) K2 (take ENCRYPTED_BLOCK_SIZE (tp_d p)) ids"
      if Z: "length (M' @ Z) < 2 ^ 64" "INVALID \<notin> set (drop i fids)" for Z
    proof -
      have len: "length ids \<le> B * B" by (simp add: ids_def)
      have "INVALID \<notin> set ids" using Z(2) by (auto simp: ids_def dest: in_set_takeD)
      then have "entry_holds P Pointer (M' @ Z) K2
          (encrypt_bytes P K2 (pointer_block (length M) ids)) ids"
        by (rule entry_holds_pointer [OF _ len]) (auto simp: X M1_def nth_append)
      then show ?thesis
        using length_pointer_block [OF len, of "length M"]
        by (simp add: p_def write_prefix_def ENCRYPTED_BLOCK_SIZE_def)
    qed
    have sub: "set (drop ?i' fids) \<subseteq> set (drop i fids)"
      unfolding dr by (rule set_drop_subset)
    have "token_pairs_hold P K1 K2 (drop i fids) c M' L"
      unfolding token_pairs_hold_def L'(2) cs
    proof (intro conjI allI impI, goal_cases)
      case 1
      show ?case using IH by (simp add: token_pairs_hold_def)
    next
      case (2 q)
      then show ?case using IH
        by (cases q) (auto simp: token_pairs_hold_def p_def mac_counter_putu64)
    next
      case (3 q Z)
      then have "INVALID \<notin> set (drop ?i' fids)" using sub by blast
      with 3 show ?case using IH here [of Z]
        by (cases q) (auto simp: token_pairs_hold_def)
    qed
    then show ?thesis by (simp add: X M1_def)
  qed
qed

section \<open>The pairs of all tokens\<close>

definition pointer_pair_ok ::
  "prims \<Rightarrow> bytes \<Rightarrow> filemap \<Rightarrow> bytes list \<Rightarrow> bytes set \<Rightarrow> token_pair \<Rightarrow> bool" where
  "pointer_pair_ok P mk fileids M W p \<longleftrightarrow>
     (\<exists>w \<in> W. \<exists>fids q. fileids_at fileids w = Inr fids \<and> q < length (chunks (B * B) fids)
        \<and> tp_l p = label P mk w (of_nat q)
        \<and> (\<forall>Z. length (M @ Z) < 2 ^ 64 \<longrightarrow> INVALID \<notin> set fids \<longrightarrow>
              entry_holds P Pointer (M @ Z) (token_K2 P mk w)
                (take ENCRYPTED_BLOCK_SIZE (tp_d p)) (chunks (B * B) fids ! q)))"

lemma pointer_pair_ok_extend:
  assumes ok: "pointer_pair_ok P mk fileids M V p" and VW: "V \<subseteq> W"
  shows "pointer_pair_ok P mk fileids (M @ X) W p"
proof -
  obtain w fids q where w: "w \<in> V" and facts: "fileids_at fileids w = Inr fids"
    "q < length (chunks (B * B) fids)" "tp_l p = label P mk w (of_nat q)"
    and h: "\<And>Z. length (M @ Z) < 2 ^ 64 \<Longrightarrow> INVALID \<notin> set fids \<Longrightarrow>
        entry_holds P Pointer (M @ Z) (token_K2 P mk w) (take ENCRYPTED_BLOCK_SIZE (tp_d p))
          (chunks (B * B) fids ! q)"
    using ok unfolding pointer_pair_ok_def by blast
  have "w \<in> W" using w VW by blast
  then show ?thesis unfolding pointer_pair_ok_def append_assoc
    by (intro bexI [of _ w] exI [of _ fids] exI [of _ q] conjI allI impI facts h)
qed

lemma token_pairs_ok:
  assumes hold: "token_pairs_hold P (mac_key P mk 0x31 w) (token_K2 P mk w) fids 0 M L"
    and fids: "fileids_at fileids w = Inr fids" and p: "p \<in> set L"
  shows "pointer_pair_ok P mk fileids M {w} p"
proof -
  obtain q where q: "q < length L" "p = L ! q" using p by (metis in_set_conv_nth)
  then have facts: "q < length (chunks (B * B) fids)" "tp_l p = label P mk w (of_nat q)"
    "\<forall>Z. length (M @ Z) < 2 ^ 64 \<longrightarrow> INVALID \<notin> set fids \<longrightarrow>
        entry_holds P Pointer (M @ Z) (token_K2 P mk w) (take ENCRYPTED_BLOCK_SIZE (tp_d p))
          (chunks (B * B) fids ! q)"
    using hold unfolding token_pairs_hold_def label_def by auto
  show ?thesis unfolding pointer_pair_ok_def
    by (intro bexI [of _ w] exI [of _ fids] exI [of _ q] conjI fids facts) simp
qed

lemma token_pairs_labels:
  assumes hold: "token_pairs_hold P (mac_key P mk 0x31 w) K2 fids 0 M L"
    and q: "q < length (chunks (B * B) fids)"
  shows "label P mk w (of_nat q) \<in> tp_l ` set L"
proof -
  have "q < length L" "tp_l (L ! q) = label P mk w (of_nat q)"
    using hold q unfolding token_pairs_hold_def label_def by auto
  then show ?thesis by (metis imageI nth_mem)
qed

lemma pointer_tokens_hold:
  assumes "pointer_tokens P s fileids ws M = Inr (L, M')"
  shows "(\<exists>X. M' = M @ X) \<and> (\<forall>p \<in> set L. pointer_pair_ok P (key s) fileids M' (set ws) p)
    \<and> (\<forall>w \<in> set ws. \<exists>fids. fileids_at fileids w = Inr fids
          \<and> (\<forall>q < length (chunks (B * B) fids). label P (key s) w (of_nat q) \<in> tp_l ` set L))"
  using assms
proof (induction ws arbitrary: M L M')
  case Nil
  then show ?case by simp
next
  case (Cons w ws)
  obtain fids where fids: "fileids_at fileids w = Inr fids"
    using Cons.prems by (auto simp: Let_def rbind_Inr_iff)
  obtain L1 M1 where
    L1: "pointer_loop P (mac_key P (key s) 0x31 w) (token_K2 P (key s) w) fids 0 0 M = (L1, M1)"
    by fastforce
  obtain L2 where L2: "pointer_tokens P s fileids ws M1 = Inr (L2, M')" and L: "L = L1 @ L2"
    using Cons.prems L1 fids by (auto simp: Let_def rbind_Inr_iff token_K2_def)
  obtain X where X: "M1 = M @ X" and
    hold: "token_pairs_hold P (mac_key P (key s) 0x31 w) (token_K2 P (key s) w) fids 0 M1 L1"
    using pointer_loop_holds [OF L1] by auto
  obtain Y where Y: "M' = M1 @ Y"
    and ok2: "\<forall>p \<in> set L2. pointer_pair_ok P (key s) fileids M' (set ws) p"
    and all2: "\<forall>w \<in> set ws. \<exists>fids. fileids_at fileids w = Inr fids
          \<and> (\<forall>q < length (chunks (B * B) fids). label P (key s) w (of_nat q) \<in> tp_l ` set L2)"
    using Cons.IH [OF L2] by blast
  have "pointer_pair_ok P (key s) fileids M' (set (w # ws)) p" if "p \<in> set L" for p
  proof (cases "p \<in> set L1")
    case True
    show ?thesis
      unfolding Y by (rule pointer_pair_ok_extend [OF token_pairs_ok [OF hold fids True]]) simp
  next
    case False
    with that ok2 have "pointer_pair_ok P (key s) fileids M' (set ws) p" by (simp add: L)
    then have "pointer_pair_ok P (key s) fileids (M' @ []) (set (w # ws)) p"
      by (rule pointer_pair_ok_extend) auto
    then show ?thesis by simp
  qed
  moreover have "\<exists>fids. fileids_at fileids v = Inr fids
      \<and> (\<forall>q < length (chunks (B * B) fids). label P (key s) v (of_nat q) \<in> tp_l ` set L)"
    if "v \<in> set (w # ws)" for v
  proof (cases "v = w")
    case True
    with fids token_pairs_labels [OF hold] show ?thesis by (auto simp: L image_Un)
  next
    case False
    with that all2 show ?thesis by (fastforce simp: L image_Un)
  qed
  ultimately show ?case by (auto simp: X Y)
qed

lemma pairs_hold_pointer:
  assumes Ls: "pointer_tokens P s fileids tokens [] = Inr (L, M)" and W: "set tokens \<subseteq> W"
    and valid: "\<And>w. w \<in> set tokens \<Longrightarrow> INVALID \<notin> set (setup_ids tokens fileids w)"
    and M: "length M < 2 ^ 64"
  shows "pairs_hold P Pointer M (key s) W (setup_ids tokens fileids)
           (hand_off ENCRYPTED_BLOCK_SIZE L)"
proof -
  have fan: "fanout Pointer = B * B" by (simp add: fanout_def versions)
  note tokens = pointer_tokens_hold [OF Ls]
  have "\<exists>w \<in> W. \<exists>q < length (chunks (B * B) (setup_ids tokens fileids w)).
      tp_l p = label P (key s) w (of_nat q)
      \<and> entry_holds P Pointer M (token_K2 P (key s) w) (take ENCRYPTED_BLOCK_SIZE (tp_d p))
          (chunks (B * B) (setup_ids tokens fileids w) ! q)" if "p \<in> set L" for p
  proof -
    have "pointer_pair_ok P (key s) fileids M (set tokens) p" using tokens that by blast
    then obtain w fids q where w: "w \<in> set tokens" "fileids_at fileids w = Inr fids"
      and q: "q < length (chunks (B * B) fids)" "tp_l p = label P (key s) w (of_nat q)"
      and h: "\<forall>Z. length (M @ Z) < 2 ^ 64 \<longrightarrow> INVALID \<notin> set fids \<longrightarrow>
              entry_holds P Pointer (M @ Z) (token_K2 P (key s) w)
                (take ENCRYPTED_BLOCK_SIZE (tp_d p)) (chunks (B * B) fids ! q)"
      unfolding pointer_pair_ok_def by blast
    have ids: "setup_ids tokens fileids w = fids" by (rule fileids_at_setup_ids [OF w(2,1)])
    then have "entry_holds P Pointer M (token_K2 P (key s) w)
        (take ENCRYPTED_BLOCK_SIZE (tp_d p)) (chunks (B * B) fids ! q)"
      using spec [OF h, of "[]"] M valid [OF w(1)] by simp
    with w q ids W show ?thesis by blast
  qed
  moreover have "label P (key s) w (of_nat q) \<in> tp_l ` set L"
    if "q < length (chunks (B * B) (setup_ids tokens fileids w))" for w q
  proof -
    have "w \<in> set tokens" using that by (auto simp: setup_ids_def split: if_splits)
    with tokens obtain fids where "fileids_at fileids w = Inr fids"
      "\<forall>q < length (chunks (B * B) fids). label P (key s) w (of_nat q) \<in> tp_l ` set L" by blast
    with that fileids_at_setup_ids [OF _ \<open>w \<in> set tokens\<close>] show ?thesis by metis
  qed
  ultimately show ?thesis
    unfolding pairs_hold_def fan set_hand_off by (auto simp: image_image)
qed

end
