(* ===== verification/Update.thy ===== *)
theory Update
  imports Index
begin

text \<open>
  The Add and Delete operations of \<open>DSSE::Core\<close>: the client halves (\<open>AddClient\<close>,
  \<open>AddClient2\<close>, \<open>DeleteClient\<close>) and the server halves (\<open>AddServer\<close>, \<open>DeleteServer\<close>).
\<close>

section \<open>Add, client side\<close>

record add_pair =
  ap_Token :: bytes
  ap_FileID :: bytes
  ap_RevID :: bytes

text \<open>
  \<open>this->Dcount[w]\<close>: the count of \<open>w\<close>, inserted as 0 when it is not there.
\<close>

definition dcount :: "core \<Rightarrow> bytes \<Rightarrow> u64" where
  "dcount s w = (case om_lookup (Dcount s) w of None \<Rightarrow> 0 | Some c \<Rightarrow> c)"

definition touch_Dcount :: "bytes \<Rightarrow> core \<Rightarrow> core" where
  "touch_Dcount w s =
     (if om_count (Dcount s) w then s else s\<lparr>Dcount := om_insert w 0 (Dcount s)\<rparr>)"

text \<open>
  One round of the loop over \<open>words\<close>. The struct \<open>p\<close> is not initialised here: of its
  array \<open>d\<close> the code writes the first 24 bytes, the rest is \<open>junk\<close>, what the stack held.
\<close>

definition add_token_pair :: "prims \<Rightarrow> core \<Rightarrow> u64 \<Rightarrow> bytes \<Rightarrow> bytes \<Rightarrow> token_pair" where
  "add_token_pair P s fid junk w =
     (let K1plus = mac_key P (kplus s) 0x31 w; K2plus = mac_key P (kplus s) 0x32 w;
          K1minus = mac_key P (kminus s) 0x31 w; c = dcount s w
      in \<lparr>tp_w = w, tp_l = mac_long P K1plus c,
          tp_d = write_prefix junk (encrypt_long P K2plus fid),
          tp_r = mac_long P K1minus fid\<rparr>)"

fun add_loop :: "prims \<Rightarrow> core \<Rightarrow> u64 \<Rightarrow> (nat \<Rightarrow> bytes) \<Rightarrow> nat \<Rightarrow> bytes list \<Rightarrow> core \<times> token_pair list" where
  "add_loop P s fid junk i [] = (s, [])"
| "add_loop P s fid junk i (w # ws) =
     (let p = add_token_pair P s fid (junk i) w;
          (s', L) = add_loop P (touch_Dcount w s) fid junk (Suc i) ws
      in (s', p # L))"

definition AddClient ::
  "prims \<Rightarrow> core \<Rightarrow> u64 \<Rightarrow> (nat \<Rightarrow> bytes) \<Rightarrow> bytes list \<Rightarrow> core \<times> add_pair list \<times> bytes list" where
  "AddClient P s fid junk words =
     (let (s, L) = add_loop P s fid junk 0 words;
          L = std_sort compare_token_pair L
      in (s, map (\<lambda>p. \<lparr>ap_Token = tp_l p, ap_FileID = tp_d p, ap_RevID = tp_r p\<rparr>) L, map tp_w L))"

section \<open>Add, server side\<close>

text \<open>
  One round of the loop over \<open>L\<close>: a revoked pair is un-revoked and answered 1; a new
  token is stored and answered 0; a token that is already there gets a warning and no
  answer at all.
\<close>

definition add_server_step :: "core \<times> byte list \<Rightarrow> add_pair \<Rightarrow> core \<times> byte list" where
  "add_server_step = (\<lambda>(s, r) p.
     if os_count (Srev s) (ap_RevID p)
     then (s\<lparr>Srev := os_erase (ap_RevID p) (Srev s)\<rparr>, r @ [1])
     else if om_count (Dplus s) (ap_Token p) then (s, r)
     else (s\<lparr>Dplus := om_insert (ap_Token p) (ap_FileID p) (Dplus s)\<rparr>, r @ [0]))"

definition AddServer :: "core \<Rightarrow> add_pair list \<Rightarrow> core \<times> byte list" where
  "AddServer s L = foldl add_server_step (s, []) L"

section \<open>Add, second half of the client\<close>

text \<open>\<open>for (i < r.size()) if (r[i] == 0) Dcount[W.at(i)]++\<close>\<close>

definition bump_Dcount :: "bytes \<Rightarrow> core \<Rightarrow> core" where
  "bump_Dcount w s = s\<lparr>Dcount := om_insert w (dcount s w + 1) (Dcount s)\<rparr>"

fun add_client2_loop :: "core \<Rightarrow> byte list \<Rightarrow> bytes list \<Rightarrow> nat \<Rightarrow> err + core" where
  "add_client2_loop s [] W i = Inr s"
| "add_client2_loop s (b # r) W i =
     (if b = 0 then
        (if i < length W then add_client2_loop (bump_Dcount (W ! i) s) r W (Suc i)
         else Inl OutOfRange)
      else add_client2_loop s r W (Suc i))"

definition AddClient2 :: "core \<Rightarrow> byte list \<Rightarrow> bytes list \<Rightarrow> err + core" where
  "AddClient2 s r W = add_client2_loop s r W 0"

section \<open>Delete\<close>

definition DeleteClient :: "prims \<Rightarrow> core \<Rightarrow> u64 \<Rightarrow> bytes list \<Rightarrow> bytes list" where
  "DeleteClient P s fid words =
     std_sort (<) (map (\<lambda>w. mac_long P (mac_key P (kminus s) 0x31 w) fid) words)"

definition DeleteServer :: "core \<Rightarrow> bytes list \<Rightarrow> core" where
  "DeleteServer s L = foldl (\<lambda>s revid. s\<lparr>Srev := os_insert revid (Srev s)\<rparr>) s L"

section \<open>Functional behaviour\<close>

lemma dcount_touch [simp]: "dcount (touch_Dcount w s) v = dcount s v"
  by (auto simp: dcount_def touch_Dcount_def om_count_def om_lookup_insert split: option.splits)

lemma touch_Dcount_keys [simp]:
  "key (touch_Dcount w s) = key s" "kplus (touch_Dcount w s) = kplus s"
  "kminus (touch_Dcount w s) = kminus s" "version (touch_Dcount w s) = version s"
  by (simp_all add: touch_Dcount_def)

lemma dcount_bump: "dcount (bump_Dcount w s) v = (if v = w then dcount s w + 1 else dcount s v)"
  by (simp add: dcount_def bump_Dcount_def om_lookup_insert)

lemma bump_Dcount_keys [simp]:
  "key (bump_Dcount w s) = key s" "kplus (bump_Dcount w s) = kplus s"
  "kminus (bump_Dcount w s) = kminus s" "version (bump_Dcount w s) = version s"
  by (simp_all add: bump_Dcount_def)

text \<open>The client's keys and version, which only Setup changes.\<close>

definition same_keys :: "core \<Rightarrow> core \<Rightarrow> bool" where
  "same_keys s t \<longleftrightarrow> key s = key t \<and> kplus s = kplus t \<and> kminus s = kminus t \<and> version s = version t"

lemma same_keys_refl [simp]: "same_keys s s"
  by (simp add: same_keys_def)

lemma add_token_pair_touch [simp]:
  "add_token_pair P (touch_Dcount v s) fid junk w = add_token_pair P s fid junk w"
  by (simp add: add_token_pair_def)

lemma add_loop_keys: "same_keys (fst (add_loop P s fid junk i ws)) s"
  by (induction ws arbitrary: s i) (auto simp: same_keys_def case_prod_beta)

lemma add_loop_dcount: "dcount (fst (add_loop P s fid junk i ws)) v = dcount s v"
  by (induction ws arbitrary: s i) (auto simp: case_prod_beta)

lemma tp_w_add_token_pair [simp]: "tp_w (add_token_pair P s fid junk w) = w"
  by (simp add: add_token_pair_def Let_def)

lemma add_loop_pairs:
  "snd (add_loop P s fid junk i ws)
     = map (\<lambda>(j, w). add_token_pair P s fid (junk j) w) (zip [i..<i + length ws] ws)"
proof (induction ws arbitrary: s i)
  case (Cons w ws)
  have "[i..<i + length (w # ws)] = i # [Suc i..<Suc i + length ws]"
    by (simp add: upt_conv_Cons del: upt_Suc)
  then show ?case
    using Cons.IH [of "touch_Dcount w s" "Suc i"]
    by (simp add: case_prod_beta del: upt_Suc add_Suc_right)
qed simp

text \<open>
  Whatever the order of the pairs, each sent pair belongs to the word in the same place of
  \<open>W_in_order_of_Lrev\<close>, and these words are the given ones.
\<close>

definition add_pair_for :: "prims \<Rightarrow> core \<Rightarrow> u64 \<Rightarrow> bytes \<Rightarrow> add_pair \<Rightarrow> bool" where
  "add_pair_for P s fid w p \<longleftrightarrow>
     ap_Token p = label P (kplus s) w (dcount s w)
     \<and> ap_RevID p = label P (kminus s) w fid
     \<and> (\<exists>rest. ap_FileID p = encrypt_long P (token_K2 P (kplus s) w) fid @ rest)"

lemma AddClient_pairs:
  assumes "AddClient P s fid junk words = (s', L, W)"
  shows "list_all2 (add_pair_for P s fid) W L" and "mset W = mset words"
    and "same_keys s' s" and "\<And>v. dcount s' v = dcount s v"
proof -
  obtain t K where K: "add_loop P s fid junk 0 words = (t, K)" by fastforce
  then have s': "s' = t" and L: "L = map (\<lambda>p. \<lparr>ap_Token = tp_l p, ap_FileID = tp_d p, ap_RevID = tp_r p\<rparr>)
      (std_sort compare_token_pair K)" and W: "W = map tp_w (std_sort compare_token_pair K)"
    using assms by (auto simp: AddClient_def Let_def)
  have K': "K = map (\<lambda>(j, w). add_token_pair P s fid (junk j) w) (zip [0..<length words] words)"
    using add_loop_pairs [of P s fid junk 0 words] by (simp add: K)
  have each: "add_pair_for P s fid (tp_w p) \<lparr>ap_Token = tp_l p, ap_FileID = tp_d p, ap_RevID = tp_r p\<rparr>"
    if "p \<in> set K" for p
    using that
    by (auto simp: K' add_pair_for_def add_token_pair_def Let_def label_def token_K2_def write_prefix_def)
  then show "list_all2 (add_pair_for P s fid) W L"
    unfolding W L list_all2_map1 list_all2_map2 by (intro list_all2_refl [THEN list_all2_mono]
        list.rel_refl_strong) auto
  have "map tp_w K = map snd (zip [0..<length words] words)"
    by (simp add: K' comp_def case_prod_beta)
  then show "mset W = mset words"
    unfolding W by (metis mset_map mset_std_sort map_snd_zip length_upt diff_zero)
  show "same_keys s' s" using add_loop_keys [of P s fid junk 0 words] by (simp add: K s')
  show "dcount s' v = dcount s v" for v
    using add_loop_dcount [of P s fid junk 0 words v] by (simp add: K s')
qed

lemma DeleteServer_eq: "DeleteServer s L = s\<lparr>Srev := foldl (\<lambda>s x. os_insert x s) (Srev s) L\<rparr>"
  unfolding DeleteServer_def by (induction L arbitrary: s) simp_all

lemma set_DeleteClient:
  "set (DeleteClient P s fid words) = {label P (kminus s) w fid | w. w \<in> set words}"
  by (auto simp: DeleteClient_def label_def)

section \<open>The server keeps its containers ordered\<close>

lemma core_inv_add_server_step:
  "core_inv s \<Longrightarrow> core_inv (fst (add_server_step (s, r) p))"
  by (auto simp: core_inv_def add_server_step_def os_inv_erase om_inv_insert)

lemma core_inv_AddServer: "core_inv s \<Longrightarrow> core_inv (fst (AddServer s L))"
proof -
  have "core_inv (fst sr) \<Longrightarrow> core_inv (fst (foldl add_server_step sr L))" for sr
  proof (induction L arbitrary: sr)
    case (Cons p L)
    then show ?case using core_inv_add_server_step [of "fst sr" "snd sr" p] by simp
  qed simp
  then show "core_inv s \<Longrightarrow> core_inv (fst (AddServer s L))" by (simp add: AddServer_def)
qed

lemma core_inv_DeleteServer: "core_inv s \<Longrightarrow> core_inv (DeleteServer s L)"
  by (simp add: DeleteServer_eq core_inv_def os.inv_ins_all)

text \<open>The answers: one for each pair, except the pairs whose token was there already.\<close>

lemma AddServer_length: "length (snd (AddServer s L)) \<le> length L"
proof -
  have "length (snd (foldl add_server_step sr L)) \<le> length (snd sr) + length L" for sr
  proof (induction L arbitrary: sr)
    case (Cons p L)
    have "length (snd (add_server_step sr p)) \<le> Suc (length (snd sr))"
      by (auto simp: add_server_step_def split: prod.splits)
    with Cons.IH [of "add_server_step sr p"] show ?case by simp
  qed simp
  from this [of "(s, [])"] show ?thesis by (simp add: AddServer_def)
qed

text \<open>\<open>AddClient2\<close> never reads outside \<open>W\<close> when it gets no more answers than words.\<close>

lemma AddClient2_total: "length r \<le> length W \<Longrightarrow> \<exists>s'. AddClient2 s r W = Inr s'"
proof -
  have "i + length r \<le> length W \<Longrightarrow> \<exists>s'. add_client2_loop s r W i = Inr s'" for i
    by (induction r arbitrary: s i) auto
  then show "length r \<le> length W \<Longrightarrow> \<exists>s'. AddClient2 s r W = Inr s'"
    by (simp add: AddClient2_def)
qed

end
