(* ===== verification/Scheme.thy ===== *)
theory Scheme
  imports Pointers Update
begin

text \<open>
  What the scheme promises. An \<open>index\<close> is the plain view of the encrypted state: for each
  token the ids it was set up with, the ids added since, and the revoked (token, id)
  pairs. \<open>represents\<close> ties a client and a server to an index; every operation of the
  program keeps the tie, and a search returns what the index says.
\<close>

section \<open>The plain index\<close>

record index =
  ix_setup :: "bytes \<Rightarrow> u64 list"
  ix_added :: "bytes \<Rightarrow> u64 list"
  ix_revoked :: "(bytes \<times> u64) set"

definition index_search :: "index \<Rightarrow> bytes \<Rightarrow> u64 list" where
  "index_search ix w = filter (\<lambda>i. (w, i) \<notin> ix_revoked ix) (ix_setup ix w @ ix_added ix w)"

definition index_add :: "u64 \<Rightarrow> bytes set \<Rightarrow> index \<Rightarrow> index" where
  "index_add fid ws ix = ix\<lparr>
     ix_added := (\<lambda>w. if w \<in> ws \<and> (w, fid) \<notin> ix_revoked ix then ix_added ix w @ [fid]
                      else ix_added ix w),
     ix_revoked := ix_revoked ix - {(w, fid) | w. w \<in> ws}\<rparr>"

definition index_delete :: "u64 \<Rightarrow> bytes set \<Rightarrow> index \<Rightarrow> index" where
  "index_delete fid ws ix = ix\<lparr>ix_revoked := ix_revoked ix \<union> {(w, fid) | w. w \<in> ws}\<rparr>"

lemma index_add_insert:
  "w \<notin> ws \<Longrightarrow> index_add fid ws (index_add fid {w} ix) = index_add fid (insert w ws) ix"
  by (cases ix) (auto simp: index_add_def fun_eq_iff)

lemma index_add_empty [simp]: "index_add fid {} ix = ix"
  by (cases ix) (simp add: index_add_def)

section \<open>The tie between the two halves and the index\<close>

definition updates_hold ::
  "prims \<Rightarrow> bytes set \<Rightarrow> bytes \<Rightarrow> bytes \<Rightarrow> (bytes \<Rightarrow> u64) \<Rightarrow> core \<Rightarrow> index \<Rightarrow> bool" where
  "updates_hold P W kp km cnt sv ix \<longleftrightarrow>
     os_inv (Srev sv)
     \<and> (\<forall>w \<in> W. \<forall>i. label P km w i \<in> set (Srev sv) \<longleftrightarrow> (w, i) \<in> ix_revoked ix)
     \<and> (\<forall>w \<in> W. length (ix_added ix w) < 2 ^ 64 \<and> cnt w = of_nat (length (ix_added ix w))
          \<and> (\<forall>c < length (ix_added ix w). \<exists>rest. om_lookup (Dplus sv) (label P kp w (of_nat c))
                = Some (encrypt_long P (token_K2 P kp w) (ix_added ix w ! c) @ rest))
          \<and> (\<forall>c. length (ix_added ix w) \<le> c \<longrightarrow> c < 2 ^ 64 \<longrightarrow>
                om_lookup (Dplus sv) (label P kp w (of_nat c)) = None))"

definition represents :: "prims \<Rightarrow> bytes set \<Rightarrow> core \<Rightarrow> core \<Rightarrow> index \<Rightarrow> bool" where
  "represents P W cl sv ix \<longleftrightarrow>
     version sv \<in> {Basic, Packed, Pointer} \<and> version cl = version sv \<and> length (A sv) < 2 ^ 64
     \<and> (\<forall>w \<in> W. holds P (version sv) (A sv) (key cl) (D sv) w (ix_setup ix w))
     \<and> updates_hold P W (kplus cl) (kminus cl) (dcount cl) sv ix"

text \<open>
  The assumption on HMAC for one client: no collision among the calls made with its three
  master keys for the tokens \<open>W\<close>, none of which has a NUL inside.
\<close>

definition keys_cf :: "prims \<Rightarrow> bytes set \<Rightarrow> core \<Rightarrow> bool" where
  "keys_cf P W cl \<longleftrightarrow> (\<forall>w \<in> W. nul_free w)
     \<and> mac_cf P (key cl) W \<and> mac_cf P (kplus cl) W \<and> mac_cf P (kminus cl) W"

text \<open>Entries with one id each, under consecutive labels, and then a missing label.\<close>

lemma holds_entries:
  assumes len: "length ids < 2 ^ 64"
    and found: "\<And>c. c < length ids \<Longrightarrow> \<exists>rest. om_lookup m (label P mk w (of_nat c))
        = Some (encrypt_long P (token_K2 P mk w) (ids ! c) @ rest)"
    and stop: "om_lookup m (label P mk w (of_nat (length ids))) = None"
  shows "holds P Basic blocks mk m w ids"
proof -
  have "\<exists>d. om_lookup m (label P mk w (of_nat c)) = Some d
      \<and> entry_holds P Basic blocks (token_K2 P mk w) d (map (\<lambda>i. [i]) ids ! c)"
    if c: "c < length ids" for c
    using found [OF c] c by (auto simp: entry_holds_basic)
  moreover have "concat (map (\<lambda>i. [i]) ids) = ids" by (induction ids) auto
  ultimately show ?thesis
    using len stop unfolding holds_def by (intro exI [of _ "map (\<lambda>i. [i]) ids"]) simp
qed

lemma updates_hold_holds:
  assumes u: "updates_hold P W kp km cnt sv ix" and w: "w \<in> W"
  shows "holds P Basic (A sv) kp (Dplus sv) w (ix_added ix w)"
  using u w unfolding updates_hold_def by (intro holds_entries) blast+

section \<open>Search\<close>

lemma represents_search:
  assumes r: "represents P W cl sv ix" and w: "w \<in> W"
  shows "SearchServer P sv (SearchClient P cl w) = Some (Inr (index_search ix w))"
proof -
  have u: "updates_hold P W (kplus cl) (kminus cl) (dcount cl) sv ix"
    and h: "holds P (version sv) (A sv) (key cl) (D sv) w (ix_setup ix w)"
    and len: "length (A sv) < 2 ^ 64"
    using r w unfolding represents_def by auto
  have rev: "mac_long P (mac_key P (kminus cl) 0x31 w) i \<in> set (Srev sv) \<longleftrightarrow> (w, i) \<in> ix_revoked ix" for i
    using u w unfolding updates_hold_def label_def by blast
  have "version sv = Basic \<or> version sv = Packed \<or> version sv = Pointer"
    using r by (auto simp: represents_def)
  from SearchServer_holds [OF this len h updates_hold_holds [OF u w]]
  show ?thesis by (simp add: live_ids_def index_search_def rev)
qed

section \<open>Setup\<close>

definition setup_index :: "prims \<Rightarrow> core \<Rightarrow> core \<Rightarrow> bytes list \<Rightarrow> filemap \<Rightarrow> index" where
  "setup_index P cl sv tokens fileids =
     \<lparr>ix_setup = setup_ids tokens fileids, ix_added = (\<lambda>w. []),
      ix_revoked = {(w, i). label P (kminus cl) w i \<in> set (Srev sv)}\<rparr>"

lemma updates_hold_setup:
  assumes "\<And>w. w \<in> W \<Longrightarrow> dcount cl w = 0" "os_inv (Srev sv)"
  shows "updates_hold P W kp (kminus cl) (dcount cl) (SetupServer sv ver L M)
           (setup_index P cl sv tokens fileids)"
  using assms by (simp add: updates_hold_def SetupServer_eq setup_index_def)

lemma draw_keys_only_keys:
  "draw_keys devs s = Some (Inr t) \<Longrightarrow> \<exists>k kp km. t = s\<lparr>key := k, kplus := kp, kminus := km\<rparr>"
  by (auto simp: draw_keys_def obind_Inr_iff)

text \<open>Every variant of the client hands over pairs that hold the index.\<close>

lemma SetupClient_pairs_hold:
  assumes run: "SetupClient P devs cl ver tokens fileids = Some (Inr (cl', L, M))"
    and W: "set tokens \<subseteq> W"
    and valid: "ver = Basic \<or> (\<forall>w \<in> set tokens. INVALID \<notin> set (setup_ids tokens fileids w))"
    and M: "length M < 2 ^ 64"
  shows "pairs_hold P ver M (key cl') W (setup_ids tokens fileids) L
    \<and> ver \<in> {Basic, Packed, Pointer} \<and> version cl' = ver \<and> Dcount cl' = Dcount cl"
proof -
  obtain s where s: "cl' = s\<lparr>version := ver\<rparr>" and
    body: "(if ver = Basic then
          obind (SetupClientBasic P devs cl tokens fileids) (\<lambda>(s, L). Some (Inr (s, L, [])))
        else if ver = Packed then
          obind (SetupClientPacked P devs cl tokens fileids) (\<lambda>(s, L). Some (Inr (s, L, [])))
        else if ver = Pointer then SetupClientPointer P devs cl tokens fileids
        else Some (Inl (Exit 1))) = Some (Inr (s, L, M))"
    using run by (auto simp: SetupClient_def obind_Inr_iff split: prod.splits)
  consider (basic) "ver = Basic" | (packed) "ver = Packed" "ver \<noteq> Basic"
    | (pointer) "ver = Pointer" "ver \<noteq> Basic" "ver \<noteq> Packed"
    using body by (auto split: if_splits)
  then have "pairs_hold P ver M (key s) W (setup_ids tokens fileids) L
      \<and> Dcount s = Dcount cl"
  proof cases
    case basic
    then obtain Ls where "draw_keys devs cl = Some (Inr s)"
      and "rmap (basic_token P s fileids) tokens = Inr Ls"
      and "L = hand_off ENCRYPTED_FILEID_SIZE (concat Ls)"
      using body by (auto simp: SetupClientBasic_def obind_Inr_iff rbind_Inr_iff)
    with basic pairs_hold_basic [OF _ W] show ?thesis
      by (auto dest!: draw_keys_only_keys)
  next
    case packed
    then obtain Ls where "draw_keys devs cl = Some (Inr s)"
      and "rmap (packed_token P s fileids) tokens = Inr Ls"
      and "L = hand_off ENCRYPTED_BLOCK_SIZE (concat Ls)"
      using body by (auto simp: SetupClientPacked_def obind_Inr_iff rbind_Inr_iff)
    with packed valid pairs_hold_packed [OF _ W] show ?thesis
      by (auto dest!: draw_keys_only_keys)
  next
    case pointer
    then obtain K where "draw_keys devs cl = Some (Inr s)"
      and "pointer_tokens P s fileids tokens [] = Inr (K, M)"
      and "L = hand_off ENCRYPTED_BLOCK_SIZE K"
      using body by (auto simp: SetupClientPointer_def obind_Inr_iff rbind_Inr_iff)
    with pointer valid pairs_hold_pointer [OF _ W _ M] show ?thesis
      by (auto dest!: draw_keys_only_keys)
  qed
  then show ?thesis using body by (auto simp: s split: if_splits)
qed

lemma represents_setup:
  assumes run: "SetupClient P devs cl ver tokens fileids = Some (Inr (cl', L, M))"
    and W: "set tokens \<subseteq> W" and cf: "keys_cf P W cl'"
    and valid: "ver = Basic \<or> (\<forall>w \<in> set tokens. INVALID \<notin> set (setup_ids tokens fileids w))"
    and len: "length M < 2 ^ 64" "\<And>w. w \<in> set tokens \<Longrightarrow> length (setup_ids tokens fileids w) < 2 ^ 64"
    and fresh: "\<And>w. w \<in> W \<Longrightarrow> dcount cl w = 0" and sv: "os_inv (Srev sv)"
  shows "represents P W cl' (SetupServer sv ver L M) (setup_index P cl' sv tokens fileids)"
proof -
  note pairs = SetupClient_pairs_hold [OF run W valid len(1)]
  have len': "length (setup_ids tokens fileids w) < 2 ^ 64" for w
    using len(2) [of w] by (cases "w \<in> set tokens") (simp_all add: setup_ids_def)
  have "holds P ver M (key cl') (D (SetupServer sv ver L M)) w (setup_ids tokens fileids w)"
    if "w \<in> W" for w
    using pairs cf len' that unfolding keys_cf_def
    by (intro SetupServer_holds [where W = W]) auto
  moreover have "dcount cl' w = 0" if "w \<in> W" for w
    using fresh [OF that] pairs by (simp add: dcount_def)
  then have "updates_hold P W (kplus cl') (kminus cl') (dcount cl') (SetupServer sv ver L M)
      (setup_index P cl' sv tokens fileids)"
    by (rule updates_hold_setup [OF _ sv])
  ultimately show ?thesis
    using pairs len(1) by (auto simp: represents_def SetupServer_eq setup_index_def)
qed

end
