(* ===== verification/Refine.thy ===== *)
theory Refine
  imports Scheme
begin

text \<open>
  Add and Delete keep the tie between the encrypted state and the plain index. The server
  loop of Add is followed pair by pair: each pair either un-revokes or is appended under
  the next counter, and its answer says which; the client counts the appended ones.
\<close>

section \<open>One pair at the server\<close>

text \<open>What the answer to a pair tells: was it revoked?\<close>

definition answer :: "index \<Rightarrow> u64 \<Rightarrow> bytes \<Rightarrow> byte" where
  "answer ix fid w = (if (w, fid) \<in> ix_revoked ix then 1 else 0)"

definition count_add :: "index \<Rightarrow> u64 \<Rightarrow> bytes set \<Rightarrow> (bytes \<Rightarrow> u64) \<Rightarrow> bytes \<Rightarrow> u64" where
  "count_add ix fid ws cnt = (\<lambda>v. if v \<in> ws \<and> (v, fid) \<notin> ix_revoked ix then cnt v + 1 else cnt v)"

definition pair_for ::
  "prims \<Rightarrow> bytes \<Rightarrow> bytes \<Rightarrow> (bytes \<Rightarrow> u64) \<Rightarrow> u64 \<Rightarrow> bytes \<Rightarrow> add_pair \<Rightarrow> bool" where
  "pair_for P kp km cnt fid w p \<longleftrightarrow>
     ap_Token p = label P kp w (cnt w) \<and> ap_RevID p = label P km w fid
     \<and> (\<exists>rest. ap_FileID p = encrypt_long P (token_K2 P kp w) fid @ rest)"

lemma add_pair_for_eq: "add_pair_for P s fid w p \<longleftrightarrow> pair_for P (kplus s) (kminus s) (dcount s) fid w p"
  by (simp add: add_pair_for_def pair_for_def)

lemma step_revoked:
  assumes u: "updates_hold P W kp km cnt sv ix" and p: "pair_for P kp km cnt fid w p"
    and w: "w \<in> W" and rev: "(w, fid) \<in> ix_revoked ix"
    and cf: "mac_cf P km W" "\<And>v. v \<in> W \<Longrightarrow> nul_free v"
  shows "add_server_step (sv, r) p = (sv\<lparr>Srev := os_erase (label P km w fid) (Srev sv)\<rparr>, r @ [1])"
    and "updates_hold P W kp km cnt (sv\<lparr>Srev := os_erase (label P km w fid) (Srev sv)\<rparr>)
           (index_add fid {w} ix)"
proof -
  have inv: "os_inv (Srev sv)"
    and mem: "\<And>v i. v \<in> W \<Longrightarrow> label P km v i \<in> set (Srev sv) \<longleftrightarrow> (v, i) \<in> ix_revoked ix"
    using u unfolding updates_hold_def by auto
  show "add_server_step (sv, r) p = (sv\<lparr>Srev := os_erase (label P km w fid) (Srev sv)\<rparr>, r @ [1])"
    using p rev mem [OF w] by (simp add: add_server_step_def pair_for_def)
  have added: "ix_added (index_add fid {w} ix) = ix_added ix"
    using rev by (auto simp: index_add_def fun_eq_iff)
  have "label P km v i \<in> set (os_erase (label P km w fid) (Srev sv))
      \<longleftrightarrow> (v, i) \<in> ix_revoked (index_add fid {w} ix)" if v: "v \<in> W" for v i
    using mem [OF v] label_eq_iff [OF cf v w, of i fid]
    by (auto simp: set_os_erase [OF inv] index_add_def)
  then show "updates_hold P W kp km cnt (sv\<lparr>Srev := os_erase (label P km w fid) (Srev sv)\<rparr>)
      (index_add fid {w} ix)"
    using u unfolding updates_hold_def added by (simp add: os_inv_erase)
qed

lemma step_fresh:
  assumes u: "updates_hold P W kp km cnt sv ix" and p: "pair_for P kp km cnt fid w p"
    and w: "w \<in> W" and rev: "(w, fid) \<notin> ix_revoked ix"
    and len: "length (ix_added ix w) + 1 < 2 ^ 64"
    and cf: "mac_cf P kp W" "\<And>v. v \<in> W \<Longrightarrow> nul_free v"
  defines "sv' \<equiv> sv\<lparr>Dplus := om_insert (ap_Token p) (ap_FileID p) (Dplus sv)\<rparr>"
  shows "add_server_step (sv, r) p = (sv', r @ [0])"
    and "updates_hold P W kp km (cnt(w := cnt w + 1)) sv' (index_add fid {w} ix)"
proof -
  let ?n = "length (ix_added ix w)"
  have mem: "\<And>v i. v \<in> W \<Longrightarrow> label P km v i \<in> set (Srev sv) \<longleftrightarrow> (v, i) \<in> ix_revoked ix"
    and cnt: "cnt w = of_nat ?n"
    and none: "om_lookup (Dplus sv) (label P kp w (of_nat ?n)) = None"
    using u w len unfolding updates_hold_def by auto
  have tok: "ap_Token p = label P kp w (of_nat ?n)" using p cnt by (simp add: pair_for_def)
  show "add_server_step (sv, r) p = (sv', r @ [0])"
    using p rev mem [OF w] none tok
    by (simp add: add_server_step_def pair_for_def om_count_def sv'_def)
  obtain rest where rest: "ap_FileID p = encrypt_long P (token_K2 P kp w) fid @ rest"
    using p by (auto simp: pair_for_def)
  have same: "label P kp v (of_nat c) = ap_Token p \<longleftrightarrow> v = w \<and> c = ?n" if "v \<in> W" "c < 2 ^ 64" for v c
    using label_eq_iff [OF cf that(1) w, of "of_nat c" "of_nat ?n"] of_nat_u64_inj [of c ?n] that(2) len
    unfolding tok by auto
  have look: "om_lookup (Dplus sv') (label P kp v (of_nat c))
      = (if v = w \<and> c = ?n then Some (encrypt_long P (token_K2 P kp w) fid @ rest)
         else om_lookup (Dplus sv) (label P kp v (of_nat c)))" if "v \<in> W" "c < 2 ^ 64" for v c
    using same [OF that] by (simp add: sv'_def om_lookup_insert rest)
  have Srev: "Srev sv' = Srev sv" by (simp add: sv'_def)
  have added: "ix_added (index_add fid {w} ix) = (ix_added ix)(w := ix_added ix w @ [fid])"
    using rev by (auto simp: index_add_def fun_eq_iff)
  have revoked: "ix_revoked (index_add fid {w} ix) = ix_revoked ix"
    using rev by (auto simp: index_add_def)
  show "updates_hold P W kp km (cnt(w := cnt w + 1)) sv' (index_add fid {w} ix)"
    unfolding updates_hold_def Srev added revoked
  proof (intro conjI ballI, goal_cases)
    case 1
    show ?case using u by (simp add: updates_hold_def)
  next
    case (2 v)
    then show ?case using mem by blast
  next
    case (3 v)
    then show ?case using u len by (auto simp: updates_hold_def)
  next
    case (4 v)
    then show ?case using u cnt by (auto simp: updates_hold_def)
  next
    case (5 v)
    show ?case
    proof (intro allI impI)
      fix c assume c: "c < length (((ix_added ix)(w := ix_added ix w @ [fid])) v)"
      have "length (ix_added ix v) < 2 ^ 64" using u 5 by (simp add: updates_hold_def)
      then have "c < 2 ^ 64" using c len by (auto split: if_splits)
      moreover have "\<exists>rest. om_lookup (Dplus sv) (label P kp v (of_nat c))
          = Some (encrypt_long P (token_K2 P kp v) (ix_added ix v ! c) @ rest)"
        if "c < length (ix_added ix v)"
        using u 5 that unfolding updates_hold_def by blast
      ultimately show "\<exists>rest. om_lookup (Dplus sv') (label P kp v (of_nat c))
          = Some (encrypt_long P (token_K2 P kp v) (((ix_added ix)(w := ix_added ix w @ [fid])) v ! c) @ rest)"
        using c look [OF 5] by (auto simp: nth_append split: if_splits)
    qed
  next
    case (6 v)
    then show ?case using u look [OF 6] by (auto simp: updates_hold_def)
  qed
qed

lemma step_one:
  assumes u: "updates_hold P W kp km cnt sv ix" and p: "pair_for P kp km cnt fid w p"
    and w: "w \<in> W" and len: "length (ix_added ix w) + 1 < 2 ^ 64"
    and cf: "mac_cf P kp W" "mac_cf P km W" "\<And>v. v \<in> W \<Longrightarrow> nul_free v"
  shows "\<exists>sv'. add_server_step (sv, r) p = (sv', r @ [answer ix fid w])
    \<and> updates_hold P W kp km (count_add ix fid {w} cnt) sv' (index_add fid {w} ix)
    \<and> version sv' = version sv \<and> A sv' = A sv \<and> D sv' = D sv"
proof (cases "(w, fid) \<in> ix_revoked ix")
  case True
  have "count_add ix fid {w} cnt = cnt" using True by (auto simp: count_add_def)
  then show ?thesis
    using step_revoked [OF u p w True cf(2,3)] True by (auto simp: answer_def)
next
  case False
  have "count_add ix fid {w} cnt = cnt(w := cnt w + 1)" using False by (auto simp: count_add_def)
  then show ?thesis
    using step_fresh [OF u p w False len cf(1,3)] False by (auto simp: answer_def)
qed

section \<open>The whole list at the server\<close>

lemma add_server_loop:
  assumes "list_all2 (pair_for P kp km cnt0 fid) ws L" "distinct ws" "set ws \<subseteq> W"
    and "\<And>w. w \<in> set ws \<Longrightarrow> cnt w = cnt0 w"
    and "\<And>w. w \<in> set ws \<Longrightarrow> length (ix_added ix w) + 1 < 2 ^ 64"
    and "updates_hold P W kp km cnt sv ix"
    and cf: "mac_cf P kp W" "mac_cf P km W" "\<And>v. v \<in> W \<Longrightarrow> nul_free v"
  shows "\<exists>sv'. foldl add_server_step (sv, r) L = (sv', r @ map (answer ix fid) ws)
    \<and> updates_hold P W kp km (count_add ix fid (set ws) cnt) sv' (index_add fid (set ws) ix)
    \<and> version sv' = version sv \<and> A sv' = A sv \<and> D sv' = D sv"
  using assms(1-6)
proof (induction ws L arbitrary: cnt sv ix r rule: list_all2_induct)
  case Nil
  then show ?case by (auto simp: count_add_def)
next
  case (Cons w ws p L)
  note IH = Cons.IH and pr = Cons.prems and p = Cons.hyps(1)
  have w: "w \<in> W" "w \<notin> set ws" using pr by auto
  have p': "pair_for P kp km cnt fid w p" using p pr(3) by (simp add: pair_for_def)
  obtain sv1 where sv1: "add_server_step (sv, r) p = (sv1, r @ [answer ix fid w])"
    "updates_hold P W kp km (count_add ix fid {w} cnt) sv1 (index_add fid {w} ix)"
    "version sv1 = version sv" "A sv1 = A sv" "D sv1 = D sv"
    using step_one [OF pr(5) p' w(1) _ cf, of r] pr(4) by auto
  let ?ix1 = "index_add fid {w} ix" and ?cnt1 = "count_add ix fid {w} cnt"
  have others: "?cnt1 v = cnt0 v" "ix_added ?ix1 v = ix_added ix v" "answer ?ix1 fid v = answer ix fid v"
    if "v \<in> set ws" for v
    using that w(2) pr(3) by (auto simp: count_add_def index_add_def answer_def)
  have "\<exists>sv'. foldl add_server_step (sv1, r @ [answer ix fid w]) L
      = (sv', (r @ [answer ix fid w]) @ map (answer ?ix1 fid) ws)
    \<and> updates_hold P W kp km (count_add ?ix1 fid (set ws) ?cnt1) sv' (index_add fid (set ws) ?ix1)
    \<and> version sv' = version sv1 \<and> A sv' = A sv1 \<and> D sv' = D sv1"
    using pr sv1(2) others by (intro IH) auto
  moreover have "map (answer ?ix1 fid) ws = map (answer ix fid) ws"
    using others(3) by simp
  moreover have "count_add ?ix1 fid (set ws) ?cnt1 = count_add ix fid (set (w # ws)) cnt"
    using w(2) by (auto simp: count_add_def index_add_def fun_eq_iff)
  ultimately show ?case
    using index_add_insert [OF w(2), of fid ix] by (simp add: sv1)
qed

section \<open>The answers at the client\<close>

lemma add_client2_loop_counts:
  assumes "distinct W" "i + length r = length W" "r = map f (drop i W)"
  shows "\<exists>s'. add_client2_loop s r W i = Inr s' \<and> same_keys s' s
    \<and> (\<forall>v. dcount s' v = (if v \<in> set (drop i W) \<and> f v = 0 then dcount s v + 1 else dcount s v))"
  using assms
proof (induction r arbitrary: s i)
  case Nil
  then show ?case by (auto simp: same_keys_def)
next
  case (Cons b r)
  have i: "i < length W" using Cons.prems(2) by simp
  then have dr: "drop i W = W ! i # drop (Suc i) W" by (simp add: Cons_nth_drop_Suc)
  have b: "b = f (W ! i)" and r: "r = map f (drop (Suc i) W)" using Cons.prems(3) dr by auto
  have notin: "W ! i \<notin> set (drop (Suc i) W)"
    using Cons.prems(1) dr by (metis distinct.simps(2) distinct_drop)
  let ?s1 = "if b = 0 then bump_Dcount (W ! i) s else s"
  obtain s' where s': "add_client2_loop ?s1 r W (Suc i) = Inr s'" "same_keys s' ?s1"
    "\<forall>v. dcount s' v = (if v \<in> set (drop (Suc i) W) \<and> f v = 0 then dcount ?s1 v + 1 else dcount ?s1 v)"
    using Cons.IH [of "Suc i" ?s1, OF Cons.prems(1) _ r] Cons.prems(2) by fastforce
  have "same_keys s' s" using s'(2) by (simp add: same_keys_def split: if_splits)
  moreover have "add_client2_loop s (b # r) W i = Inr s'" using s'(1) i by (cases "b = 0") simp_all
  ultimately show ?case
    using s'(3) notin b by (intro exI [of _ s']) (auto simp: dr dcount_bump)
qed

lemma AddClient2_counts:
  assumes "distinct W"
  shows "\<exists>s'. AddClient2 s (map (answer ix fid) W) W = Inr s' \<and> same_keys s' s
    \<and> dcount s' = count_add ix fid (set W) (dcount s)"
proof -
  have "\<exists>s'. add_client2_loop s (map (answer ix fid) W) W 0 = Inr s' \<and> same_keys s' s
    \<and> (\<forall>v. dcount s' v = (if v \<in> set (drop 0 W) \<and> answer ix fid v = 0 then dcount s v + 1 else dcount s v))"
    by (rule add_client2_loop_counts [OF assms]) simp_all
  then obtain s' where s': "add_client2_loop s (map (answer ix fid) W) W 0 = Inr s'" "same_keys s' s"
    and cnt: "\<And>v. dcount s' v = (if v \<in> set W \<and> answer ix fid v = 0 then dcount s v + 1 else dcount s v)"
    unfolding drop_0 by blast
  have "dcount s' = count_add ix fid (set W) (dcount s)"
    by (rule ext) (simp add: cnt count_add_def answer_def)
  with s' show ?thesis by (auto simp: AddClient2_def)
qed

section \<open>Add and Delete, both halves\<close>

text \<open>
  The client and the server half of Add put together as the messages put them together,
  when none is lost: \<open>AddClient\<close>, \<open>AddServer\<close> on its list, \<open>AddClient2\<close> on the answers.
\<close>

definition run_add ::
  "prims \<Rightarrow> core \<Rightarrow> core \<Rightarrow> u64 \<Rightarrow> (nat \<Rightarrow> bytes) \<Rightarrow> bytes list \<Rightarrow> err + core \<times> core" where
  "run_add P cl sv fid junk words =
     (let (cl, L, W) = AddClient P cl fid junk words; (sv, r) = AddServer sv L
      in rbind (AddClient2 cl r W) (\<lambda>cl. Inr (cl, sv)))"

definition run_delete :: "prims \<Rightarrow> core \<Rightarrow> core \<Rightarrow> u64 \<Rightarrow> bytes list \<Rightarrow> core" where
  "run_delete P cl sv fid words = DeleteServer sv (DeleteClient P cl fid words)"

lemma represents_add:
  assumes r: "represents P W cl sv ix" and cf: "keys_cf P W cl"
    and ws: "set words \<subseteq> W" "distinct words"
    and len: "\<And>w. w \<in> set words \<Longrightarrow> length (ix_added ix w) + 1 < 2 ^ 64"
  shows "\<exists>cl' sv'. run_add P cl sv fid junk words = Inr (cl', sv')
    \<and> represents P W cl' sv' (index_add fid (set words) ix) \<and> same_keys cl' cl"
proof -
  obtain cl1 L U where c1: "AddClient P cl fid junk words = (cl1, L, U)"
    by (metis prod_cases3)
  note c1' = AddClient_pairs [OF c1]
  have U: "distinct U" "set U = set words"
    using c1'(2) ws(2) by (metis mset_eq_imp_distinct_iff, metis set_mset_mset)
  have pairs: "list_all2 (pair_for P (kplus cl) (kminus cl) (dcount cl) fid) U L"
    using c1'(1) by (simp add: add_pair_for_eq [abs_def])
  have u: "updates_hold P W (kplus cl) (kminus cl) (dcount cl) sv ix"
    using r by (simp add: represents_def)
  obtain sv' where sv': "AddServer sv L = (sv', map (answer ix fid) U)"
    "updates_hold P W (kplus cl) (kminus cl) (count_add ix fid (set words) (dcount cl)) sv'
       (index_add fid (set words) ix)"
    "version sv' = version sv" "A sv' = A sv" "D sv' = D sv"
    using add_server_loop [OF pairs U(1) _ _ _ u, of "[]"] ws(1) len cf
    unfolding AddServer_def keys_cf_def U(2) by auto
  obtain cl' where cl': "AddClient2 cl1 (map (answer ix fid) U) U = Inr cl'" "same_keys cl' cl1"
    "dcount cl' = count_add ix fid (set words) (dcount cl1)"
    using AddClient2_counts [OF U(1), of cl1 ix fid] by (auto simp: U(2))
  have keys: "same_keys cl' cl" using cl'(2) c1'(3) by (simp add: same_keys_def)
  have "dcount cl1 = dcount cl" using c1'(4) by (simp add: fun_eq_iff)
  then have "represents P W cl' sv' (index_add fid (set words) ix)"
    using r keys sv' cl'(3) by (simp add: represents_def same_keys_def index_add_def)
  then show ?thesis
    using keys c1 sv'(1) cl'(1) by (auto simp: run_add_def)
qed

lemma represents_delete:
  assumes r: "represents P W cl sv ix" and cf: "keys_cf P W cl" and ws: "set words \<subseteq> W"
  shows "represents P W cl (run_delete P cl sv fid words) (index_delete fid (set words) ix)"
proof -
  let ?sv = "run_delete P cl sv fid words"
  have Srev: "set (Srev ?sv) = set (Srev sv) \<union> {label P (kminus cl) w fid | w. w \<in> set words}"
    by (simp add: run_delete_def DeleteServer_eq os.elems_ins_all set_DeleteClient)
  have "label P (kminus cl) w i \<in> set (Srev ?sv) \<longleftrightarrow> (w, i) \<in> ix_revoked (index_delete fid (set words) ix)"
    if w: "w \<in> W" for w i
  proof -
    have eq: "label P (kminus cl) w i = label P (kminus cl) v fid \<longleftrightarrow> w = v \<and> i = fid" if "v \<in> W" for v
      using cf w that by (intro label_eq_iff [of P _ W]) (auto simp: keys_cf_def)
    have "label P (kminus cl) w i \<in> {label P (kminus cl) v fid | v. v \<in> set words}
        \<longleftrightarrow> (\<exists>v \<in> set words. w = v \<and> i = fid)"
      using eq ws by auto
    then have "label P (kminus cl) w i \<in> {label P (kminus cl) w fid | w. w \<in> set words}
        \<longleftrightarrow> i = fid \<and> w \<in> set words"
      by auto
    then show ?thesis
      using r w unfolding Srev represents_def updates_hold_def index_delete_def by auto
  qed
  moreover have "os_inv (Srev ?sv)"
    using r by (simp add: represents_def updates_hold_def run_delete_def DeleteServer_eq os.inv_ins_all)
  ultimately show ?thesis
    using r unfolding represents_def updates_hold_def
    by (simp add: index_delete_def run_delete_def DeleteServer_eq)
qed

end
