(* ===== verification/Session.thy ===== *)
theory Session
  imports Refine
begin

text \<open>
  Runs of operations. A simulation of one step is lifted to runs of steps in a locale, and
  the lifted facts are used on the scheme: after any number of Add and Delete operations a
  search still returns what the plain index says.
\<close>

section \<open>Simulations\<close>

text \<open>
  \<open>rep\<close> ties a concrete state to an abstract one; \<open>step o s s'\<close> says that operation \<open>o\<close>
  ends normally in \<open>s'\<close>. An operation allowed by \<open>ok\<close> does, and keeps the tie.
\<close>

locale simulation =
  fixes rep :: "'s \<Rightarrow> 'a \<Rightarrow> bool"
    and step :: "'o \<Rightarrow> 's \<Rightarrow> 's \<Rightarrow> bool"
    and astep :: "'o \<Rightarrow> 'a \<Rightarrow> 'a"
    and ok :: "'o \<Rightarrow> 'a \<Rightarrow> bool"
  assumes step_total: "rep s a \<Longrightarrow> ok x a \<Longrightarrow> \<exists>s'. step x s s'"
    and step_rep: "rep s a \<Longrightarrow> ok x a \<Longrightarrow> step x s s' \<Longrightarrow> rep s' (astep x a)"
begin

inductive runs :: "'o list \<Rightarrow> 's \<Rightarrow> 's \<Rightarrow> bool" where
  runs_Nil: "runs [] s s"
| runs_Cons: "step x s s1 \<Longrightarrow> runs xs s1 s2 \<Longrightarrow> runs (x # xs) s s2"

inductive_cases runs_NilE: "runs [] s s'"
inductive_cases runs_ConsE: "runs (x # xs) s s'"

inductive_simps runs_simps: "runs [] s s'" "runs (x # xs) s s'"

fun all_ok :: "'o list \<Rightarrow> 'a \<Rightarrow> bool" where
  "all_ok [] a = True"
| "all_ok (x # xs) a = (ok x a \<and> all_ok xs (astep x a))"

lemma runs_rep: "runs xs s s' \<Longrightarrow> rep s a \<Longrightarrow> all_ok xs a \<Longrightarrow> rep s' (fold astep xs a)"
  by (induction arbitrary: a rule: runs.induct) (auto dest: step_rep)

lemma runs_total: "rep s a \<Longrightarrow> all_ok xs a \<Longrightarrow> \<exists>s'. runs xs s s'"
proof (induction xs arbitrary: s a)
  case (Cons x xs)
  then obtain s1 where s1: "step x s s1" using step_total [of s a x] by auto
  then have "rep s1 (astep x a)" using step_rep Cons.prems by simp
  then obtain s2 where "runs xs s1 s2" using Cons.IH Cons.prems(2) by fastforce
  with s1 show ?case by (blast intro: runs_Cons)
qed (auto intro: runs_Nil)

lemma runs_append: "runs (xs @ ys) s s' \<longleftrightarrow> (\<exists>s1. runs xs s s1 \<and> runs ys s1 s')"
  by (induction xs arbitrary: s) (auto simp: runs_simps)

end

section \<open>The operations of the scheme\<close>

text \<open>
  \<open>DoAdd fid words junk\<close> carries what the stack of \<open>AddClient\<close> held, which is the
  environment's choice.
\<close>

datatype op = DoAdd u64 "bytes list" "nat \<Rightarrow> bytes" | DoDelete u64 "bytes list"

fun run_op :: "prims \<Rightarrow> op \<Rightarrow> core \<times> core \<Rightarrow> err + core \<times> core" where
  "run_op P (DoAdd fid words junk) (cl, sv) = run_add P cl sv fid junk words"
| "run_op P (DoDelete fid words) (cl, sv) = Inr (cl, run_delete P cl sv fid words)"

fun run_ops :: "prims \<Rightarrow> op list \<Rightarrow> core \<times> core \<Rightarrow> err + core \<times> core" where
  "run_ops P [] s = Inr s"
| "run_ops P (o' # os) s = rbind (run_op P o' s) (run_ops P os)"

fun index_op :: "op \<Rightarrow> index \<Rightarrow> index" where
  "index_op (DoAdd fid words junk) = index_add fid (set words)"
| "index_op (DoDelete fid words) = index_delete fid (set words)"

text \<open>
  What an operation has to satisfy: its tokens are among those of the HMAC assumption, an
  Add names no token twice (\<open>AddFileByName\<close> passes the elements of a set), and no counter
  reaches its last value.
\<close>

fun op_ok :: "bytes set \<Rightarrow> op \<Rightarrow> index \<Rightarrow> bool" where
  "op_ok W (DoAdd fid words junk) ix \<longleftrightarrow> set words \<subseteq> W \<and> distinct words
     \<and> (\<forall>w \<in> set words. length (ix_added ix w) + 1 < 2 ^ 64)"
| "op_ok W (DoDelete fid words) ix \<longleftrightarrow> set words \<subseteq> W"

definition rep_keys :: "prims \<Rightarrow> bytes set \<Rightarrow> core \<times> core \<Rightarrow> index \<Rightarrow> bool" where
  "rep_keys P W s ix \<longleftrightarrow> represents P W (fst s) (snd s) ix \<and> keys_cf P W (fst s)"

lemma keys_cf_same: "same_keys s' s \<Longrightarrow> keys_cf P W s' = keys_cf P W s"
  by (simp add: keys_cf_def same_keys_def)

lemma run_op_rep:
  assumes "rep_keys P W s ix" "op_ok W o' ix"
  shows "\<exists>s'. run_op P o' s = Inr s' \<and> rep_keys P W s' (index_op o' ix)"
proof (cases o')
  case (DoAdd fid words junk)
  obtain cl sv where s: "s = (cl, sv)" by fastforce
  have "\<exists>cl' sv'. run_add P cl sv fid junk words = Inr (cl', sv')
    \<and> represents P W cl' sv' (index_add fid (set words) ix) \<and> same_keys cl' cl"
    using assms by (intro represents_add) (auto simp: DoAdd s rep_keys_def)
  then show ?thesis
    using assms keys_cf_same by (auto simp: DoAdd s rep_keys_def)
next
  case (DoDelete fid words)
  obtain cl sv where s: "s = (cl, sv)" by fastforce
  show ?thesis
    using assms by (auto simp: DoDelete s rep_keys_def intro: represents_delete)
qed

interpretation dsse: simulation "rep_keys P W" "\<lambda>x s s'. run_op P x s = Inr s'" index_op "op_ok W" for P W
proof (unfold_locales, goal_cases)
  case (1 s ix x)
  then show ?case using run_op_rep by blast
next
  case (2 s ix x s')
  then show ?case using run_op_rep [of P W s ix x] by auto
qed

lemma runs_run_ops: "dsse.runs P os s s' \<longleftrightarrow> run_ops P os s = Inr s'"
  by (induction os arbitrary: s) (auto simp: dsse.runs_simps rbind_Inr_iff simp del: split_paired_Ex)

definition ops_ok :: "bytes set \<Rightarrow> op list \<Rightarrow> index \<Rightarrow> bool" where
  "ops_ok W os ix \<longleftrightarrow> dsse.all_ok W os ix"

lemma ops_ok_simps [simp]:
  "ops_ok W [] ix = True" "ops_ok W (o' # os) ix = (op_ok W o' ix \<and> ops_ok W os (index_op o' ix))"
  by (simp_all add: ops_ok_def)

lemma run_ops_represents:
  assumes "represents P W cl sv ix" "keys_cf P W cl" "ops_ok W os ix"
  shows "\<exists>cl' sv'. run_ops P os (cl, sv) = Inr (cl', sv')
    \<and> represents P W cl' sv' (fold index_op os ix) \<and> keys_cf P W cl'"
proof -
  have r: "rep_keys P W (cl, sv) ix" and ok: "dsse.all_ok W os ix"
    using assms by (simp_all add: rep_keys_def ops_ok_def)
  obtain s' where s': "dsse.runs P os (cl, sv) s'" using dsse.runs_total [OF r ok] by blast
  have "rep_keys P W s' (fold index_op os ix)" by (rule dsse.runs_rep [OF s' r ok])
  with s' show ?thesis by (cases s') (simp add: runs_run_ops rep_keys_def)
qed

section \<open>What the plain index says after a run\<close>

lemma index_search_add_fresh:
  "(w, fid) \<notin> ix_revoked ix \<Longrightarrow> w \<in> ws \<Longrightarrow>
   index_search (index_add fid ws ix) w = index_search ix w @ [fid]"
  by (auto simp: index_search_def index_add_def intro!: arg_cong2 [where f = "(@)"] filter_cong)

lemma index_search_add_other:
  "w \<notin> ws \<Longrightarrow> index_search (index_add fid ws ix) w = index_search ix w"
  by (auto simp: index_search_def index_add_def intro!: filter_cong)

lemma index_search_delete:
  "index_search (index_delete fid ws ix) w =
     (if w \<in> ws then filter (\<lambda>i. i \<noteq> fid) (index_search ix w) else index_search ix w)"
  by (auto simp: index_search_def index_delete_def intro!: filter_cong)

text \<open>
  A pair that was deleted comes back with the next Add, at the place it had; one that was
  deleted without ever having been there does not come back: Add only takes the
  revocation away.
\<close>

lemma index_add_after_delete:
  assumes "w \<in> ws"
  shows "index_search (index_add fid ws (index_delete fid ws ix)) w
    = filter (\<lambda>i. i = fid \<or> (w, i) \<notin> ix_revoked ix) (ix_setup ix w @ ix_added ix w)"
  using assms
  by (auto simp: index_search_def index_add_def index_delete_def intro!: arg_cong2 [where f = "(@)"] filter_cong)

end
