(* ===== verification/Limits.thy ===== *)
theory Limits
  imports Session
begin

text \<open>
  Where the promises of \<open>Session\<close> end. Each lemma takes one of its assumptions away and
  says what the program does then: a token with a NUL inside, a word named twice in one
  Add, a client that is set up a second time, a pair deleted before it was added.
\<close>

section \<open>What needs no assumption\<close>

text \<open>The two halves of Add always fit: the client never reads outside its word list.\<close>

lemma run_add_total: "\<exists>cl' sv'. run_add P cl sv fid junk words = Inr (cl', sv')"
proof -
  obtain cl1 L W where c: "AddClient P cl fid junk words = (cl1, L, W)" by (metis prod_cases3)
  obtain sv' r where s: "AddServer sv L = (sv', r)" by fastforce
  have "length L = length W" using AddClient_pairs(1) [OF c] by (simp add: list_all2_lengthD)
  then have "length r \<le> length W" using AddServer_length [of sv L] by (simp add: s)
  then obtain cl' where "AddClient2 cl1 r W = Inr cl'" using AddClient2_total by blast
  then show ?thesis by (simp add: run_add_def c s)
qed

text \<open>Delete at the server is a set union: order and repetition do not matter.\<close>

lemma DeleteServer_set:
  assumes "os_inv (Srev s)" "set L = set L'"
  shows "DeleteServer s L = DeleteServer s L'"
proof -
  have "foldl (\<lambda>s x. os_insert x s) (Srev s) L = foldl (\<lambda>s x. os_insert x s) (Srev s) L'"
    by (rule os_inv_unique) (simp_all add: assms os.inv_ins_all os.elems_ins_all)
  then show ?thesis by (simp add: DeleteServer_eq)
qed

section \<open>Tokens with a NUL inside\<close>

lemma c_str_append_NUL: "c_str (w @ 0 # u) = c_str w"
  by (induction w) (simp_all add: c_str_def)

lemma mac_key_NUL: "mac_key P k n (w @ 0 # u) = mac_key P k n w"
  by (simp add: mac_key_def c_str_append_NUL)

lemma SearchClient_NUL: "SearchClient P s (w @ 0 # u) = SearchClient P s w"
  by (simp add: SearchClient_def mac_key_NUL)

section \<open>A word named twice in one Add\<close>

lemma AddServer_repeated:
  assumes "\<not> os_count (Srev s) (ap_RevID p)" "\<not> os_count (Srev s) (ap_RevID q)"
    and "\<not> om_count (Dplus s) (ap_Token p)" "\<not> om_count (Dplus s) (ap_Token q)"
    and "ap_Token p \<noteq> ap_Token q"
  shows "snd (AddServer s [p, p, q]) = [0, 0]"
  using assms by (simp add: AddServer_def add_server_step_def om_count_def om_lookup_insert)

lemma AddClient2_repeated:
  assumes "w \<noteq> v"
  shows "\<exists>s'. AddClient2 s [0, 0] [w, w, v] = Inr s' \<and> dcount s' w = dcount s w + 2
    \<and> dcount s' v = dcount s v"
  using assms by (simp add: AddClient2_def dcount_bump)

section \<open>A client that is set up again\<close>

text \<open>\<open>SetupClient\<close> leaves \<open>Dcount\<close>, \<open>SetupServer\<close> empties \<open>Dplus\<close>.\<close>

lemma SetupServer_Dplus [simp]: "Dplus (SetupServer sv ver L M) = []"
  "Srev (SetupServer sv ver L M) = Srev sv" "version (SetupServer sv ver L M) = ver"
  "A (SetupServer sv ver L M) = M"
  by (simp_all add: SetupServer_eq)

lemma AddClient_single:
  "AddClient P s fid junk [w] =
     (touch_Dcount w s,
      [\<lparr>ap_Token = label P (kplus s) w (dcount s w),
        ap_FileID = write_prefix (junk 0) (encrypt_long P (token_K2 P (kplus s) w) fid),
        ap_RevID = label P (kminus s) w fid\<rparr>], [w])"
  by (simp add: AddClient_def add_token_pair_def label_def token_K2_def Let_def)

text \<open>
  When the count of \<open>w\<close> was not 0 at the time of the second Setup, the id added next is
  stored under a label that no search looks up: label 0 is missing, so the loop over
  \<open>Dplus\<close> ends before it.
\<close>

lemma add_beyond_gap:
  assumes h: "holds P (version sv) (A sv) (key cl) (D sv) w ids"
    and ver: "version sv \<in> {Basic, Packed, Pointer}" and len: "length (A sv) < 2 ^ 64"
    and empty: "Dplus sv = []" and gap: "dcount cl w \<noteq> 0"
    and cf: "keys_cf P W cl" "w \<in> W"
    and fresh: "\<not> os_count (Srev sv) (label P (kminus cl) w fid)"
  shows "\<exists>cl' sv'. run_add P cl sv fid junk [w] = Inr (cl', sv')
    \<and> SearchServer P sv' (SearchClient P cl' w)
        = Some (Inr (live_ids P sv (mac_key P (kminus cl) 0x31 w) ids))"
proof -
  let ?tok = "label P (kplus cl) w (dcount cl w)"
  let ?d = "write_prefix (junk 0) (encrypt_long P (token_K2 P (kplus cl) w) fid)"
  define sv' where "sv' = sv\<lparr>Dplus := om_insert ?tok ?d (Dplus sv)\<rparr>"
  define cl' where "cl' = bump_Dcount w (touch_Dcount w cl)"
  have run: "run_add P cl sv fid junk [w] = Inr (cl', sv')"
    using fresh empty
    by (simp add: run_add_def AddClient_single AddServer_def add_server_step_def om_count_def
        AddClient2_def sv'_def cl'_def)
  have keys: "SearchClient P cl' w = SearchClient P cl w"
    by (simp add: cl'_def bump_Dcount_def touch_Dcount_def SearchClient_def)
  have "label P (kplus cl) w 0 \<noteq> ?tok"
    using gap label_eq_iff [of P "kplus cl" W w w 0 "dcount cl w"] cf by (auto simp: keys_cf_def)
  then have "om_lookup (Dplus sv') (label P (kplus cl) w 0) = None"
    by (simp add: sv'_def empty om_lookup_insert)
  then have plus: "holds P Basic (A sv') (kplus cl) (Dplus sv') w []"
    unfolding holds_def by (intro exI [of _ "[]"]) simp
  have "holds P (version sv') (A sv') (key cl) (D sv') w ids"
    using h by (simp add: sv'_def)
  moreover have "version sv' = Basic \<or> version sv' = Packed \<or> version sv' = Pointer"
    using ver by (simp add: sv'_def)
  ultimately have "SearchServer P sv' (SearchClient P cl w)
      = Some (Inr (live_ids P sv' (mac_key P (kminus cl) 0x31 w) (ids @ [])))"
    using SearchServer_holds plus len by (simp add: sv'_def)
  moreover have "live_ids P sv' k is = live_ids P sv k is" for k "is"
    by (simp add: live_ids_def sv'_def)
  ultimately show ?thesis using run keys by auto
qed

lemma resetup_loses_add:
  assumes run: "SetupClient P devs cl ver tokens fileids = Some (Inr (cl', L, M))"
    and W: "set tokens \<subseteq> W" "w \<in> W" and cf: "keys_cf P W cl'"
    and valid: "ver = Basic \<or> (\<forall>w \<in> set tokens. INVALID \<notin> set (setup_ids tokens fileids w))"
    and len: "length M < 2 ^ 64" "\<And>w. w \<in> set tokens \<Longrightarrow> length (setup_ids tokens fileids w) < 2 ^ 64"
    and gap: "dcount cl w \<noteq> 0"
    and fresh: "\<not> os_count (Srev sv) (label P (kminus cl') w fid)"
  shows "\<exists>cl2 sv2. run_add P cl' (SetupServer sv ver L M) fid junk [w] = Inr (cl2, sv2)
    \<and> SearchServer P sv2 (SearchClient P cl2 w)
        = Some (Inr (live_ids P sv (mac_key P (kminus cl') 0x31 w) (setup_ids tokens fileids w)))"
proof -
  note pairs = SetupClient_pairs_hold [OF run W(1) valid len(1)]
  have len': "length (setup_ids tokens fileids w) < 2 ^ 64" for w
    using len(2) [of w] by (cases "w \<in> set tokens") (simp_all add: setup_ids_def)
  let ?sv = "SetupServer sv ver L M"
  have "holds P (version ?sv) (A ?sv) (key cl') (D ?sv) w (setup_ids tokens fileids w)"
    using pairs cf len' W unfolding keys_cf_def SetupServer_Dplus
    by (intro SetupServer_holds [where W = W]) auto
  moreover have "version ?sv \<in> {Basic, Packed, Pointer}" "Dplus ?sv = []" "length (A ?sv) < 2 ^ 64"
    "\<not> os_count (Srev ?sv) (label P (kminus cl') w fid)"
    using pairs fresh len(1) by auto
  moreover have "dcount cl' w \<noteq> 0" using gap pairs by (simp add: dcount_def)
  moreover have "live_ids P ?sv k is = live_ids P sv k is" for k "is" by (simp add: live_ids_def)
  ultimately show ?thesis using add_beyond_gap [OF _ _ _ _ _ cf W(2)] by metis
qed

section \<open>A pair deleted before it was added\<close>

text \<open>
  Deleting a pair that is not in the index and then adding it only takes the revocation
  away: the search does not find it.
\<close>

lemma delete_before_add:
  assumes r: "represents P W cl sv ix" and cf: "keys_cf P W cl" and w: "w \<in> W"
    and new: "fid \<notin> set (ix_setup ix w @ ix_added ix w)"
    and len: "length (ix_added ix w) + 1 < 2 ^ 64"
  shows "\<exists>cl' sv'. run_ops P [DoDelete fid [w], DoAdd fid [w] junk] (cl, sv) = Inr (cl', sv')
    \<and> SearchServer P sv' (SearchClient P cl' w) = Some (Inr (index_search ix w))"
proof -
  let ?os = "[DoDelete fid [w], DoAdd fid [w] junk]"
  have "ops_ok W ?os ix" using w len by (simp add: index_delete_def)
  then obtain cl' sv' where run: "run_ops P ?os (cl, sv) = Inr (cl', sv')"
    and r': "represents P W cl' sv' (fold index_op ?os ix)"
    using run_ops_represents [OF r cf] by blast
  have "index_search (index_add fid {w} (index_delete fid {w} ix)) w = index_search ix w"
    using new index_add_after_delete [of w "{w}" fid ix]
    by (auto simp: index_search_def intro!: arg_cong2 [where f = "(@)"] filter_cong)
  then show ?thesis using run represents_search [OF r' w] by simp
qed

end
