(* ===== verification/Totality.thy ===== *)
theory Totality
  imports Scheme
begin

text \<open>
  Setup returns: with devices that deliver, a known version and an entry of \<open>fileids\<close> for
  every token, \<open>SetupClient\<close> gives its pairs; the other outcomes are told apart. The
  blocks that the Pointer variant puts into \<open>A\<close> are no more than the ids it was given.
\<close>

section \<open>How many blocks\<close>

lemma pointer_slots_blocks:
  "i < length fids \<Longrightarrow> pointer_slots P K2 fids m i M = (bs, i', M') \<Longrightarrow>
   length M' + i \<le> length M + i'"
proof (induction m arbitrary: i M bs i' M')
  case (Suc m)
  obtain fb j where fb: "fileid_slots fids B i = (fb, j)" by fastforce
  have j: "i < j" using fileid_slots_progress [OF Suc.prems(1), of B] by (simp add: fb)
  let ?M = "M @ [encrypt_bytes P K2 fb]"
  show ?case
  proof (cases "length fids \<le> j")
    case True
    then show ?thesis using Suc.prems(2) j by (auto simp: fb Let_def)
  next
    case False
    obtain ptrs k N where rest: "pointer_slots P K2 fids m j ?M = (ptrs, k, N)"
      by (metis prod_cases3)
    have "length N + j \<le> length ?M + k" using Suc.IH [OF _ rest] False by simp
    then show ?thesis using Suc.prems(2) False j rest by (simp add: fb Let_def)
  qed
qed simp

lemma fileid_slots_le: "i \<le> length fids \<Longrightarrow> snd (fileid_slots fids k i) \<le> length fids"
proof (induction k arbitrary: i)
  case (Suc k)
  show ?case
  proof (cases "i < length fids")
    case True
    then show ?thesis using Suc.IH [of "Suc i"] by (cases "fileid_slots fids k (Suc i)") simp
  next
    case False
    then show ?thesis using Suc.IH [of i] Suc.prems
      by (cases "fileid_slots fids k i") simp
  qed
qed simp

lemma fileid_slots_le':
  "fileid_slots fids k i = (fb, j) \<Longrightarrow> i \<le> length fids \<Longrightarrow> j \<le> length fids"
  using fileid_slots_le [of i fids k] by simp

lemma pointer_slots_le:
  "i \<le> length fids \<Longrightarrow> pointer_slots P K2 fids m i M = (bs, i', M') \<Longrightarrow> i' \<le> length fids"
proof (induction m arbitrary: i M bs i' M')
  case (Suc m)
  obtain fb j where fb: "fileid_slots fids B i = (fb, j)" by fastforce
  have j: "j \<le> length fids" by (rule fileid_slots_le' [OF fb Suc.prems(1)])
  obtain ptrs k N where rest: "pointer_slots P K2 fids m j (M @ [encrypt_bytes P K2 fb]) = (ptrs, k, N)"
    by (metis prod_cases3)
  have "k \<le> length fids" by (rule Suc.IH [OF j rest])
  with j show ?case using Suc.prems(2) by (auto simp: fb rest Let_def split: if_splits)
qed simp

lemma pointer_loop_blocks:
  "i \<le> length fids \<Longrightarrow> pointer_loop P K1 K2 fids c i M = (L, M') \<Longrightarrow>
   length M' + i \<le> length M + length fids"
proof (induction P K1 K2 fids c i M arbitrary: L M' rule: pointer_loop.induct)
  case (1 P K1 K2 fids c i M)
  show ?case
  proof (cases "i < length fids")
    case False
    then show ?thesis using 1(2,3) by (simp add: pointer_loop.simps)
  next
    case True
    obtain pb i1 M1 where s: "pointer_slots P K2 fids B i M = (pb, i1, M1)" by (metis prod_cases3)
    obtain L2 M2 where r: "pointer_loop P K1 K2 fids (Suc c) i1 M1 = (L2, M2)" by fastforce
    have i1: "i1 \<le> length fids" using pointer_slots_le [OF _ s] True by simp
    have "M' = M2" using 1(3) True by (subst (asm) pointer_loop.simps) (simp add: s r Let_def)
    moreover have "length M2 + i1 \<le> length M1 + length fids"
      using 1(1) [OF True s [symmetric] refl refl refl i1 r] by simp
    moreover have "length M1 + i \<le> length M + i1" by (rule pointer_slots_blocks [OF True s])
    ultimately show ?thesis by simp
  qed
qed

definition total_ids :: "bytes list \<Rightarrow> filemap \<Rightarrow> nat" where
  "total_ids tokens fileids = sum_list (map (\<lambda>w. length (setup_ids tokens fileids w)) tokens)"

lemma pointer_tokens_total:
  assumes "\<And>w. w \<in> set ws \<Longrightarrow> om_count fileids w" "set ws \<subseteq> set tokens"
  shows "\<exists>L M'. pointer_tokens P s fileids ws M = Inr (L, M')
    \<and> length M' \<le> length M + sum_list (map (\<lambda>w. length (setup_ids tokens fileids w)) ws)"
  using assms
proof (induction ws arbitrary: M)
  case (Cons w ws)
  obtain fids where fids: "om_lookup fileids w = Some fids"
    using Cons.prems(1) [of w] by (auto simp: om_count_def)
  let ?K1 = "mac_key P (key s) 0x31 w" and ?K2 = "mac_key P (key s) 0x32 w"
  obtain L1 M1 where l: "pointer_loop P ?K1 ?K2 fids 0 0 M = (L1, M1)" by fastforce
  have "length M1 \<le> length M + length fids" using pointer_loop_blocks [OF _ l] by simp
  moreover obtain L2 M2 where r: "pointer_tokens P s fileids ws M1 = Inr (L2, M2)"
    "length M2 \<le> length M1 + sum_list (map (\<lambda>w. length (setup_ids tokens fileids w)) ws)"
    using Cons by force
  moreover have "setup_ids tokens fileids w = fids" using Cons.prems(2) fids by (simp add: setup_ids_def)
  ultimately show ?case by (simp add: fileids_at_def fids l)
qed simp

section \<open>Setup returns\<close>

lemma rmap_total:
  "(\<And>x. x \<in> set xs \<Longrightarrow> \<exists>y. f x = Inr y) \<Longrightarrow> \<exists>ys. rmap f xs = Inr ys"
proof (induction xs)
  case (Cons x xs)
  obtain y ys where "f x = Inr y" "rmap f xs = Inr ys" using Cons by fastforce
  then show ?case by simp
qed simp

lemma SetupClient_total:
  assumes keys: "draw_keys devs cl = Some (Inr s)" and ver: "ver \<in> {Basic, Packed, Pointer}"
    and files: "\<And>w. w \<in> set tokens \<Longrightarrow> om_count fileids w"
  shows "\<exists>L M. SetupClient P devs cl ver tokens fileids = Some (Inr (s\<lparr>version := ver\<rparr>, L, M))
    \<and> length M \<le> total_ids tokens fileids"
proof -
  have at: "\<exists>fids. fileids_at fileids w = Inr fids" if "w \<in> set tokens" for w
    using files [OF that] by (auto simp: fileids_at_def om_count_def)
  have "\<exists>Ls. rmap (basic_token P s fileids) tokens = Inr Ls"
    using at by (intro rmap_total) (fastforce simp: basic_token_def Let_def)
  then obtain Lb where b: "rmap (basic_token P s fileids) tokens = Inr Lb" ..
  have "\<exists>Ls. rmap (packed_token P s fileids) tokens = Inr Ls"
    using at by (intro rmap_total) (fastforce simp: packed_token_def Let_def)
  then obtain Lp where p: "rmap (packed_token P s fileids) tokens = Inr Lp" ..
  obtain K M where M: "pointer_tokens P s fileids tokens [] = Inr (K, M)"
    "length M \<le> total_ids tokens fileids"
    using pointer_tokens_total [OF files, of tokens tokens P s "[]"] by (auto simp: total_ids_def)
  show ?thesis
    using ver keys M
    by (auto simp: SetupClient_def SetupClientBasic_def SetupClientPacked_def
        SetupClientPointer_def versions b p)
qed

lemma draw_keys_total:
  assumes "delivers r1" "delivers r2" "delivers r3"
  shows "\<exists>s. draw_keys (Some r1, Some r2, Some r3) cl = Some (Inr s)
    \<and> length (key s) = KEYLEN \<and> length (kplus s) = KEYLEN \<and> length (kminus s) = KEYLEN"
  using random_key_length [OF assms(1)] random_key_length [OF assms(2)]
    random_key_length [OF assms(3)]
  by (auto simp: draw_keys_def)

text \<open>A version that is none of the three ends the program before a key is drawn.\<close>

lemma SetupClient_unknown_version:
  "ver \<notin> {Basic, Packed, Pointer} \<Longrightarrow>
   SetupClient P devs cl ver tokens fileids = Some (Inl (Exit 1))"
  by (simp add: SetupClient_def versions)

text \<open>A token that is not in \<open>fileids\<close> makes \<open>at\<close> throw.\<close>

lemma rmap_OutOfRange:
  "w \<in> set xs \<Longrightarrow> f w = Inl e \<Longrightarrow> (\<And>x e'. f x = Inl e' \<Longrightarrow> e' = e) \<Longrightarrow> rmap f xs = Inl e"
proof (induction xs)
  case Nil
  from Nil(1) show ?case by simp
next
  case (Cons x xs)
  show ?case
  proof (cases "f x")
    case (Inl e')
    then show ?thesis using Cons.prems(3) [OF Inl] by simp
  next
    case (Inr y)
    then have "w \<in> set xs" using Cons.prems(1,2) by (cases "w = x") simp_all
    then have "rmap f xs = Inl e" using Cons.prems(2,3) by (rule Cons.IH)
    with Inr show ?thesis by simp
  qed
qed

lemma pointer_tokens_OutOfRange:
  "w \<in> set ws \<Longrightarrow> \<not> om_count fileids w \<Longrightarrow> pointer_tokens P s fileids ws M = Inl OutOfRange"
proof (induction ws arbitrary: M)
  case (Cons v ws)
  show ?case
  proof (cases "om_lookup fileids v")
    case None
    then show ?thesis by (simp add: fileids_at_def Let_def)
  next
    case (Some fids)
    then have "w \<in> set ws" using Cons.prems by (auto simp: om_count_def)
    with Cons have "pointer_tokens P s fileids ws N = Inl OutOfRange" for N by blast
    with Some show ?thesis by (simp add: fileids_at_def Let_def split: prod.split)
  qed
qed simp

lemma SetupClient_missing_token:
  assumes keys: "draw_keys devs cl = Some (Inr s)" and ver: "ver \<in> {Basic, Packed, Pointer}"
    and w: "w \<in> set tokens" "\<not> om_count fileids w"
  shows "SetupClient P devs cl ver tokens fileids = Some (Inl OutOfRange)"
proof -
  have at: "fileids_at fileids v = Inl OutOfRange \<or> (\<exists>fids. fileids_at fileids v = Inr fids)" for v
    by (cases "om_lookup fileids v") (simp_all add: fileids_at_def)
  have none: "fileids_at fileids w = Inl OutOfRange"
    using w(2) by (simp add: fileids_at_def om_count_def)
  have b: "rmap (basic_token P s fileids) tokens = Inl OutOfRange"
  proof (rule rmap_OutOfRange [OF w(1)])
    show "e = OutOfRange" if "basic_token P s fileids v = Inl e" for v e
      using at [of v] that by (auto simp: basic_token_def Let_def)
  qed (simp add: basic_token_def none)
  have p: "rmap (packed_token P s fileids) tokens = Inl OutOfRange"
  proof (rule rmap_OutOfRange [OF w(1)])
    show "e = OutOfRange" if "packed_token P s fileids v = Inl e" for v e
      using at [of v] that by (auto simp: packed_token_def Let_def)
  qed (simp add: packed_token_def none)
  note q = pointer_tokens_OutOfRange [OF w, of P s "[]"]
  from ver consider "ver = Basic" | "ver = Packed" | "ver = Pointer" by blast
  then show ?thesis
  proof cases
    case 1
    then show ?thesis by (simp add: SetupClient_def SetupClientBasic_def keys b)
  next
    case 2
    then show ?thesis by (simp add: SetupClient_def SetupClientPacked_def versions keys p)
  next
    case 3
    then show ?thesis by (simp add: SetupClient_def SetupClientPointer_def versions keys q)
  qed
qed

text \<open>So a Setup that returned pairs had its keys, a known version and all its tokens.\<close>

lemma SetupClient_returned:
  assumes "SetupClient P devs cl ver tokens fileids = Some (Inr (cl', L, M))"
  shows "ver \<in> {Basic, Packed, Pointer} \<and> (\<forall>w \<in> set tokens. om_count fileids w)
    \<and> (\<exists>s. draw_keys devs cl = Some (Inr s) \<and> cl' = s\<lparr>version := ver\<rparr>)
    \<and> length M \<le> total_ids tokens fileids"
proof -
  have ver: "ver \<in> {Basic, Packed, Pointer}"
    using assms SetupClient_unknown_version [of ver P devs cl tokens fileids] by fastforce
  obtain s where s: "draw_keys devs cl = Some (Inr s)"
    using assms by (auto simp: SetupClient_def SetupClientBasic_def SetupClientPacked_def
        SetupClientPointer_def obind_Inr_iff split: if_splits)
  have files: "om_count fileids w" if "w \<in> set tokens" for w
    using assms SetupClient_missing_token [OF s ver that, where P = P] by fastforce
  have "\<exists>L M. SetupClient P devs cl ver tokens fileids = Some (Inr (s\<lparr>version := ver\<rparr>, L, M))
      \<and> length M \<le> total_ids tokens fileids"
    by (rule SetupClient_total [OF s ver files])
  then have "cl' = s\<lparr>version := ver\<rparr>" "length M \<le> total_ids tokens fileids"
    using assms by auto
  then show ?thesis using ver s files by blast
qed

lemma length_setup_ids_le: "length (setup_ids tokens fileids w) \<le> total_ids tokens fileids"
proof (cases "w \<in> set tokens")
  case True
  then have "length (setup_ids tokens fileids w) \<in> set (map (\<lambda>w. length (setup_ids tokens fileids w)) tokens)"
    by simp
  then show ?thesis unfolding total_ids_def by (rule member_le_sum_list) simp
qed (simp add: setup_ids_def)

end
