(* ===== verification/Toy.thy ===== *)
theory Toy
  imports Session Totality
begin

text \<open>
  A concrete instance of the primitives, used by the witnesses of the other theories: a
  keyed function of 32 bytes that writes down its message and the start of its key, and a
  block function that XORs with the key. Neither is secure, which no hypothesis asks for;
  the first has no collision among the calls an index over short tokens makes.
\<close>

definition front :: "bytes \<Rightarrow> bytes" where
  "front xs = take 16 (xs @ replicate 16 0)"

definition toy_mac :: "bytes \<Rightarrow> bytes \<Rightarrow> bytes" where
  "toy_mac k m = front (of_nat (length m) # m) @ front k"

definition toy :: prims where
  "toy = \<lparr>hmac_sha256 = toy_mac, aes_block = (\<lambda>k b. map2 (XOR) (front k) b)\<rparr>"

lemma hmac_toy [simp]: "hmac_sha256 toy = toy_mac"
  by (simp add: toy_def)

lemma length_front [simp]: "length (front xs) = 16"
  by (simp add: front_def min_def)

lemma front_toy_mac [simp]: "front (toy_mac k m) = front (of_nat (length m) # m)"
  by (simp add: toy_mac_def front_def [of "x @ y" for x y])

lemma length_toy_mac [simp]: "length (toy_mac k m) = 32"
  by (simp add: toy_mac_def)

lemma prims_ok_toy: "prims_ok toy"
  by (simp add: prims_ok_def sizes toy_def)

lemma toy_mac_eq_iff:
  "toy_mac k m = toy_mac k' m' \<longleftrightarrow>
     front (of_nat (length m) # m) = front (of_nat (length m') # m') \<and> front k = front k'"
  by (simp add: toy_mac_def append_eq_append_conv)

lemma hd_front: "hd (front (x # xs)) = x"
  by (simp add: front_def take_Cons')

lemma toy_mac_message:
  assumes eq: "front (of_nat (length m) # m) = front (of_nat (length m') # m')"
    and len: "length m < 16" "length m' < 16"
  shows "m = m'"
proof -
  have first: "(of_nat (length m) :: byte) = of_nat (length m')"
    using arg_cong [OF eq, of hd] by (simp only: hd_front)
  have "unat (of_nat (length m) :: byte) = length m" "unat (of_nat (length m') :: byte) = length m'"
    using len by (simp_all add: unat_of_nat)
  then have same: "length m = length m'" using first by metis
  have "take 15 (m @ replicate 16 0) = take 15 (m' @ replicate 16 0)"
    using arg_cong [OF eq, of tl] by (simp add: front_def take_Cons')
  then have "take (length m) (take 15 (m @ replicate 16 0)) = take (length m) (take 15 (m' @ replicate 16 0))"
    by (rule arg_cong)
  then show ?thesis using same len by (simp add: min_def)
qed

lemma inj_toy_mac: "inj (mac_long toy k)"
proof (rule injI)
  fix x y assume "mac_long toy k x = mac_long toy k y"
  then have "front (of_nat (length (putu64 x)) # putu64 x) = front (of_nat (length (putu64 y)) # putu64 y)"
    unfolding mac_long_def hmac_toy toy_mac_eq_iff by (rule conjunct1)
  then have "putu64 x = putu64 y" by (rule toy_mac_message) simp_all
  then show "x = y" by (rule putu64_inj)
qed

lemma length_c_str_le: "length (c_str w) \<le> length w"
  by (simp add: c_str_def length_takeWhile_le)

text \<open>The first byte of a derived key is a message length, below the master keys used here.\<close>

lemma toy_mac_cf:
  assumes short: "\<And>w. w \<in> W \<Longrightarrow> length w \<le> 14" and mk: "mk = m0 # ms" "20 < m0"
  shows "mac_cf toy mk W"
proof -
  have len: "length ([0x31] @ c_str w) < 16" if "w \<in> W" for w
    using short [OF that] length_c_str_le [of w] by simp
  have master: "front mk \<noteq> front (toy_mac mk ([0x31] @ c_str w))" if w: "w \<in> W" for w
  proof
    assume "front mk = front (toy_mac mk ([0x31] @ c_str w))"
    then have "m0 = of_nat (length ([0x31 :: byte] @ c_str w))"
      unfolding front_toy_mac mk(1) by (metis hd_front)
    then have "unat m0 = length ([0x31 :: byte] @ c_str w)"
      using len [OF w] by (simp only: unat_of_nat len_bit0 len_num1) simp
    with mk(2) len [OF w] show False by (simp add: word_less_nat_alt)
  qed
  have key: "toy_mac mk x = toy_mac mk y"
    if "front (toy_mac mk x) = front (toy_mac mk y)" for x y
    using that by (simp add: toy_mac_eq_iff)
  show ?thesis
    unfolding mac_cf_def hmac_toy
  proof (rule inj_onI)
    fix p q assume calls: "p \<in> mac_calls mk toy_mac W" "q \<in> mac_calls mk toy_mac W"
      and eq: "(\<lambda>(k, m). toy_mac k m) p = (\<lambda>(k, m). toy_mac k m) q"
    obtain k m k' m' where pq: "p = (k, m)" "q = (k', m')" by fastforce
    have "length m < 16" "length m' < 16"
      using calls len unfolding mac_calls_def pq by auto
    then have mm: "m = m'" and kk: "front k = front k'"
      using eq toy_mac_message [of m m'] by (auto simp: pq toy_mac_eq_iff)
    have "k = mk \<or> (\<exists>w \<in> W. k = toy_mac mk ([0x31] @ c_str w))"
      "k' = mk \<or> (\<exists>w \<in> W. k' = toy_mac mk ([0x31] @ c_str w))"
      using calls unfolding mac_calls_def pq by auto
    then have "k = k'"
      using kk key master by (elim disjE bexE) (metis, metis, metis, metis)
    with mm show "p = q" by (simp add: pq)
  qed
qed

text \<open>A device that delivers what it is asked for, always the byte \<open>b\<close>.\<close>

definition toy_dev :: "byte \<Rightarrow> urandom" where
  "toy_dev b = Some (\<lambda>i n. replicate n b)"

lemma random_key_toy: "random_key (toy_dev b) = Some (Inr (replicate KEYLEN b))"
proof -
  have "random_loop (\<lambda>i n. replicate n b) 0 KEYLEN [] = Some (replicate KEYLEN b)"
    by (subst random_loop.simps, subst random_loop.simps) (simp add: sizes)
  then show ?thesis by (simp add: random_key_def random_bytes_def toy_dev_def)
qed

definition toy_devs :: "urandom \<times> urandom \<times> urandom" where
  "toy_devs = (toy_dev 0x21, toy_dev 0x22, toy_dev 0x23)"

definition toy_keys :: core where
  "toy_keys = new_core\<lparr>key := replicate KEYLEN 0x21, kplus := replicate KEYLEN 0x22,
     kminus := replicate KEYLEN 0x23\<rparr>"

lemma draw_keys_toy: "draw_keys toy_devs new_core = Some (Inr toy_keys)"
  by (simp add: draw_keys_def toy_devs_def random_key_toy toy_keys_def)

lemma toy_keys_cf:
  assumes "\<And>w. w \<in> W \<Longrightarrow> nul_free w \<and> length w \<le> 14"
    and "key cl = key toy_keys" "kplus cl = kplus toy_keys" "kminus cl = kminus toy_keys"
  shows "keys_cf toy W cl"
proof -
  have "mac_cf toy (replicate KEYLEN b) W" if "20 < b" for b
  proof (rule toy_mac_cf)
    show "replicate KEYLEN b = b # replicate (KEYLEN - 1) b"
      by (simp add: KEYLEN_def replicate_Suc [symmetric] del: replicate_Suc)
  qed (use assms(1) that in auto)
  then have "mac_cf toy (replicate KEYLEN 0x21) W" "mac_cf toy (replicate KEYLEN 0x22) W"
    "mac_cf toy (replicate KEYLEN 0x23) W"
    by simp_all
  then show ?thesis
    using assms(1) unfolding keys_cf_def assms(2-4) toy_keys_def by simp
qed

text \<open>Two tokens and their files.\<close>

definition cat :: bytes where "cat = [0x63, 0x61, 0x74]"
definition dog :: bytes where "dog = [0x64, 0x6f, 0x67]"

definition toy_tokens :: "bytes list" where "toy_tokens = [cat, dog]"

definition toy_files :: filemap where
  "toy_files = [(cat, [1, 2, 3, 4, 5, 6, 7]), (dog, [2])]"

lemma toy_words: "w \<in> {cat, dog} \<Longrightarrow> nul_free w \<and> length w \<le> 14"
  by (auto simp: cat_def dog_def nul_free_def)

lemma toy_at: "om_lookup toy_files cat = Some [1, 2, 3, 4, 5, 6, 7]" "om_lookup toy_files dog = Some [2]"
  by (simp_all add: toy_files_def cat_def dog_def)

lemma toy_count: "w \<in> set toy_tokens \<Longrightarrow> om_count toy_files w"
  by (auto simp: toy_tokens_def om_count_def toy_at)

lemma toy_setup:
  assumes "ver \<in> {Basic, Packed, Pointer}"
  shows "\<exists>L M. SetupClient toy toy_devs new_core ver toy_tokens toy_files
    = Some (Inr (toy_keys\<lparr>version := ver\<rparr>, L, M))"
  using SetupClient_total [OF draw_keys_toy assms toy_count] by blast

lemma toy_keys_version_cf: "keys_cf toy {cat, dog} (toy_keys\<lparr>version := ver\<rparr>)"
  by (rule toy_keys_cf) (use toy_words in auto)

lemma toy_ids: "setup_ids toy_tokens toy_files cat = [1, 2, 3, 4, 5, 6, 7]"
  "setup_ids toy_tokens toy_files dog = [2]"
  by (simp_all add: setup_ids_def toy_at) (simp_all add: toy_tokens_def)

lemma toy_total: "total_ids toy_tokens toy_files = 8"
  using toy_ids by (simp add: total_ids_def toy_tokens_def)

lemma toy_valid: "w \<in> set toy_tokens \<Longrightarrow> INVALID \<notin> set (setup_ids toy_tokens toy_files w)"
  using toy_ids by (auto simp: toy_tokens_def INVALID_def)

lemma dcount_new [simp]: "dcount new_core w = 0"
  by (simp add: dcount_def new_core_def)

lemma dcount_toy [simp]: "dcount (toy_keys\<lparr>version := ver\<rparr>) w = 0"
  by (simp add: dcount_def new_core_def toy_keys_def)

lemma os_inv_new [simp]: "os_inv (Srev new_core)" "set (Srev new_core) = {}"
  by (simp_all add: new_core_def os_inv_empty)

lemma toy_represents:
  assumes "ver \<in> {Basic, Packed, Pointer}"
  shows "\<exists>L M. represents toy {cat, dog} (toy_keys\<lparr>version := ver\<rparr>) (SetupServer new_core ver L M)
    (setup_index toy (toy_keys\<lparr>version := ver\<rparr>) new_core toy_tokens toy_files)"
proof -
  obtain L M where run: "SetupClient toy toy_devs new_core ver toy_tokens toy_files
      = Some (Inr (toy_keys\<lparr>version := ver\<rparr>, L, M))"
    using toy_setup [OF assms] by blast
  have "length M < 2 ^ 64" using SetupClient_returned [OF run] toy_total by simp
  moreover have "length (setup_ids toy_tokens toy_files w) < 2 ^ 64" for w
    using length_setup_ids_le [of toy_tokens toy_files w] toy_total by simp
  ultimately have "represents toy {cat, dog} (toy_keys\<lparr>version := ver\<rparr>) (SetupServer new_core ver L M)
      (setup_index toy (toy_keys\<lparr>version := ver\<rparr>) new_core toy_tokens toy_files)"
    using toy_valid by (intro represents_setup [OF run _ toy_keys_version_cf]) (auto simp: toy_tokens_def)
  then show ?thesis by blast
qed

end
