(* ===== verification/Messages.thy ===== *)
theory Messages
  imports Update
begin

text \<open>
  The messages of \<open>src/dsse.proto\<close> as the generated classes present them, the wire format
  as a parameter, and the two socket types the program uses (\<open>ZMQ_REP\<close> on the server,
  \<open>ZMQ_REQ\<close> on the client) as the state machines of \<open>rep.cpp\<close> and \<open>req.cpp\<close>.
\<close>

section \<open>Messages\<close>

record search_msg =
  k1 :: bytes
  k2 :: bytes
  k1plus :: bytes
  k2plus :: bytes
  k1minus :: bytes

text \<open>
  An optional field that is absent reads as its default, the empty string, so it is not
  told apart from an empty one. The repeated field \<open>L\<close> of \<open>Setup\<close> is a list of pairs.
\<close>

datatype request_body =
    SetupMsg "setup_pair list" "bytes list"
  | SearchMsg search_msg
  | AddMsg "add_pair list"
  | DeleteMsg "bytes list"
  | NoMsg

record request =
  body :: request_body
  rq_version :: int

text \<open>A new \<open>Request\<close>: the default of \<open>version\<close> is \<open>Basic\<close>.\<close>

definition request_of :: "request_body \<Rightarrow> request" where
  "request_of b = \<lparr>body = b, rq_version = 0\<rparr>"

datatype reply_msg = SetupResult | SearchResult | AddResult "bool list" | DeleteResult | NoResult

text \<open>\<open>result.add().r()\<close>: the default instance when another message is set.\<close>

fun result_add :: "reply_msg \<Rightarrow> bool list" where
  "result_add (AddResult r) = r"
| "result_add _ = []"

section \<open>The wire format\<close>

text \<open>
  Protocol Buffers, generated and linked: serializing may fail (a message too large),
  parsing may fail; what was serialized parses back (\<open>wire_ok\<close>), a request if its version
  is one of the enum. Ids travel as \<open>int64\<close>, which keeps their 64 bits.
\<close>

record wire =
  ser_request :: "request \<Rightarrow> bytes option"
  parse_request :: "bytes \<Rightarrow> request option"
  ser_search :: "u64 list \<Rightarrow> bytes option"
  parse_search :: "bytes \<Rightarrow> u64 list option"
  ser_result :: "reply_msg \<Rightarrow> bytes option"
  parse_result :: "bytes \<Rightarrow> reply_msg option"

definition enum_version :: "int \<Rightarrow> bool" where
  "enum_version v \<longleftrightarrow> v \<in> {Basic, Packed, Pointer, TwoLevelPointer}"

lemma enum_versions [simp]:
  "enum_version 0" "enum_version Basic" "enum_version Packed" "enum_version Pointer" "enum_version TwoLevelPointer"
  by (simp_all add: enum_version_def versions)

definition wire_ok :: "wire \<Rightarrow> bool" where
  "wire_ok F \<longleftrightarrow> (\<forall>x b. enum_version (rq_version x) \<longrightarrow> ser_request F x = Some b \<longrightarrow> parse_request F b = Some x)
     \<and> (\<forall>x b. ser_search F x = Some b \<longrightarrow> parse_search F b = Some x)
     \<and> (\<forall>x b. ser_result F x = Some b \<longrightarrow> parse_result F b = Some x)"

section \<open>Sockets\<close>

text \<open>
  A REP socket receives and sends in turn; out of turn \<open>zmq_msg_send\<close> and \<open>zmq_msg_recv\<close>
  fail with EFSM, and the wrappers of \<open>zmq.hpp\<close> throw. \<open>outbox\<close> is what was sent. Messages
  have one part; the frames around it that the two functions write and strip, and the
  options the program does not set, are left out.
\<close>

record rep_socket =
  sending_reply :: bool
  outbox :: "bytes list"

definition rep_new :: rep_socket where
  "rep_new = \<lparr>sending_reply = False, outbox = []\<rparr>"

definition rep_send :: "bytes \<Rightarrow> rep_socket \<Rightarrow> err + rep_socket" where
  "rep_send b s =
     (if \<not> sending_reply s then Inl ZmqError
      else Inr (s\<lparr>outbox := outbox s @ [b], sending_reply := False\<rparr>))"

definition rep_recv :: "rep_socket \<Rightarrow> err + rep_socket" where
  "rep_recv s = (if sending_reply s then Inl ZmqError else Inr (s\<lparr>sending_reply := True\<rparr>))"

text \<open>A REQ socket sends and receives in turn.\<close>

record req_socket =
  receiving_reply :: bool

definition req_new :: req_socket where
  "req_new = \<lparr>receiving_reply = False\<rparr>"

definition req_send :: "req_socket \<Rightarrow> err + req_socket" where
  "req_send s = (if receiving_reply s then Inl ZmqError else Inr (s\<lparr>receiving_reply := True\<rparr>))"

definition req_recv :: "req_socket \<Rightarrow> err + req_socket" where
  "req_recv s = (if \<not> receiving_reply s then Inl ZmqError else Inr (s\<lparr>receiving_reply := False\<rparr>))"

end
