(* ===== verification/Istream.thy ===== *)
theory Istream
  imports Bytes
begin

text \<open>
  What \<open>storage.cpp\<close> uses of the C++ streams, with the behaviour of the standard library
  in the "C" locale: \<open>operator>>\<close> on \<open>char\<close>, \<open>uint64_t\<close> and \<open>int\<close>, \<open>read\<close>, the eof and
  fail bits, and \<open>operator<<\<close> of decimal numbers; and the netstrings written with them
  (\<open>writeString\<close>, \<open>readString\<close>). Reading errors of the device (the bad bit) do not occur.
\<close>

section \<open>Streams\<close>

record istream =
  buf :: bytes
  eofbit :: bool
  failbit :: bool

definition istream_on :: "bytes \<Rightarrow> istream" where
  "istream_on bs = \<lparr>buf = bs, eofbit = False, failbit = False\<rparr>"

definition good :: "istream \<Rightarrow> bool" where
  "good s \<longleftrightarrow> \<not> eofbit s \<and> \<not> failbit s"

definition is_space :: "byte \<Rightarrow> bool" where
  "is_space b \<longleftrightarrow> b = 32 \<or> (9 \<le> b \<and> b \<le> 13)"

definition is_digit :: "byte \<Rightarrow> bool" where
  "is_digit b \<longleftrightarrow> 48 \<le> b \<and> b \<le> 57"

text \<open>The sentry of a formatted read: skip white space; nothing left means eof and fail.\<close>

definition skip_ws :: "istream \<Rightarrow> istream" where
  "skip_ws s =
     (if good s then
        (case dropWhile is_space (buf s) of
           [] \<Rightarrow> s\<lparr>buf := [], eofbit := True, failbit := True\<rparr>
         | b # bs \<Rightarrow> s\<lparr>buf := b # bs\<rparr>)
      else s\<lparr>failbit := True\<rparr>)"

text \<open>\<open>in >> c\<close>: \<open>None\<close> when \<open>c\<close> is left as it was.\<close>

definition read_char :: "istream \<Rightarrow> byte option \<times> istream" where
  "read_char s =
     (let s = skip_ws s in if good s then (Some (hd (buf s)), s\<lparr>buf := tl (buf s)\<rparr>) else (None, s))"

text \<open>\<open>in.read(p, n)\<close>: the bytes stored.\<close>

definition in_read :: "nat \<Rightarrow> istream \<Rightarrow> bytes \<times> istream" where
  "in_read n s =
     (if \<not> good s then ([], s\<lparr>failbit := True\<rparr>)
      else if length (buf s) < n then (buf s, s\<lparr>buf := [], eofbit := True, failbit := True\<rparr>)
      else (take n (buf s), s\<lparr>buf := drop n (buf s)\<rparr>))"

text \<open>The characters a number takes: sign, digits, and the rest of the buffer.\<close>

definition scan_number :: "bytes \<Rightarrow> bool \<times> bytes \<times> bytes" where
  "scan_number bs =
     (case bs of
        [] \<Rightarrow> (False, [], [])
      | b # bs' \<Rightarrow>
          if b = 0x2D then (True, takeWhile is_digit bs', dropWhile is_digit bs')
          else if b = 0x2B then (False, takeWhile is_digit bs', dropWhile is_digit bs')
          else (False, takeWhile is_digit bs, dropWhile is_digit bs))"

definition dec_value :: "bytes \<Rightarrow> nat" where
  "dec_value ds = foldl (\<lambda>n d. 10 * n + (unat d - 48)) 0 ds"

text \<open>
  \<open>in >> v\<close> for a \<open>uint64_t\<close> (or \<open>size_t\<close>): the value stored, \<open>None\<close> when the sentry
  failed; no digits store 0, a number too large the maximum, both with the fail bit. A
  minus sign is taken and the value negated modulo \<open>2 ^ 64\<close>, as \<open>strtoull\<close> does.
\<close>

definition read_u64 :: "istream \<Rightarrow> u64 option \<times> istream" where
  "read_u64 s =
     (let s = skip_ws s in
      if \<not> good s then (None, s)
      else let (neg, ds, rest) = scan_number (buf s); s = s\<lparr>buf := rest, eofbit := rest = []\<rparr> in
        if ds = [] then (Some 0, s\<lparr>failbit := True\<rparr>)
        else if 2 ^ 64 \<le> dec_value ds then (Some (- 1), s\<lparr>failbit := True\<rparr>)
        else (Some (if neg then - of_nat (dec_value ds) else of_nat (dec_value ds)), s))"

text \<open>\<open>in >> v\<close> for a 32-bit \<open>int\<close>, clamped with the fail bit when it does not fit.\<close>

definition read_int :: "istream \<Rightarrow> int option \<times> istream" where
  "read_int s =
     (let s = skip_ws s in
      if \<not> good s then (None, s)
      else let (neg, ds, rest) = scan_number (buf s); s = s\<lparr>buf := rest, eofbit := rest = []\<rparr>;
               v = (if neg then - int (dec_value ds) else int (dec_value ds)) in
        if ds = [] then (Some 0, s\<lparr>failbit := True\<rparr>)
        else if v < - (2 ^ 31) then (Some (- (2 ^ 31)), s\<lparr>failbit := True\<rparr>)
        else if 2 ^ 31 \<le> v then (Some (2 ^ 31 - 1), s\<lparr>failbit := True\<rparr>)
        else (Some v, s))"

text \<open>\<open>out << n\<close> for an unsigned and for an \<open>int\<close>.\<close>

fun dec :: "nat \<Rightarrow> bytes" where
  "dec n = (if n < 10 then [48 + of_nat n] else dec (n div 10) @ [48 + of_nat (n mod 10)])"

declare dec.simps [simp del]

definition dec_int :: "int \<Rightarrow> bytes" where
  "dec_int v = (if v < 0 then 0x2D # dec (nat (- v)) else dec (nat v))"

section \<open>Decimal numbers\<close>

lemma digit_byte: "d < 10 \<Longrightarrow> is_digit (48 + of_nat d) \<and> unat (48 + of_nat d :: byte) = 48 + d"
proof -
  assume d: "d < 10"
  then have "unat (48 + of_nat d :: byte) = 48 + d"
    by (simp add: unat_word_ariths unat_of_nat)
  with d show ?thesis by (simp add: is_digit_def word_le_nat_alt)
qed

lemma dec_digits: "\<forall>b \<in> set (dec n). is_digit b"
proof (induction n rule: dec.induct)
  case (1 n)
  show ?case
    using 1 digit_byte [of n] digit_byte [of "n mod 10"] by (subst dec.simps) auto
qed

lemma dec_not_Nil [simp]: "dec n \<noteq> []"
  by (subst dec.simps) simp

lemma dec_value_snoc: "dec_value (ds @ [d]) = 10 * dec_value ds + (unat d - 48)"
  by (simp add: dec_value_def)

lemma dec_value_dec: "dec_value (dec n) = n"
proof (induction n rule: dec.induct)
  case (1 n)
  show ?case
  proof (cases "n < 10")
    case True
    then show ?thesis
      using digit_byte [of n] by (subst dec.simps) (simp add: dec_value_def)
  next
    case False
    then have "dec_value (dec n) = 10 * (n div 10) + (unat (48 + of_nat (n mod 10) :: byte) - 48)"
      using 1 by (subst dec.simps) (simp add: dec_value_snoc)
    also have "\<dots> = 10 * (n div 10) + n mod 10"
      using digit_byte [of "n mod 10"] by simp
    finally show ?thesis by simp
  qed
qed

lemma digit_not_space: "is_digit b \<Longrightarrow> \<not> is_space b"
  by (auto simp: is_digit_def is_space_def word_le_nat_alt)

lemma digit_not_sign: "is_digit b \<Longrightarrow> b \<noteq> 0x2D \<and> b \<noteq> 0x2B"
  by (auto simp: is_digit_def word_le_nat_alt)

text \<open>What follows the digits of a number, if anything, is no digit.\<close>

definition ends_number :: "bytes \<Rightarrow> bool" where
  "ends_number rest \<longleftrightarrow> rest = [] \<or> \<not> is_digit (hd rest)"

lemma take_digits:
  assumes "\<forall>b \<in> set ds. is_digit b" "ends_number rest"
  shows "takeWhile is_digit (ds @ rest) = ds" "dropWhile is_digit (ds @ rest) = rest"
  using assms by (induction ds) (cases rest; auto simp: ends_number_def)+

lemma dec_Cons: "\<exists>b bs. dec n = b # bs \<and> is_digit b"
  using dec_digits [of n] by (cases "dec n") auto

lemma scan_number_dec: "ends_number rest \<Longrightarrow> scan_number (dec n @ rest) = (False, dec n, rest)"
  using dec_Cons [of n] take_digits [OF dec_digits, of rest n] digit_not_sign
  by (auto simp: scan_number_def)

lemma scan_number_neg:
  "ends_number rest \<Longrightarrow> scan_number (0x2D # dec n @ rest) = (True, dec n, rest)"
  using take_digits [OF dec_digits, of rest n] by (simp add: scan_number_def)

lemma good_istream_on [simp]: "good (istream_on bs)" "buf (istream_on bs) = bs"
  "\<not> eofbit (istream_on bs)" "\<not> failbit (istream_on bs)"
  by (simp_all add: istream_on_def good_def)

lemma skip_ws_spaces:
  "\<forall>b \<in> set ws. is_space b \<Longrightarrow> bs \<noteq> [] \<Longrightarrow> \<not> is_space (hd bs) \<Longrightarrow>
   skip_ws (istream_on (ws @ bs)) = istream_on bs"
  by (cases bs) (simp_all add: skip_ws_def istream_on_def good_def dropWhile_append)

lemma skip_ws_end:
  "\<forall>b \<in> set ws. is_space b \<Longrightarrow>
   skip_ws (istream_on ws) = \<lparr>buf = [], eofbit = True, failbit = True\<rparr>"
proof -
  assume "\<forall>b \<in> set ws. is_space b"
  then have "dropWhile is_space ws = []" by (simp add: dropWhile_eq_Nil_conv)
  then show ?thesis by (simp only: skip_ws_def good_istream_on list.case if_True) (simp add: istream_on_def)
qed

lemma skip_ws_here: "\<not> is_space b \<Longrightarrow> skip_ws (istream_on (b # bs)) = istream_on (b # bs)"
  by (simp add: skip_ws_def istream_on_def good_def)

lemma read_u64_dec:
  assumes "\<forall>b \<in> set ws. is_space b" "n < 2 ^ 64" "ends_number rest"
  shows "read_u64 (istream_on (ws @ dec n @ rest))
    = (Some (of_nat n), \<lparr>buf = rest, eofbit = rest = [], failbit = False\<rparr>)"
proof -
  obtain b bs where b: "dec n @ rest = b # bs" "is_digit b" using dec_Cons [of n] by fastforce
  have "skip_ws (istream_on (ws @ dec n @ rest)) = istream_on (dec n @ rest)"
    using b digit_not_space by (intro skip_ws_spaces [OF assms(1)]) simp_all
  then show ?thesis
    using assms scan_number_dec [OF assms(3), of n]
    by (simp add: read_u64_def dec_value_dec Let_def)
qed

lemma read_int_dec:
  assumes "- (2 ^ 31) \<le> v" "v < 2 ^ 31"
  shows "read_int (istream_on (dec_int v)) = (Some v, \<lparr>buf = [], eofbit = True, failbit = False\<rparr>)"
proof -
  have nil: "ends_number []" by (simp add: ends_number_def)
  obtain b bs where b: "dec_int v = b # bs" "\<not> is_space b"
    using dec_Cons [of "nat v"] digit_not_space
    by (cases "v < 0") (auto simp: dec_int_def is_space_def word_le_nat_alt)
  have "scan_number (dec_int v) = (v < 0, dec (nat \<bar>v\<bar>), [])"
    using scan_number_neg [OF nil, of "nat (- v)"] scan_number_dec [OF nil, of "nat v"]
    by (simp add: dec_int_def)
  then show ?thesis
    using assms skip_ws_here [OF b(2), of bs]
    by (simp add: read_int_def b(1) [symmetric] dec_value_dec Let_def)
qed

section \<open>Netstrings\<close>

definition writeString :: "bytes \<Rightarrow> bytes" where
  "writeString s = dec (length s) @ [0x3A] @ s @ [0x2C]"

text \<open>
  \<open>std::string(size, '\0')\<close> throws \<open>std::length_error\<close> for a size above \<open>max_size()\<close> and
  \<open>std::bad_alloc\<close> where there is no memory for it. The address space of a process of
  x86-64 ends at \<open>2 ^ 47\<close>, so no string is that long; for shorter ones the model takes it
  that there is memory.
\<close>

definition too_long :: "nat \<Rightarrow> bool" where
  "too_long n \<longleftrightarrow> 2 ^ 47 \<le> n"

declare too_long_def [simp]

text \<open>The result, the string (\<open>s0\<close> when it was not assigned), the stream; or the exception.\<close>

definition readString :: "istream \<Rightarrow> bytes \<Rightarrow> err + bool \<times> bytes \<times> istream" where
  "readString i s0 =
     (let (sz, i) = read_u64 i in
      if eofbit i then Inr (True, [], i)
      else if failbit i then Inr (False, s0, i)
      else let (c0, i) = read_char i in
      if failbit i then Inr (False, s0, i)
      else if too_long (unat (the sz)) then Inl LengthError
      else let n = unat (the sz); (got, i) = in_read n i; s = got @ replicate (n - length got) 0;
               (c1, i) = read_char i in
      if failbit i then Inr (False, s, i)
      else Inr (c0 = Some 0x3A \<and> c1 = Some 0x2C, s, i))"

lemma read_char_here: "\<not> is_space b \<Longrightarrow> read_char (istream_on (b # bs)) = (Some b, istream_on bs)"
  by (simp add: read_char_def skip_ws_here)

lemma in_read_exact: "length xs = n \<Longrightarrow> in_read n (istream_on (xs @ rest)) = (xs, istream_on rest)"
  by (simp add: in_read_def)

lemma readString_writeString:
  assumes "\<forall>b \<in> set ws. is_space b" "length s < 2 ^ 47"
  shows "readString (istream_on (ws @ writeString s @ rest)) s0 = Inr (True, s, istream_on rest)"
proof -
  let ?r = "[0x3A] @ s @ [0x2C] @ rest"
  have r: "ends_number ?r" "?r \<noteq> []"
    by (simp_all add: ends_number_def is_digit_def word_le_nat_alt)
  have "read_u64 (istream_on (ws @ writeString s @ rest)) = (Some (of_nat (length s)), istream_on ?r)"
    using read_u64_dec [OF assms(1) _ r(1), of "length s"] assms(2) by (simp add: writeString_def)
  moreover have "read_char (istream_on ?r) = (Some 0x3A, istream_on (s @ [0x2C] @ rest))"
    by (simp add: read_char_here is_space_def word_le_nat_alt)
  moreover have "in_read (length s) (istream_on (s @ [0x2C] @ rest)) = (s, istream_on ([0x2C] @ rest))"
    by (rule in_read_exact) simp
  moreover have "read_char (istream_on ([0x2C] @ rest)) = (Some 0x2C, istream_on rest)"
    by (simp add: read_char_here is_space_def word_le_nat_alt)
  moreover have "unat (of_nat (length s) :: u64) = length s" "\<not> too_long (length s)"
    using assms(2) by (simp_all add: unat_of_nat_u64)
  ultimately show ?thesis by (simp add: readString_def del: too_long_def)
qed

lemma readString_end:
  "\<forall>b \<in> set ws. is_space b \<Longrightarrow>
   readString (istream_on ws) s0 = Inr (True, [], \<lparr>buf = [], eofbit = True, failbit = True\<rparr>)"
  by (simp add: readString_def read_u64_def skip_ws_end good_def)

end
