(* ===== verification/Storage.thy ===== *)
theory Storage
  imports Istream Setup
begin

text \<open>
  The files of \<open>src/storage.cpp\<close>: for each kind of file what is written and how it is
  read back. All readers are a \<open>for (;;)\<close> over the records of the file; the loop body is
  a definition of its own, the loop is shared. The locale \<open>record_file\<close> is the contract
  between a writer and a reader; each pair of functions is an interpretation of it.
\<close>

section \<open>Reading loops\<close>

text \<open>
  A loop body returns \<open>Some ok\<close> where the code leaves the loop, \<open>None\<close> to go on; it may throw.
  \<open>loaded\<close>, the result of a loop: \<open>None\<close> if it did not end, an exception, or what the
  function returned and what it had read by then.
\<close>

type_synonym 'm body = "istream \<Rightarrow> 'm \<Rightarrow> err + bool option \<times> 'm \<times> istream"
type_synonym 'm loaded = "(err + bool \<times> 'm) option"

partial_function (option) read_loop :: "'m body \<Rightarrow> istream \<Rightarrow> 'm \<Rightarrow> (err + bool \<times> 'm) option" where
  "read_loop step i m =
     (case step i m of
        Inl e \<Rightarrow> Some (Inl e)
      | Inr (Some ok, m', i') \<Rightarrow> Some (Inr (ok, m'))
      | Inr (None, m', i') \<Rightarrow> read_loop step i' m')"

text \<open>A stream that has failed has come to its end; every loop keeps this.\<close>

definition readable :: "istream \<Rightarrow> bool" where
  "readable i \<longleftrightarrow> (failbit i \<longrightarrow> eofbit i)"

lemma readable_istream_on [simp]: "readable (istream_on bs)"
  by (simp add: readable_def)

text \<open>The size of a stream, for the induction over reading loops: what is left to read.\<close>

instantiation istream_ext :: (type) size
begin

definition size_istream_ext :: "'a istream_scheme \<Rightarrow> nat" where
  "size_istream_ext i = length (buf i)"

instance ..

end

declare size_istream_ext_def [simp]

text \<open>Every loop comes to an end: with an exception, or with what it returned.\<close>

definition load_ends :: "'a loaded \<Rightarrow> bool" where
  "load_ends r \<longleftrightarrow> r = Some (Inl LengthError) \<or> (\<exists>ok m. r = Some (Inr (ok, m)))"

lemma load_ends_returned [simp]: "load_ends (Some (Inr x))"
  by (cases x) (simp add: load_ends_def)

locale record_file =
  fixes step :: "'m body" and valid :: "'r \<Rightarrow> bool" and enc :: "'r \<Rightarrow> bytes" and sep :: bytes
    and add :: "'r \<Rightarrow> 'm \<Rightarrow> 'm" and fin :: "'m \<Rightarrow> 'm"
  assumes step_record: "valid r \<Longrightarrow> ws \<in> {[], sep} \<Longrightarrow>
      step (istream_on (ws @ enc r @ sep @ rest)) m = Inr (None, add r m, istream_on (sep @ rest))"
    and step_end: "ws \<in> {[], sep} \<Longrightarrow> \<exists>i. step (istream_on ws) m = Inr (Some True, fin m, i)"
    and progress: "readable i \<Longrightarrow> step i m = Inr (None, m', i') \<Longrightarrow>
      readable i' \<and> size i' < size i"
    and throws: "step i m = Inl e \<Longrightarrow> e = LengthError"
begin

lemma read_back_from:
  "(\<forall>r \<in> set rs. valid r) \<Longrightarrow> ws \<in> {[], sep} \<Longrightarrow>
   read_loop step (istream_on (ws @ concat (map (\<lambda>r. enc r @ sep) rs))) m
     = Some (Inr (True, fin (foldl (\<lambda>m r. add r m) m rs)))"
proof (induction rs arbitrary: ws m)
  case Nil
  then obtain i where "step (istream_on ws) m = Inr (Some True, fin m, i)" using step_end by blast
  then show ?case by (subst read_loop.simps) simp
next
  case (Cons r rs)
  let ?rest = "concat (map (\<lambda>r. enc r @ sep) rs)"
  have "step (istream_on (ws @ enc r @ sep @ ?rest)) m = Inr (None, add r m, istream_on (sep @ ?rest))"
    using Cons.prems by (intro step_record) simp_all
  moreover have "read_loop step (istream_on (sep @ ?rest)) (add r m)
      = Some (Inr (True, fin (foldl (\<lambda>m r. add r m) (add r m) rs)))"
    using Cons.prems by (intro Cons.IH) simp_all
  ultimately show ?case by (subst read_loop.simps) simp
qed

lemma read_back:
  "(\<forall>r \<in> set rs. valid r) \<Longrightarrow>
   read_loop step (istream_on (concat (map (\<lambda>r. enc r @ sep) rs))) m
     = Some (Inr (True, fin (foldl (\<lambda>m r. add r m) m rs)))"
  using read_back_from [of rs "[]" m] by simp

text \<open>Records, then something at which the body leaves the loop.\<close>

lemma read_until:
  "(\<forall>r \<in> set rs. valid r) \<Longrightarrow> ws \<in> {[], sep} \<Longrightarrow>
   (\<And>ws. ws \<in> {[], sep} \<Longrightarrow>
      \<exists>i. step (istream_on (ws @ tail)) (foldl (\<lambda>m r. add r m) m rs) = Inr (Some ok, m', i)) \<Longrightarrow>
   read_loop step (istream_on (ws @ concat (map (\<lambda>r. enc r @ sep) rs) @ tail)) m = Some (Inr (ok, m'))"
proof (induction rs arbitrary: ws m)
  case Nil
  then obtain i where "step (istream_on (ws @ tail)) m = Inr (Some ok, m', i)" by fastforce
  then show ?case by (subst read_loop.simps) simp
next
  case (Cons r rs)
  let ?rest = "concat (map (\<lambda>r. enc r @ sep) rs) @ tail"
  have "step (istream_on (ws @ enc r @ sep @ ?rest)) m = Inr (None, add r m, istream_on (sep @ ?rest))"
    using Cons.prems(1,2) by (intro step_record) simp_all
  moreover have "read_loop step (istream_on (sep @ ?rest)) (add r m) = Some (Inr (ok, m'))"
    using Cons.prems by (intro Cons.IH) simp_all
  ultimately show ?case by (subst read_loop.simps) simp
qed

text \<open>Whatever the file holds, the loop comes to an end.\<close>

lemma read_returns: "readable i \<Longrightarrow> load_ends (read_loop step i m)"
proof (induction "size i" arbitrary: i m rule: less_induct)
  case less
  show ?case
  proof (cases "step i m")
    case (Inl e)
    then show ?thesis using throws [OF Inl] by (subst read_loop.simps) (simp add: load_ends_def)
  next
    case (Inr r)
    obtain stop m' i' where fields: "step i m = Inr (stop, m', i')" using Inr by (metis prod_cases3)
    show ?thesis
    proof (cases stop)
      case None
      with fields progress [OF less.prems, of m m' i'] less.hyps [of i' m'] show ?thesis
        by (subst read_loop.simps) simp
    next
      case (Some ok)
      with fields show ?thesis by (subst read_loop.simps) simp
    qed
  qed
qed

end

section \<open>D and Dplus\<close>

definition map_bytes :: "(bytes, bytes) omap \<Rightarrow> bytes" where
  "map_bytes m = concat (map (\<lambda>(k, v). if length k = KEYLEN then k @ writeString v else []) m)"

definition readMap_body :: "(bytes, bytes) omap body" where
  "readMap_body i m =
     (let (got, i) = in_read KEYLEN i; k = got @ replicate (KEYLEN - length got) 0 in
      if eofbit i then Inr (Some True, m, i)
      else rbind (readString i []) (\<lambda>(ok, v, i).
        Inr (if \<not> ok \<or> eofbit i then (Some False, m, i) else (None, om_insert k v m, i))))"

section \<open>Dcount\<close>

definition count_bytes :: "(bytes, u64) omap \<Rightarrow> bytes" where
  "count_bytes m = concat (map (\<lambda>(k, v). writeString k @ dec (unat v) @ [10]) m)"

text \<open>When \<open>in >> v\<close> stores nothing the stream has failed, so \<open>v\<close> is not used.\<close>

definition readMapCount_body :: "(bytes, u64) omap body" where
  "readMapCount_body i m =
     rbind (readString i []) (\<lambda>(ok, token, i).
       Inr (if \<not> ok then (Some False, m, i)
            else if eofbit i then (Some True, m, i)
            else let (v, i) = read_u64 i in
            if failbit i then (Some False, m, i)
            else (None, om_insert token (the v) m, i)))"

section \<open>Srev\<close>

definition revlist_bytes :: "bytes oset \<Rightarrow> bytes" where
  "revlist_bytes m = concat (map (\<lambda>v. if length v = KEYLEN then v else []) m)"

definition readRevlist_body :: "bytes oset body" where
  "readRevlist_body i m =
     (let (got, i) = in_read KEYLEN i; v = got @ replicate (KEYLEN - length got) 0 in
      Inr (if eofbit i then (Some True, m, i) else (None, os_insert v m, i)))"

section \<open>fileidMap\<close>

definition fileidMap_bytes :: "(u64, bytes) omap \<Rightarrow> bytes" where
  "fileidMap_bytes m = concat (map (\<lambda>(k, v). dec (unat k) @ [32] @ writeString v @ [10]) m)"

text \<open>
  When the number is missing or too large the stream has failed but not ended, and
  \<open>readString\<close> then fails too, so the stored \<open>fileid\<close> is not used.
\<close>

definition readFileidMap_body :: "(u64, bytes) omap body" where
  "readFileidMap_body i m =
     (let (fileid, i) = read_u64 i in
      if eofbit i then Inr (Some True, m, i)
      else rbind (readString i []) (\<lambda>(ok, v, i).
        Inr (if \<not> ok \<or> eofbit i then (Some False, m, i) else (None, om_insert (the fileid) v m, i))))"

section \<open>A\<close>

definition blocks_bytes :: "bytes list \<Rightarrow> bytes" where
  "blocks_bytes bl = concat (map writeString bl)"

text \<open>
  The body for index \<open>n\<close>, the loop variable: an empty string is pushed, then \<open>A[n]\<close> is
  read into. The state of the loop is \<open>(A, n)\<close>.
\<close>

definition readBlocks_body :: "(bytes list \<times> nat) body" where
  "readBlocks_body i = (\<lambda>(bl, n).
     let bl = bl @ [[]] in
     rbind (readString i (bl ! n)) (\<lambda>(ok, s, i).
       let bl = bl[n := s] in
       Inr (if \<not> ok then (Some False, (bl, n), i)
            else if eofbit i then (Some True, (bl, n), i)
            else (None, (bl, Suc n), i))))"

section \<open>Progress\<close>

lemma skip_ws_cases:
  "good (skip_ws i) \<and> buf (skip_ws i) \<noteq> [] \<and> length (buf (skip_ws i)) \<le> length (buf i)
   \<or> failbit (skip_ws i) \<and> (readable i \<longrightarrow> eofbit (skip_ws i)) \<and> length (buf (skip_ws i)) \<le> length (buf i)"
proof (cases "good i")
  case False
  then show ?thesis by (auto simp: skip_ws_def readable_def good_def)
next
  case True
  define bs where "bs = dropWhile is_space (buf i)"
  have "length bs \<le> length (buf i)" unfolding bs_def by (rule length_dropWhile_le)
  moreover have "skip_ws i = (case bs of [] \<Rightarrow> i\<lparr>buf := [], eofbit := True, failbit := True\<rparr>
      | b # bs' \<Rightarrow> i\<lparr>buf := b # bs'\<rparr>)"
    using True by (simp add: skip_ws_def bs_def)
  ultimately show ?thesis using True by (cases bs) (auto simp: good_def)
qed

lemma scan_number_length: "scan_number bs = (neg, ds, rest) \<Longrightarrow> length rest + length ds \<le> length bs"
proof -
  assume eq: "scan_number bs = (neg, ds, rest)"
  have split: "length (takeWhile is_digit xs) + length (dropWhile is_digit xs) = length xs" for xs
    by (metis length_append takeWhile_dropWhile_id)
  show ?thesis
  proof (cases bs)
    case Nil
    with eq show ?thesis by (simp add: scan_number_def)
  next
    case (Cons b bs')
    with eq split [of bs] split [of bs'] show ?thesis
      by (auto simp: scan_number_def split: if_splits)
  qed
qed

lemma read_u64_progress:
  assumes "read_u64 i = (v, i')"
  shows "length (buf i') \<le> length (buf i)
    \<and> (\<not> failbit i' \<longrightarrow> length (buf i') < length (buf i) \<and> good (skip_ws i))"
proof (cases "good (skip_ws i)")
  case False
  then show ?thesis
    using assms skip_ws_cases [of i] by (auto simp: read_u64_def)
next
  case True
  obtain neg ds rest where sn: "scan_number (buf (skip_ws i)) = (neg, ds, rest)"
    by (metis prod_cases3)
  have "length rest + length ds \<le> length (buf i)"
    using scan_number_length [OF sn] skip_ws_cases [of i] by auto
  moreover have "\<not> failbit i' \<Longrightarrow> ds \<noteq> []" "buf i' = rest"
    using assms True sn by (auto simp: read_u64_def Let_def split: if_splits)
  ultimately show ?thesis using True by (cases ds) auto
qed

lemma read_char_progress: "read_char i = (c, i') \<Longrightarrow> length (buf i') \<le> length (buf i)"
  using skip_ws_cases [of i] by (auto simp: read_char_def Let_def split: if_splits)

lemma in_read_progress: "in_read n i = (got, i') \<Longrightarrow> length (buf i') \<le> length (buf i)"
  by (auto simp: in_read_def split: if_splits)

text \<open>A string that was read took at least its number, and the stream has not failed.\<close>

lemma readString_progress:
  assumes "readString i s0 = Inr (True, s, i')" "\<not> eofbit i'"
  shows "\<not> failbit i' \<and> length (buf i') < length (buf i)"
proof -
  obtain sz i1 where 1: "read_u64 i = (sz, i1)" by fastforce
  obtain c0 i2 where 2: "read_char i1 = (c0, i2)" by fastforce
  obtain got i3 where 3: "in_read (unat (the sz)) i2 = (got, i3)" by fastforce
  obtain c1 i4 where 4: "read_char i3 = (c1, i4)" by fastforce
  have i': "i' = i4 \<and> \<not> failbit i4 \<and> \<not> failbit i1"
    using assms by (auto simp: readString_def 1 2 3 4 Let_def split: if_splits)
  then show ?thesis
    using read_u64_progress [OF 1] read_char_progress [OF 2] in_read_progress [OF 3]
      read_char_progress [OF 4] by auto
qed

lemma readString_throws: "readString i s0 = Inl e \<Longrightarrow> e = LengthError"
  by (auto simp: readString_def Let_def split: prod.splits if_splits)

section \<open>Writers and readers fit\<close>

lemma readMap_step:
  assumes "length k = KEYLEN" "length v < 2 ^ 47"
  shows "readMap_body (istream_on (k @ writeString v @ rest)) m = Inr (None, om_insert k v m, istream_on rest)"
proof -
  have "in_read KEYLEN (istream_on (k @ writeString v @ rest)) = (k, istream_on (writeString v @ rest))"
    using assms(1) by (rule in_read_exact)
  moreover have "readString (istream_on (writeString v @ rest)) [] = Inr (True, v, istream_on rest)"
    using readString_writeString [of "[]" v rest] assms(2) by simp
  ultimately show ?thesis using assms(1) by (simp add: readMap_body_def)
qed

interpretation map_file: record_file readMap_body
  "\<lambda>(k, v). length k = KEYLEN \<and> length v < 2 ^ 47" "\<lambda>(k, v). k @ writeString v" "[]"
  "\<lambda>(k, v). om_insert k v" "\<lambda>m. m"
proof (unfold_locales, goal_cases)
  case (1 r ws rest m)
  then show ?case using readMap_step by (cases r) auto
next
  case (2 ws m)
  then show ?case by (auto simp: readMap_body_def in_read_def KEYLEN_def)
next
  case (3 i m m' i')
  obtain got i1 where 1: "in_read KEYLEN i = (got, i1)" by fastforce
  from 3(2) obtain ok v i2 where 2: "readString i1 [] = Inr (ok, v, i2)" "ok \<and> \<not> eofbit i2 \<and> i' = i2"
    by (auto simp: readMap_body_def 1 rbind_Inr_iff split: if_splits)
  then show ?case
    using readString_progress [of i1 "[]" v i2] in_read_progress [OF 1]
    by (auto simp: readable_def)
next
  case (4 i m e)
  then show ?case
    by (auto simp: readMap_body_def rbind_Inl_iff Let_def dest: readString_throws split: if_splits prod.splits)
qed

text \<open>A size that no string can have, behind a key.\<close>

lemma readString_size:
  assumes "2 ^ 47 \<le> n" "n < 2 ^ 64"
  shows "readString (istream_on (dec n @ 0x3A # rest)) s0 = Inl LengthError"
proof -
  have colon: "ends_number (0x3A # rest)" by (simp add: ends_number_def is_digit_def word_le_nat_alt)
  have "read_u64 (istream_on (dec n @ 0x3A # rest)) = (Some (of_nat n), istream_on (0x3A # rest))"
    using read_u64_dec [of "[]", OF _ assms(2) colon] by simp
  moreover have "read_char (istream_on (0x3A # rest)) = (Some 0x3A, istream_on rest)"
    by (simp add: read_char_here is_space_def word_le_nat_alt)
  moreover have "too_long (unat (of_nat n :: u64))" unfolding unat_of_nat_u64 [OF assms(2)] using assms(1) by simp
  ultimately show ?thesis by (simp add: readString_def del: too_long_def)
qed

lemma readMap_size:
  assumes "length k = KEYLEN" "2 ^ 47 \<le> n" "n < 2 ^ 64"
  shows "read_loop readMap_body (istream_on (k @ dec n @ 0x3A # rest)) m = Some (Inl LengthError)"
proof -
  have "in_read KEYLEN (istream_on (k @ dec n @ 0x3A # rest)) = (k, istream_on (dec n @ 0x3A # rest))"
    using assms(1) by (rule in_read_exact)
  then show ?thesis
    using readString_size [OF assms(2,3)] by (subst read_loop.simps) (simp add: readMap_body_def)
qed

lemma readMapCount_step:
  assumes "length k < 2 ^ 47" "ws \<in> {[], [10]}"
  shows "readMapCount_body (istream_on (ws @ (writeString k @ dec (unat v)) @ [10] @ rest)) m
    = Inr (None, om_insert k v m, istream_on ([10] @ rest))"
proof -
  have ws: "\<forall>b \<in> set ws. is_space b" using assms(2) by (auto simp: is_space_def)
  have "readString (istream_on (ws @ writeString k @ (dec (unat v) @ [10] @ rest))) []
      = Inr (True, k, istream_on (dec (unat v) @ [10] @ rest))"
    by (rule readString_writeString [OF ws assms(1)])
  moreover have "read_u64 (istream_on (dec (unat v) @ [10] @ rest)) = (Some v, istream_on ([10] @ rest))"
    using read_u64_dec [of "[]" "unat v" "[10] @ rest"] unat_less_u64 [of v]
    by (simp add: ends_number_def is_digit_def word_le_nat_alt istream_on_def)
  ultimately show ?thesis by (simp add: readMapCount_body_def)
qed

interpretation count_file: record_file readMapCount_body
  "\<lambda>(k, v). length k < 2 ^ 47" "\<lambda>(k, v). writeString k @ dec (unat v)" "[10]"
  "\<lambda>(k, v). om_insert k v" "\<lambda>m. m"
proof (unfold_locales, goal_cases)
  case (1 r ws rest m)
  then show ?case using readMapCount_step [of "fst r" ws "snd r" rest m] by (simp add: case_prod_beta)
next
  case (2 ws m)
  then have "\<forall>b \<in> set ws. is_space b" by (auto simp: is_space_def)
  then show ?case by (simp add: readMapCount_body_def readString_end)
next
  case (3 i m m' i')
  from 3(2) obtain ok token i1 v i2 where 1: "readString i [] = Inr (ok, token, i1)" and 2: "read_u64 i1 = (v, i2)"
      and "ok \<and> \<not> eofbit i1 \<and> i' = i2 \<and> \<not> failbit i2"
    by (auto simp: readMapCount_body_def rbind_Inr_iff split: if_splits prod.splits)
  then show ?case
    using readString_progress [of i "[]" token i1] read_u64_progress [OF 2]
    by (auto simp: readable_def)
next
  case (4 i m e)
  then show ?case
    by (auto simp: readMapCount_body_def rbind_Inl_iff Let_def dest: readString_throws split: if_splits prod.splits)
qed

interpretation revlist_file: record_file readRevlist_body
  "\<lambda>v. length v = KEYLEN" "\<lambda>v. v" "[]" os_insert "\<lambda>m. m"
proof (unfold_locales, goal_cases)
  case (1 r ws rest m)
  then show ?case by (simp add: readRevlist_body_def in_read_exact)
next
  case (2 ws m)
  then show ?case by (auto simp: readRevlist_body_def in_read_def KEYLEN_def)
next
  case (3 i m m' i')
  obtain got i1 where 1: "in_read KEYLEN i = (got, i1)" by fastforce
  have i: "\<not> eofbit i1" "i' = i1" using 3(2) by (auto simp: readRevlist_body_def 1 split: if_splits)
  show ?case
  proof (cases "good i")
    case True
    then show ?thesis
      using 1 i by (auto simp: in_read_def KEYLEN_def readable_def good_def split: if_splits)
  next
    case False
    then have "eofbit i" using 3(1) by (auto simp: good_def readable_def)
    with False 1 i show ?thesis by (auto simp: in_read_def)
  qed
next
  case (4 i m e)
  then show ?case by (auto simp: readRevlist_body_def split: prod.splits)
qed

lemma readFileidMap_step:
  assumes "length v < 2 ^ 47" "ws \<in> {[], [10]}"
  shows "readFileidMap_body (istream_on (ws @ (dec (unat k) @ [32] @ writeString v) @ [10] @ rest)) m
    = Inr (None, om_insert k v m, istream_on ([10] @ rest))"
proof -
  have ws: "\<forall>b \<in> set ws. is_space b" using assms(2) by (auto simp: is_space_def)
  let ?r = "[32] @ writeString v @ [10] @ rest"
  have "read_u64 (istream_on (ws @ dec (unat k) @ ?r)) = (Some k, istream_on ?r)"
    using read_u64_dec [OF ws, of "unat k" ?r] unat_less_u64 [of k]
    by (simp add: ends_number_def is_digit_def word_le_nat_alt istream_on_def)
  moreover have "readString (istream_on ?r) [] = Inr (True, v, istream_on ([10] @ rest))"
    by (rule readString_writeString [OF _ assms(1)]) (simp add: is_space_def)
  ultimately show ?thesis by (simp add: readFileidMap_body_def)
qed

interpretation fileidMap_file: record_file readFileidMap_body
  "\<lambda>(k, v). length v < 2 ^ 47" "\<lambda>(k, v). dec (unat k) @ [32] @ writeString v" "[10]"
  "\<lambda>(k, v). om_insert k v" "\<lambda>m. m"
proof (unfold_locales, goal_cases)
  case (1 r ws rest m)
  then show ?case using readFileidMap_step [of "snd r" ws "fst r" rest m] by (simp add: case_prod_beta)
next
  case (2 ws m)
  then have "\<forall>b \<in> set ws. is_space b" by (auto simp: is_space_def)
  then show ?case
    by (simp add: readFileidMap_body_def read_u64_def skip_ws_end good_def)
next
  case (3 i m m' i')
  obtain k i1 where 1: "read_u64 i = (k, i1)" by fastforce
  from 3(2) obtain ok v i2 where 2: "readString i1 [] = Inr (ok, v, i2)" "ok \<and> \<not> eofbit i2 \<and> i' = i2"
    by (auto simp: readFileidMap_body_def 1 rbind_Inr_iff split: if_splits)
  then show ?case
    using readString_progress [of i1 "[]" v i2] read_u64_progress [OF 1]
    by (auto simp: readable_def)
next
  case (4 i m e)
  then show ?case
    by (auto simp: readFileidMap_body_def rbind_Inl_iff Let_def dest: readString_throws split: if_splits prod.splits)
qed

interpretation blocks_file: record_file readBlocks_body
  "\<lambda>s. length s < 2 ^ 47" writeString "[]"
  "\<lambda>s (bl, n). ((bl @ [[]])[n := s], Suc n)" "\<lambda>(bl, n). ((bl @ [[]])[n := []], n)"
proof (unfold_locales, goal_cases)
  case (1 r ws rest m)
  then show ?case
    using readString_writeString [of "[]" r rest] by (cases m) (simp add: readBlocks_body_def)
next
  case (2 ws m)
  then show ?case
    using readString_end [of "[]"] by (cases m) (simp add: readBlocks_body_def)
next
  case (3 i m m' i')
  obtain bl n where m: "m = (bl, n)" by fastforce
  from 3(2) obtain ok s i1 where "readString i ((bl @ [[]]) ! n) = Inr (ok, s, i1)" "ok \<and> \<not> eofbit i1 \<and> i' = i1"
    by (auto simp: readBlocks_body_def m Let_def rbind_Inr_iff split: if_splits)
  then show ?case
    using readString_progress [of i "(bl @ [[]]) ! n" s i1] by (auto simp: readable_def)
next
  case (4 i m e)
  then show ?case
    by (auto simp: readBlocks_body_def rbind_Inl_iff Let_def dest: readString_throws split: if_splits prod.splits)
qed

end
