(* ===== verification/Disk.thy ===== *)
theory Disk
  imports Storage
begin

text \<open>
  The disk, the functions of \<open>storage.cpp\<close> that open files, and the four that save and
  load a \<open>Core\<close> (with the client's \<open>saveExtraState\<close>, \<open>loadExtraState\<close>). A file that can be
  opened for writing takes all that is written to it.
\<close>

section \<open>The disk\<close>

record disk =
  files :: "string \<Rightarrow> bytes option"
  mkdir_ok :: "string \<Rightarrow> bool" \<comment> \<open>\<open>mkdir\<close> succeeds or the directory is there\<close>
  wopen :: "string \<Rightarrow> bool" \<comment> \<open>the file can be opened for writing\<close>

definition write_file :: "string \<Rightarrow> bytes \<Rightarrow> disk \<Rightarrow> bool \<times> disk" where
  "write_file p bs d =
     (if wopen d p then (True, d\<lparr>files := (files d)(p \<mapsto> bs)\<rparr>) else (False, d))"

text \<open>\<open>if (!f()) { return false; }\<close> before the next step.\<close>

definition and_then :: "bool \<times> disk \<Rightarrow> (disk \<Rightarrow> bool \<times> disk) \<Rightarrow> bool \<times> disk" where
  "and_then r f = (case r of (ok, d) \<Rightarrow> if ok then f d else (False, d))"

definition load_then :: "'a loaded \<Rightarrow> ('a \<Rightarrow> 'a loaded) \<Rightarrow> 'a loaded" where
  "load_then r f = obind r (\<lambda>(ok, c). if ok then f c else Some (Inr (False, c)))"

lemma load_then_simps [simp]:
  "load_then (Some (Inr (True, c))) f = f c" "load_then (Some (Inr (False, c))) f = Some (Inr (False, c))"
  "load_then (Some (Inl e)) f = Some (Inl e)"
  by (simp_all add: load_then_def)

text \<open>A loop that reads one field of a state.\<close>

definition map_load :: "('a \<Rightarrow> 'b) \<Rightarrow> 'a loaded \<Rightarrow> 'b loaded" where
  "map_load f r = obind r (\<lambda>(ok, m). Some (Inr (ok, f m)))"

lemma map_load_simps [simp]:
  "map_load f (Some (Inr (ok, m))) = Some (Inr (ok, f m))" "map_load f (Some (Inl e)) = Some (Inl e)"
  by (simp_all add: map_load_def)

section \<open>Files\<close>

definition writeMap :: "string \<Rightarrow> (bytes, bytes) omap \<Rightarrow> disk \<Rightarrow> bool \<times> disk" where
  "writeMap p m = write_file p (map_bytes m)"

definition readMap :: "string \<Rightarrow> (bytes, bytes) omap \<Rightarrow> disk \<Rightarrow> (bytes, bytes) omap loaded" where
  "readMap p m d =
     (case files d p of None \<Rightarrow> Some (Inr (False, m))
      | Some bs \<Rightarrow> read_loop readMap_body (istream_on bs) m)"

definition writeMapCount :: "string \<Rightarrow> (bytes, u64) omap \<Rightarrow> disk \<Rightarrow> bool \<times> disk" where
  "writeMapCount p m = write_file p (count_bytes m)"

definition readMapCount :: "string \<Rightarrow> (bytes, u64) omap \<Rightarrow> disk \<Rightarrow> (bytes, u64) omap loaded" where
  "readMapCount p m d =
     (case files d p of None \<Rightarrow> Some (Inr (False, m))
      | Some bs \<Rightarrow> read_loop readMapCount_body (istream_on bs) m)"

definition writeRevlist :: "string \<Rightarrow> bytes oset \<Rightarrow> disk \<Rightarrow> bool \<times> disk" where
  "writeRevlist p m = write_file p (revlist_bytes m)"

definition readRevlist :: "string \<Rightarrow> bytes oset \<Rightarrow> disk \<Rightarrow> bytes oset loaded" where
  "readRevlist p m d =
     (case files d p of None \<Rightarrow> Some (Inr (False, m))
      | Some bs \<Rightarrow> read_loop readRevlist_body (istream_on bs) [])"

definition writeBytes :: "string \<Rightarrow> bytes \<Rightarrow> nat \<Rightarrow> disk \<Rightarrow> bool \<times> disk" where
  "writeBytes p bs n = write_file p (take n bs)"

definition readBytes :: "string \<Rightarrow> bytes \<Rightarrow> nat \<Rightarrow> disk \<Rightarrow> bool \<times> bytes" where
  "readBytes p old n d =
     (case files d p of None \<Rightarrow> (False, old)
      | Some bs \<Rightarrow> let (got, i) = in_read n (istream_on bs)
                   in (good i \<and> length got = n, write_prefix old got))"

definition writeFileidMap :: "string \<Rightarrow> (u64, bytes) omap \<Rightarrow> disk \<Rightarrow> bool \<times> disk" where
  "writeFileidMap p m = write_file p (fileidMap_bytes m)"

definition readFileidMap :: "string \<Rightarrow> (u64, bytes) omap \<Rightarrow> disk \<Rightarrow> (u64, bytes) omap loaded" where
  "readFileidMap p m d =
     (case files d p of None \<Rightarrow> Some (Inr (False, m))
      | Some bs \<Rightarrow> read_loop readFileidMap_body (istream_on bs) m)"

definition writeFileid :: "string \<Rightarrow> u64 \<Rightarrow> disk \<Rightarrow> bool \<times> disk" where
  "writeFileid p v = write_file p (dec (unat v))"

definition readFileid :: "string \<Rightarrow> u64 \<Rightarrow> disk \<Rightarrow> bool \<times> u64" where
  "readFileid p old d =
     (case files d p of None \<Rightarrow> (False, old)
      | Some bs \<Rightarrow> let (v, i) = read_u64 (istream_on bs)
                   in (\<not> failbit i, case v of None \<Rightarrow> old | Some x \<Rightarrow> x))"

definition writeInt :: "string \<Rightarrow> int \<Rightarrow> disk \<Rightarrow> bool \<times> disk" where
  "writeInt p v = write_file p (dec_int v)"

definition readInt :: "string \<Rightarrow> int \<Rightarrow> disk \<Rightarrow> bool \<times> int" where
  "readInt p old d =
     (case files d p of None \<Rightarrow> (False, old)
      | Some bs \<Rightarrow> let (v, i) = read_int (istream_on bs)
                   in (\<not> failbit i, case v of None \<Rightarrow> old | Some x \<Rightarrow> x))"

definition writeBlocks :: "string \<Rightarrow> bytes list \<Rightarrow> disk \<Rightarrow> bool \<times> disk" where
  "writeBlocks p bl = write_file p (blocks_bytes bl)"

definition readBlocks :: "string \<Rightarrow> bytes list \<Rightarrow> disk \<Rightarrow> bytes list loaded" where
  "readBlocks p bl d =
     (case files d p of None \<Rightarrow> Some (Inr (False, bl))
      | Some bs \<Rightarrow> map_load fst (read_loop readBlocks_body (istream_on bs) (bl, 0)))"

section \<open>Saving and loading a Core\<close>

definition SaveClientToStorage :: "core \<Rightarrow> string \<Rightarrow> disk \<Rightarrow> bool \<times> disk" where
  "SaveClientToStorage s base d =
     (if \<not> mkdir_ok d base then (False, d)
      else and_then (and_then (and_then (and_then
             (writeInt (base @ ''/version'') (version s) d)
             (writeBytes (base @ ''/key'') (key s) KEYLEN))
             (writeBytes (base @ ''/kplus'') (kplus s) KEYLEN))
             (writeBytes (base @ ''/kminus'') (kminus s) KEYLEN))
             (writeMapCount (base @ ''/Dcount'') (Dcount s)))"

text \<open>\<open>D\<close> and \<open>A\<close> are only written after a Setup; then \<open>dirtyD\<close> is reset.\<close>

definition save_dirty :: "core \<Rightarrow> string \<Rightarrow> disk \<Rightarrow> bool \<times> core \<times> disk" where
  "save_dirty s base d =
     (if dirtyD s then
        (let (ok, d) = and_then (writeMap (base @ ''/D'') (D s) d) (writeBlocks (base @ ''/A'') (A s))
         in (ok, if ok then s\<lparr>dirtyD := False\<rparr> else s, d))
      else (True, s, d))"

definition SaveServerToStorage :: "core \<Rightarrow> string \<Rightarrow> disk \<Rightarrow> bool \<times> core \<times> disk" where
  "SaveServerToStorage s base d =
     (if \<not> mkdir_ok d base then (False, s, d)
      else let (ok, d) = writeInt (base @ ''/version'') (version s) d in
      if \<not> ok then (False, s, d)
      else let (ok, s, d) = save_dirty s base d in
      if \<not> ok then (False, s, d)
      else let (ok, d) = and_then (writeMap (base @ ''/Dplus'') (Dplus s) d)
                           (writeRevlist (base @ ''/Srev'') (Srev s))
           in (ok, s, d))"

definition LoadClientFromStorage :: "core \<Rightarrow> string \<Rightarrow> disk \<Rightarrow> core loaded" where
  "LoadClientFromStorage s base d =
     load_then (load_then (load_then (load_then
       (let (ok, v) = readInt (base @ ''/version'') (version s) d in Some (Inr (ok, s\<lparr>version := v\<rparr>)))
       (\<lambda>s. let (ok, k) = readBytes (base @ ''/key'') (key s) KEYLEN d in Some (Inr (ok, s\<lparr>key := k\<rparr>))))
       (\<lambda>s. let (ok, k) = readBytes (base @ ''/kplus'') (kplus s) KEYLEN d in Some (Inr (ok, s\<lparr>kplus := k\<rparr>))))
       (\<lambda>s. let (ok, k) = readBytes (base @ ''/kminus'') (kminus s) KEYLEN d in Some (Inr (ok, s\<lparr>kminus := k\<rparr>))))
       (\<lambda>s. map_load (\<lambda>m. s\<lparr>Dcount := m\<rparr>) (readMapCount (base @ ''/Dcount'') (Dcount s) d))"

definition LoadServerFromStorage :: "core \<Rightarrow> string \<Rightarrow> disk \<Rightarrow> core loaded" where
  "LoadServerFromStorage s base d =
     load_then (load_then (load_then (load_then
       (let (ok, v) = readInt (base @ ''/version'') (version s) d in Some (Inr (ok, s\<lparr>version := v\<rparr>)))
       (\<lambda>s. map_load (\<lambda>m. s\<lparr>D := m\<rparr>) (readMap (base @ ''/D'') (D s) d)))
       (\<lambda>s. map_load (\<lambda>m. s\<lparr>Dplus := m\<rparr>) (readMap (base @ ''/Dplus'') (Dplus s) d)))
       (\<lambda>s. map_load (\<lambda>m. s\<lparr>Srev := m\<rparr>) (readRevlist (base @ ''/Srev'') (Srev s) d)))
       (\<lambda>s. map_load (\<lambda>m. s\<lparr>A := m\<rparr>) (readBlocks (base @ ''/A'') (A s) d))"

definition saveExtraState :: "(u64, bytes) omap \<Rightarrow> u64 \<Rightarrow> string \<Rightarrow> disk \<Rightarrow> bool \<times> disk" where
  "saveExtraState fileidMap lastFileid base d =
     and_then (writeFileidMap (base @ ''/fileidMap'') fileidMap d)
       (writeFileid (base @ ''/lastFileid'') lastFileid)"

definition loadExtraState ::
  "(u64, bytes) omap \<times> u64 \<Rightarrow> string \<Rightarrow> disk \<Rightarrow> ((u64, bytes) omap \<times> u64) loaded" where
  "loadExtraState st base d =
     load_then
       (map_load (\<lambda>m. (m, snd st)) (readFileidMap (base @ ''/fileidMap'') (fst st) d))
       (\<lambda>st. let (ok, v) = readFileid (base @ ''/lastFileid'') (snd st) d in Some (Inr (ok, fst st, v)))"

section \<open>Reading files back\<close>

lemma omap_rebuild:
  assumes "om_inv m"
  shows "foldl (\<lambda>m r. (case r of (k, v) \<Rightarrow> om_insert k v) m) [] m = m"
proof -
  let ?f = "foldl (\<lambda>m p. om_insert (fst p) (snd p) m) [] m"
  have "om_lookup ?f k = om_lookup m k" for k
  proof (cases "om_lookup m k")
    case None
    then have "k \<notin> fst ` set m" by (simp add: om_lookup_eq_map_of map_of_eq_None_iff)
    with None show ?thesis by (simp add: om.lookup_insert_all_other)
  next
    case (Some v)
    then have in_m: "(k, v) \<in> set m" by (simp add: om_lookup_eq_map_of map_of_SomeD)
    have val: "snd p = v" if "p \<in> set m" "fst p = k" for p
    proof (rule eq_key_imp_eq_value [OF om_inv_distinct [OF assms] _ in_m])
      show "(k, snd p) \<in> set m" using that by (metis prod.collapse)
    qed
    have "k \<in> fst ` set m" using in_m by (rule rev_image_eqI) simp
    then have "om_lookup ?f k = Some v" by (rule om.lookup_insert_all_val) (rule val)
    with Some show ?thesis by simp
  qed
  then have "?f = m" by (intro om_inv_unique om.inv_insert_all om_inv_empty assms)
  then show ?thesis by (simp add: case_prod_beta')
qed

lemma oset_rebuild: "os_inv s \<Longrightarrow> foldl (\<lambda>m r. os_insert r m) [] s = s"
  by (rule os_inv_unique) (simp_all add: os.elems_ins_all os.inv_ins_all os_inv_empty)

definition map_sized :: "(bytes, bytes) omap \<Rightarrow> bool" where
  "map_sized m \<longleftrightarrow> (\<forall>(k, v) \<in> set m. length k = KEYLEN \<and> length v < 2 ^ 47)"

lemma read_map_bytes:
  assumes "om_inv m" "map_sized m"
  shows "read_loop readMap_body (istream_on (map_bytes m)) [] = Some (Inr (True, m))"
proof -
  have "map_bytes m = concat (map (\<lambda>r. (case r of (k, v) \<Rightarrow> k @ writeString v) @ []) m)"
    unfolding map_bytes_def using assms(2)
    by (intro arg_cong [where f = concat] map_cong refl) (auto simp: map_sized_def)
  then show ?thesis
    using map_file.read_back [of m "[]"] assms omap_rebuild [OF assms(1)] by (simp add: map_sized_def)
qed

lemma read_count_bytes:
  assumes "om_inv m" "\<forall>(k, v) \<in> set m. length k < 2 ^ 47"
  shows "read_loop readMapCount_body (istream_on (count_bytes m)) [] = Some (Inr (True, m))"
proof -
  have "count_bytes m = concat (map (\<lambda>r. (case r of (k, v) \<Rightarrow> writeString k @ dec (unat v)) @ [10]) m)"
    by (auto simp: count_bytes_def intro!: arg_cong [where f = concat])
  then show ?thesis
    using count_file.read_back [of m "[]"] assms(2) omap_rebuild [OF assms(1)] by simp
qed

lemma read_fileidMap_bytes:
  assumes "om_inv m" "\<forall>(k, v) \<in> set m. length v < 2 ^ 47"
  shows "read_loop readFileidMap_body (istream_on (fileidMap_bytes m)) [] = Some (Inr (True, m))"
proof -
  have "fileidMap_bytes m
      = concat (map (\<lambda>r. (case r of (k, v) \<Rightarrow> dec (unat k) @ [32] @ writeString v) @ [10]) m)"
    by (auto simp: fileidMap_bytes_def intro!: arg_cong [where f = concat])
  then show ?thesis
    using fileidMap_file.read_back [of m "[]"] assms(2) omap_rebuild [OF assms(1)] by simp
qed

lemma read_revlist_bytes:
  assumes "os_inv m" "\<forall>v \<in> set m. length v = KEYLEN"
  shows "read_loop readRevlist_body (istream_on (revlist_bytes m)) [] = Some (Inr (True, m))"
proof -
  have "revlist_bytes m = concat (map (\<lambda>v. v @ []) m)"
    unfolding revlist_bytes_def using assms(2) by (intro arg_cong [where f = concat] map_cong) simp_all
  then show ?thesis
    using revlist_file.read_back [of m "[]"] assms(2) oset_rebuild [OF assms(1)] by simp
qed

text \<open>Reading \<open>A\<close> leaves one empty block more than was written.\<close>

lemma read_blocks_bytes:
  assumes "\<forall>s \<in> set bl. length s < 2 ^ 47"
  shows "map_load fst (read_loop readBlocks_body (istream_on (blocks_bytes bl)) ([], 0))
    = Some (Inr (True, bl @ [[]]))"
proof -
  have fold: "foldl (\<lambda>m r. (case m of (bl, n) \<Rightarrow> ((bl @ [[]])[n := r], Suc n))) (acc, length acc) bl
      = (acc @ bl, length (acc @ bl))" for acc :: "bytes list"
  proof (induction bl arbitrary: acc)
    case (Cons b bl)
    show ?case using Cons.IH [of "acc @ [b]"] by (simp add: list_update_append)
  qed simp
  have "blocks_bytes bl = concat (map (\<lambda>s. writeString s @ []) bl)" by (simp add: blocks_bytes_def)
  then show ?thesis
    using blocks_file.read_back [of bl "([], 0)"] assms fold [of "[]"]
    by (simp add: list_update_append)
qed

end
