(* ===== verification/Tokenize.thy ===== *)
theory Tokenize
  imports Disk
begin

text \<open>
  \<open>src/DSSETokenize.cpp\<close>: the words of a file, each once, in the order of a
  \<open>std::set<std::string>\<close>. A word is a maximal run of bytes that are not white space.
\<close>

text \<open>\<open>while (fin >> str)\<close>: skip white space, take up to the next white space.\<close>

function words_of :: "bytes \<Rightarrow> bytes list" where
  "words_of bs =
     (case dropWhile is_space bs of
        [] \<Rightarrow> []
      | b # bs' \<Rightarrow> takeWhile (\<lambda>x. \<not> is_space x) (b # bs') # words_of (dropWhile (\<lambda>x. \<not> is_space x) (b # bs')))"
  by pat_completeness auto
termination
proof (relation "measure length", goal_cases)
  case (2 bs b bs')
  have "\<not> is_space b" using hd_dropWhile [of is_space bs] by (simp add: 2)
  then have "length (dropWhile (\<lambda>x. \<not> is_space x) (b # bs')) \<le> length bs'"
    by (simp add: length_dropWhile_le)
  also have "\<dots> < length (dropWhile is_space bs)" by (simp add: 2)
  also have "\<dots> \<le> length bs" by (rule length_dropWhile_le)
  finally show ?case by simp
qed simp

declare words_of.simps [simp del]

text \<open>A file name is a byte string; paths of the disk are character strings.\<close>

definition path_of :: "bytes \<Rightarrow> string" where
  "path_of bs = map (\<lambda>b. char_of (unat b)) bs"

text \<open>The result, and \<open>tokens\<close> (as it was when the file does not open).\<close>

definition tokenize :: "disk \<Rightarrow> bytes \<Rightarrow> bytes list \<Rightarrow> bool \<times> bytes list" where
  "tokenize d filename tokens =
     (case files d (path_of filename) of
        None \<Rightarrow> (False, tokens)
      | Some bs \<Rightarrow> (True, foldl (\<lambda>s w. os_insert w s) [] (words_of bs)))"

section \<open>What it returns\<close>

lemma tokenize_set: "files d (path_of f) = Some bs \<Longrightarrow> set (snd (tokenize d f ts)) = set (words_of bs)"
  by (simp add: tokenize_def os.elems_ins_all)

lemma tokenize_sorted: "os_inv ts \<Longrightarrow> os_inv (snd (tokenize d f ts))"
  by (simp add: tokenize_def os.inv_ins_all os_inv_empty split: option.split)

lemma os_inv_distinct: "os_inv s \<Longrightarrow> distinct s"
  by (simp add: os_inv_def strict_sorted_iff)

lemma words_of_spaces: "\<forall>b \<in> set ws. is_space b \<Longrightarrow> words_of (ws @ bs) = words_of bs"
  by (subst (1 2) words_of.simps) (simp add: dropWhile_append3)

lemma words_of_Nil [simp]: "words_of [] = []"
  by (simp add: words_of.simps)

lemma words_of_word:
  assumes w: "w \<noteq> []" "\<forall>b \<in> set w. \<not> is_space b" and sp: "is_space c"
  shows "words_of (w @ c # bs) = w # words_of bs"
proof -
  obtain b w' where bw: "w = b # w'" using w(1) by (cases w) auto
  have "dropWhile is_space (w @ c # bs) = w @ c # bs" using w(2) by (simp add: bw)
  moreover have "takeWhile (\<lambda>x. \<not> is_space x) (w @ c # bs) = w"
    "dropWhile (\<lambda>x. \<not> is_space x) (w @ c # bs) = c # bs"
    using w(2) sp by (simp_all add: takeWhile_append dropWhile_append)
  ultimately have "words_of (w @ c # bs) = w # words_of (c # bs)"
    by (subst words_of.simps) (simp add: bw)
  then show ?thesis using words_of_spaces [of "[c]" bs] sp by simp
qed

section \<open>Words as maximal runs\<close>

definition word_at :: "bytes \<Rightarrow> bytes \<Rightarrow> bool" where
  "word_at bs w \<longleftrightarrow> w \<noteq> [] \<and> (\<forall>b \<in> set w. \<not> is_space b)
     \<and> (\<exists>pre post. bs = pre @ w @ post \<and> (pre = [] \<or> is_space (last pre)) \<and> (post = [] \<or> is_space (hd post)))"

lemma word_atI:
  "w \<noteq> [] \<Longrightarrow> \<forall>b \<in> set w. \<not> is_space b \<Longrightarrow> bs = pre @ w @ post \<Longrightarrow>
   pre = [] \<or> is_space (last pre) \<Longrightarrow> post = [] \<or> is_space (hd post) \<Longrightarrow> word_at bs w"
  by (auto simp: word_at_def)

lemma run_unique:
  assumes "w @ post = v @ r" "\<forall>b \<in> set w. \<not> is_space b" "\<forall>b \<in> set v. \<not> is_space b"
    and "post = [] \<or> is_space (hd post)" "r = [] \<or> is_space (hd r)"
  shows "w = v"
proof -
  have "takeWhile (\<lambda>b. \<not> is_space b) (x @ y) = x"
    if "\<forall>b \<in> set x. \<not> is_space b" "y = [] \<or> is_space (hd y)" for x y
    using that by (cases y) (simp_all add: takeWhile_append)
  from this [OF assms(2,4)] this [OF assms(3,5)] assms(1) show ?thesis by simp
qed

lemma word_at_first:
  assumes sp: "\<forall>b \<in> set sp. is_space b" and v: "v \<noteq> []" "\<forall>b \<in> set v. \<not> is_space b"
    and r: "r = [] \<or> is_space (hd r)"
  shows "word_at (sp @ v @ r) w \<longleftrightarrow> w = v \<or> word_at r w"
proof
  assume "w = v \<or> word_at r w"
  then show "word_at (sp @ v @ r) w"
  proof
    assume "w = v"
    moreover have "sp = [] \<or> is_space (last sp)" using sp by (cases "sp = []") simp_all
    ultimately show ?thesis using assms by (intro word_atI [of _ _ sp r]) auto
  next
    assume "word_at r w"
    then obtain pre post where w: "w \<noteq> []" "\<forall>b \<in> set w. \<not> is_space b" "r = pre @ w @ post"
      "pre = [] \<or> is_space (last pre)" "post = [] \<or> is_space (hd post)"
      by (auto simp: word_at_def)
    have "pre \<noteq> []" using w r by (cases w) auto
    then show ?thesis using w by (intro word_atI [of _ _ "sp @ v @ pre" post]) auto
  qed
next
  assume "word_at (sp @ v @ r) w"
  then obtain pre post where w: "w \<noteq> []" "\<forall>b \<in> set w. \<not> is_space b" "sp @ v @ r = pre @ w @ post"
    "pre = [] \<or> is_space (last pre)" "post = [] \<or> is_space (hd post)"
    by (auto simp: word_at_def)
  from append_eq_append_conv2 [THEN iffD1, OF w(3)] consider (front) x where "sp = pre @ x" "x @ v @ r = w @ post" | (late) x where "pre = sp @ x" "v @ r = x @ w @ post"
    by metis
  then show "w = v \<or> word_at r w"
  proof cases
    case front
    have "x = []" using front sp w(1,2) by (cases x; cases w) auto
    then show ?thesis using front run_unique [of w post v r] w(2,5) v(2) r by simp
  next
    case late
    from append_eq_append_conv2 [THEN iffD1, OF late(2)] consider (inner) y where "v = x @ y" "y @ r = w @ post" | (outer) y where "x = v @ y" "r = y @ w @ post"
      by metis
    then show ?thesis
    proof cases
      case inner
      show ?thesis
      proof (cases "x = []")
        case True
        then show ?thesis using inner run_unique [of w post v r] w(2,5) v(2) r by simp
      next
        case False
        then have "last pre \<in> set v" using late inner by auto
        then show ?thesis using w(4) v(2) late False by auto
      qed
    next
      case outer
      have "y = [] \<or> is_space (last y)" using w(4) late outer v(1) by (cases "y = []") simp_all
      then have "word_at r w" using w outer by (intro word_atI [of _ _ y post]) auto
      then show ?thesis ..
    qed
  qed
qed

lemma words_of_word_at: "w \<in> set (words_of bs) \<longleftrightarrow> word_at bs w"
proof (induction bs rule: words_of.induct)
  case (1 bs)
  let ?sp = "takeWhile is_space bs"
  have bs: "bs = ?sp @ dropWhile is_space bs" by simp
  have sp: "\<forall>b \<in> set ?sp. is_space b" by (auto dest: set_takeWhileD)
  show ?case
  proof (cases "dropWhile is_space bs")
    case Nil
    then have "words_of bs = []" by (simp only: words_of.simps [of bs] list.case)
    moreover have "\<not> word_at bs w"
    proof
      assume "word_at bs w"
      then have "hd w \<in> set bs" "\<not> is_space (hd w)" by (auto simp: word_at_def)
      then show False using Nil by (simp add: dropWhile_eq_Nil_conv)
    qed
    ultimately show ?thesis by simp
  next
    case (Cons b bs')
    let ?v = "takeWhile (\<lambda>x. \<not> is_space x) (b # bs')" and ?r = "dropWhile (\<lambda>x. \<not> is_space x) (b # bs')"
    have "\<not> is_space b" using hd_dropWhile [of is_space bs] by (simp add: Cons)
    then have v: "?v \<noteq> []" "\<forall>x \<in> set ?v. \<not> is_space x" by (auto dest: set_takeWhileD)
    have r: "?r = [] \<or> is_space (hd ?r)" using hd_dropWhile [of "\<lambda>x. \<not> is_space x" "b # bs'"] by blast
    have "words_of bs = ?v # words_of ?r" by (subst words_of.simps) (simp only: Cons list.case)
    then have "w \<in> set (words_of bs) \<longleftrightarrow> w = ?v \<or> word_at ?r w" using 1 [OF Cons] by simp
    also have "\<dots> \<longleftrightarrow> word_at (?sp @ ?v @ ?r) w" using word_at_first [OF sp v r] by simp
    also have "?sp @ ?v @ ?r = bs" using bs Cons by simp
    finally show ?thesis .
  qed
qed

end
