(* ===== verification/Client.thy ===== *)
theory Client
  imports Messages Tokenize
begin

text \<open>
  \<open>DSSE::Client\<close> (\<open>src/DSSEClient.cpp\<close>): the operations as one exchange of a request and
  a reply over a REQ socket, the conveniences on files, and saving and loading. What is
  behind the socket is a parameter: a world of type \<open>'w\<close> and how it answers a message.
\<close>

section \<open>State and network\<close>

record client =
  cl_core :: core
  addr :: bytes
  cl_sock :: req_socket
  lastFileid :: u64
  fileidMap :: "(u64, bytes) omap"

definition new_client :: client where
  "new_client = \<lparr>cl_core = new_core, addr = [], cl_sock = req_new, lastFileid = 0, fileidMap = []\<rparr>"

text \<open>
  \<open>Connect\<close>: the address is composed and handed to \<open>zmq_connect\<close>, a parameter that says
  which addresses it takes (for the others \<open>zmq.hpp\<close> throws). Nothing is sent yet.
\<close>

definition bytes_of :: "string \<Rightarrow> bytes" where
  "bytes_of s = map (\<lambda>c. of_nat (of_char c)) s"

definition tcp_addr :: "bytes \<Rightarrow> int \<Rightarrow> bytes" where
  "tcp_addr hostname port = bytes_of ''tcp://'' @ hostname @ bytes_of '':'' @ dec_int port"

definition Connect :: "(bytes \<Rightarrow> bool) \<Rightarrow> client \<Rightarrow> bytes \<Rightarrow> int \<Rightarrow> err + bool \<times> client" where
  "Connect zmq_connect s hostname port =
     (let a = tcp_addr hostname port
      in if zmq_connect a then Inr (True, s\<lparr>addr := a\<rparr>) else Inl ZmqError)"

text \<open>\<open>Silence\<close>: no reply ever comes, and \<open>recv\<close> blocks.\<close>

datatype reply = Reply bytes | Silence

type_synonym 'w net = "'w \<Rightarrow> bytes \<Rightarrow> 'w \<times> reply"

text \<open>
  \<open>send_message\<close> and the receiving that follows it in every operation. The result holds
  \<open>None\<close> when the message did not serialize and so was not sent.
\<close>

definition exchange ::
  "'w net \<Rightarrow> client \<Rightarrow> 'w \<Rightarrow> bytes option \<Rightarrow> (err + bytes option \<times> client \<times> 'w) option" where
  "exchange net s w m =
     (case m of None \<Rightarrow> Some (Inr (None, s, w))
      | Some b \<Rightarrow>
          (case req_send (cl_sock s) of Inl e \<Rightarrow> Some (Inl e)
           | Inr k \<Rightarrow>
               (case net w b of
                  (w, Silence) \<Rightarrow> None
                | (w, Reply r) \<Rightarrow>
                    (case req_recv k of Inl e \<Rightarrow> Some (Inl e)
                     | Inr k \<Rightarrow> Some (Inr (Some r, s\<lparr>cl_sock := k\<rparr>, w))))))"

section \<open>Setup, Search, Add, Delete\<close>

definition Client_Setup ::
  "prims \<Rightarrow> wire \<Rightarrow> 'w net \<Rightarrow> urandom \<times> urandom \<times> urandom \<Rightarrow> client \<Rightarrow> 'w \<Rightarrow> int \<Rightarrow> bytes list \<Rightarrow> filemap
    \<Rightarrow> (err + bool \<times> client \<times> 'w) option" where
  "Client_Setup P F net devs s w ver tokens fileids =
     obind (SetupClient P devs (cl_core s) ver tokens fileids) (\<lambda>(c, L, M).
     obind (exchange net (s\<lparr>cl_core := c\<rparr>) w (ser_request F \<lparr>body = SetupMsg L M, rq_version = ver\<rparr>))
       (\<lambda>(r, s, w). Some (Inr (r \<noteq> None, s, w))))"

definition search_msg_of :: "search_keys \<Rightarrow> search_msg" where
  "search_msg_of ks = \<lparr>k1 = sk_K1 ks, k2 = sk_K2 ks, k1plus = sk_K1plus ks, k2plus = sk_K2plus ks,
                       k1minus = sk_K1minus ks\<rparr>"

text \<open>What \<open>Search\<close> writes to the standard output, and the ids.\<close>

definition got_response :: bytes where
  "got_response = bytes_of ''got response'' @ [10]"

definition Client_Search ::
  "prims \<Rightarrow> wire \<Rightarrow> 'w net \<Rightarrow> client \<Rightarrow> 'w \<Rightarrow> bytes \<Rightarrow> (err + bytes \<times> u64 list \<times> client \<times> 'w) option" where
  "Client_Search P F net s w word =
     obind (exchange net s w
         (ser_request F (request_of (SearchMsg (search_msg_of (SearchClient P (cl_core s) word))))))
       (\<lambda>(r, s, w). Some (Inr (case Option.bind r (parse_search F) of
          None \<Rightarrow> ([], [], s, w) | Some ids \<Rightarrow> (got_response, ids, s, w))))"

definition Client_Add ::
  "prims \<Rightarrow> wire \<Rightarrow> 'w net \<Rightarrow> (nat \<Rightarrow> bytes) \<Rightarrow> client \<Rightarrow> 'w \<Rightarrow> u64 \<Rightarrow> bytes list
    \<Rightarrow> (err + bool \<times> client \<times> 'w) option" where
  "Client_Add P F net junk s w fid words =
     (let (c, L, W_in_order_of_Lrev) = AddClient P (cl_core s) fid junk words
      in obind (exchange net (s\<lparr>cl_core := c\<rparr>) w (ser_request F (request_of (AddMsg L))))
           (\<lambda>(r, s, w).
              case Option.bind r (parse_result F) of None \<Rightarrow> Some (Inr (False, s, w))
              | Some result \<Rightarrow>
                  Some (rbind (AddClient2 (cl_core s) (map (\<lambda>x. if x then 1 else 0) (result_add result))
                                 W_in_order_of_Lrev)
                          (\<lambda>c. Inr (True, s\<lparr>cl_core := c\<rparr>, w)))))"

definition Client_Delete ::
  "prims \<Rightarrow> wire \<Rightarrow> 'w net \<Rightarrow> client \<Rightarrow> 'w \<Rightarrow> u64 \<Rightarrow> bytes list \<Rightarrow> (err + bool \<times> client \<times> 'w) option" where
  "Client_Delete P F net s w fid words =
     obind (exchange net s w (ser_request F (request_of (DeleteMsg (DeleteClient P (cl_core s) fid words)))))
       (\<lambda>(r, s, w). Some (Inr (Option.bind r (parse_result F) \<noteq> None, s, w)))"

section \<open>Files\<close>

text \<open>\<open>fileidMap.count(fileid) >= 0\<close> holds for every id, so \<open>at\<close> is always called.\<close>

definition Filename :: "client \<Rightarrow> u64 \<Rightarrow> err + bytes" where
  "Filename s fileid =
     (if (0 :: nat) \<le> (if om_count (fileidMap s) fileid then 1 else 0)
      then (case om_lookup (fileidMap s) fileid of None \<Rightarrow> Inl OutOfRange | Some name \<Rightarrow> Inr name)
      else Inr [])"

text \<open>The local variables of \<open>SetupFiles\<close>.\<close>

record file_index =
  filenameToFileid :: "(bytes, u64) omap"
  fileidToFilename :: "(u64, bytes) omap"
  fi_fileids :: filemap
  all_tokens :: "bytes list"
  next_fileid :: u64

definition new_index :: file_index where
  "new_index = \<lparr>filenameToFileid = [], fileidToFilename = [], fi_fileids = [], all_tokens = [], next_fileid = 1\<rparr>"

definition index_word :: "u64 \<Rightarrow> file_index \<Rightarrow> bytes \<Rightarrow> file_index" where
  "index_word fileid x word =
     (let x = (if om_count (fi_fileids x) word then x else x\<lparr>all_tokens := all_tokens x @ [word]\<rparr>);
          fids = (case om_lookup (fi_fileids x) word of None \<Rightarrow> [] | Some fids \<Rightarrow> fids)
      in x\<lparr>fi_fileids := om_insert word (fids @ [fileid]) (fi_fileids x)\<rparr>)"

definition alloc_fileid :: "bytes \<Rightarrow> file_index \<Rightarrow> file_index" where
  "alloc_fileid filename x =
     (if om_count (filenameToFileid x) filename then x
      else x\<lparr>filenameToFileid := om_insert filename (next_fileid x) (filenameToFileid x),
             fileidToFilename := om_insert (next_fileid x) filename (fileidToFilename x),
             next_fileid := next_fileid x + 1\<rparr>)"

text \<open>\<open>filenameToFileid.at(filename)\<close> never throws here: the name was just entered.\<close>

definition index_file :: "disk \<Rightarrow> file_index \<Rightarrow> bytes \<Rightarrow> file_index" where
  "index_file d x filename =
     (case tokenize d filename [] of
        (False, _) \<Rightarrow> x
      | (True, file_tokens) \<Rightarrow>
          let x = alloc_fileid filename x
          in (case om_lookup (filenameToFileid x) filename of
                None \<Rightarrow> x
              | Some fileid \<Rightarrow> foldl (index_word fileid) x file_tokens))"

definition index_files :: "disk \<Rightarrow> bytes list \<Rightarrow> file_index" where
  "index_files d filenames = foldl (index_file d) new_index filenames"

definition SetupFiles ::
  "prims \<Rightarrow> wire \<Rightarrow> 'w net \<Rightarrow> urandom \<times> urandom \<times> urandom \<Rightarrow> disk \<Rightarrow> client \<Rightarrow> 'w \<Rightarrow> int \<Rightarrow> bytes list
    \<Rightarrow> (err + bool \<times> client \<times> 'w) option" where
  "SetupFiles P F net devs d s w ver filenames =
     (let x = index_files d filenames
      in obind (Client_Setup P F net devs s w ver (all_tokens x) (fi_fileids x)) (\<lambda>(ok, s, w).
           Some (Inr (if ok then (True, s\<lparr>lastFileid := next_fileid x, fileidMap := fileidToFilename x\<rparr>, w)
                      else (False, s, w)))))"

definition AddFileByName ::
  "prims \<Rightarrow> wire \<Rightarrow> 'w net \<Rightarrow> (nat \<Rightarrow> bytes) \<Rightarrow> disk \<Rightarrow> client \<Rightarrow> 'w \<Rightarrow> bytes \<Rightarrow> (err + bool \<times> client \<times> 'w) option" where
  "AddFileByName P F net junk d s w filename =
     (case tokenize d filename [] of
        (False, _) \<Rightarrow> Some (Inr (False, s, w))
      | (True, tokens) \<Rightarrow>
          let fileid = lastFileid s
          in obind (Client_Add P F net junk s w fileid tokens) (\<lambda>(ok, s, w).
               Some (Inr (if ok then (True, s\<lparr>fileidMap := om_insert fileid filename (fileidMap s),
                                             lastFileid := lastFileid s + 1\<rparr>, w)
                          else (False, s, w)))))"

section \<open>Save and Load\<close>

definition Client_Save :: "client \<Rightarrow> string \<Rightarrow> disk \<Rightarrow> bool \<times> disk" where
  "Client_Save s dir d =
     and_then (SaveClientToStorage (cl_core s) dir d) (saveExtraState (fileidMap s) (lastFileid s) dir)"

definition Client_Load :: "client \<Rightarrow> string \<Rightarrow> disk \<Rightarrow> client loaded" where
  "Client_Load s dir d =
     load_then (map_load (\<lambda>c. s\<lparr>cl_core := c\<rparr>) (LoadClientFromStorage (cl_core s) dir d))
       (\<lambda>s. map_load (\<lambda>(m, v). s\<lparr>fileidMap := m, lastFileid := v\<rparr>)
              (loadExtraState (fileidMap s, lastFileid s) dir d))"

section \<open>What SetupFiles builds\<close>

text \<open>
  Every token of \<open>all_tokens\<close> has file ids and the other way round, no token is twice in
  it, and the ids of a token are those of the files that hold it, in order.
\<close>

definition index_inv :: "file_index \<Rightarrow> bool" where
  "index_inv x \<longleftrightarrow> distinct (all_tokens x) \<and> om_inv (fi_fileids x)
     \<and> (\<forall>w. w \<in> set (all_tokens x) \<longleftrightarrow> om_count (fi_fileids x) w)
     \<and> (\<forall>w. om_lookup (fi_fileids x) w \<noteq> Some [])"

definition ids_of :: "file_index \<Rightarrow> bytes \<Rightarrow> u64 list" where
  "ids_of x w = (case om_lookup (fi_fileids x) w of None \<Rightarrow> [] | Some fids \<Rightarrow> fids)"

lemma index_word_inv: "index_inv x \<Longrightarrow> index_inv (index_word fid x w)"
  by (auto simp: index_inv_def index_word_def Let_def om_count_def om_lookup_insert om_inv_insert)

lemma index_word_ids: "ids_of (index_word fid x w) v = (if v = w then ids_of x v @ [fid] else ids_of x v)"
  by (simp add: ids_of_def index_word_def om_lookup_insert Let_def split: option.split)

lemma index_words:
  "distinct ws \<Longrightarrow> index_inv x \<Longrightarrow> index_inv (foldl (index_word fid) x ws)
   \<and> (\<forall>v. ids_of (foldl (index_word fid) x ws) v = (if v \<in> set ws then ids_of x v @ [fid] else ids_of x v))"
proof (induction ws arbitrary: x)
  case (Cons w ws)
  then have "index_inv (index_word fid x w)" by (simp add: index_word_inv)
  with Cons show ?case by (simp add: index_word_ids)
qed simp

lemma index_word_frame [simp]:
  "next_fileid (foldl (index_word fid) x ws) = next_fileid x"
  "filenameToFileid (foldl (index_word fid) x ws) = filenameToFileid x"
  "fileidToFilename (foldl (index_word fid) x ws) = fileidToFilename x"
  by (induction ws arbitrary: x) (simp_all add: index_word_def Let_def)

text \<open>Different names, each readable: file number \<open>n\<close> (from 1) gets id \<open>n\<close>.\<close>

definition file_words :: "disk \<Rightarrow> bytes \<Rightarrow> bytes set" where
  "file_words d f = set (snd (tokenize d f []))"

definition readable_file :: "disk \<Rightarrow> bytes \<Rightarrow> bool" where
  "readable_file d f \<longleftrightarrow> files d (path_of f) \<noteq> None"

lemma index_file_new:
  assumes "readable_file d f" "\<not> om_count (filenameToFileid x) f" "index_inv x"
  shows "index_inv (index_file d x f) \<and> next_fileid (index_file d x f) = next_fileid x + 1
    \<and> filenameToFileid (index_file d x f) = om_insert f (next_fileid x) (filenameToFileid x)
    \<and> fileidToFilename (index_file d x f) = om_insert (next_fileid x) f (fileidToFilename x)
    \<and> (\<forall>w. ids_of (index_file d x f) w
         = (if w \<in> file_words d f then ids_of x w @ [next_fileid x] else ids_of x w))"
proof -
  obtain ts where ts: "tokenize d f [] = (True, ts)" "distinct ts" "set ts = file_words d f"
    using assms(1) os_inv_distinct [OF tokenize_sorted [OF os_inv_empty, of d f]]
    by (auto simp: readable_file_def tokenize_def file_words_def)
  let ?x = "alloc_fileid f x"
  have "index_inv ?x" "\<And>w. ids_of ?x w = ids_of x w"
    using assms(3) by (simp_all add: alloc_fileid_def index_inv_def ids_of_def)
  moreover have "index_file d x f = foldl (index_word (next_fileid x)) ?x ts"
    using assms(2) by (simp add: index_file_def ts alloc_fileid_def om_lookup_insert Let_def)
  ultimately show ?thesis
    using index_words [OF ts(2), of ?x "next_fileid x"] assms(2) by (simp add: ts(3) alloc_fileid_def)
qed

lemma index_files_from:
  assumes "\<And>f. f \<in> set fs \<Longrightarrow> readable_file d f" "distinct fs" "index_inv x"
    and "\<And>f. f \<in> set fs \<Longrightarrow> \<not> om_count (filenameToFileid x) f"
  shows "index_inv (foldl (index_file d) x fs)
    \<and> next_fileid (foldl (index_file d) x fs) = next_fileid x + of_nat (length fs)
    \<and> (\<forall>w. ids_of (foldl (index_file d) x fs) w
         = ids_of x w @ map (\<lambda>n. next_fileid x + of_nat n) (filter (\<lambda>n. w \<in> file_words d (fs ! n)) [0..<length fs]))"
  using assms
proof (induction fs arbitrary: x)
  case (Cons f fs)
  let ?x = "index_file d x f"
  have new: "index_inv ?x" "next_fileid ?x = next_fileid x + 1"
    "filenameToFileid ?x = om_insert f (next_fileid x) (filenameToFileid x)"
    "\<And>w. ids_of ?x w = (if w \<in> file_words d f then ids_of x w @ [next_fileid x] else ids_of x w)"
    using index_file_new [of d f x] Cons.prems by auto
  have IH: "index_inv (foldl (index_file d) ?x fs)
    \<and> next_fileid (foldl (index_file d) ?x fs) = next_fileid ?x + of_nat (length fs)
    \<and> (\<forall>w. ids_of (foldl (index_file d) ?x fs) w
         = ids_of ?x w @ map (\<lambda>n. next_fileid ?x + of_nat n) (filter (\<lambda>n. w \<in> file_words d (fs ! n)) [0..<length fs]))"
    using Cons.prems new by (intro Cons.IH) (auto simp: om_count_def om_lookup_insert)
  have "[0..<length (f # fs)] = 0 # map Suc [0..<length fs]"
    by (simp add: map_Suc_upt upt_conv_Cons del: upt_Suc)
  then have "map (\<lambda>n. next_fileid x + of_nat n) (filter (\<lambda>n. w \<in> file_words d ((f # fs) ! n)) [0..<length (f # fs)])
    = (if w \<in> file_words d f then [next_fileid x] else [])
      @ map (\<lambda>n. next_fileid ?x + of_nat n) (filter (\<lambda>n. w \<in> file_words d (fs ! n)) [0..<length fs])" for w
    by (simp add: filter_map comp_def new(2) add.assoc)
  with IH show ?case by (auto simp: new(2,4) algebra_simps)
qed simp

end
