(* ===== verification/Restart.thy ===== *)
theory Restart
  imports Disk Session
begin

text \<open>
  Saving and loading. A client or a server that is saved and loaded into a fresh \<open>Core\<close>
  represents the same index as before, so searches after a restart return the same ids.
  The loaded \<open>A\<close> has one empty block more than the saved one, which no search reads.
\<close>

section \<open>Single files\<close>

lemma write_file_True:
  "write_file p bs d = (True, d') \<longleftrightarrow> wopen d p \<and> d' = d\<lparr>files := (files d)(p \<mapsto> bs)\<rparr>"
  by (auto simp: write_file_def)

lemma and_then_True: "and_then r f = (True, d') \<longleftrightarrow> (\<exists>d. r = (True, d) \<and> f d = (True, d'))"
  by (cases r) (auto simp: and_then_def)

lemmas writers = writeMap_def writeMapCount_def writeRevlist_def writeBytes_def
  writeFileidMap_def writeFileid_def writeInt_def writeBlocks_def write_file_True

lemma readInt_written:
  assumes "files d p = Some (dec_int v)" "- (2 ^ 31) \<le> v" "v < 2 ^ 31"
  shows "readInt p old d = (True, v)"
  using read_int_dec [OF assms(2,3)] assms(1) by (simp add: readInt_def)

lemma readBytes_written:
  assumes "files d p = Some bs" "length bs = n" "length old = n"
  shows "readBytes p old n d = (True, bs)"
  using assms in_read_exact [of bs n "[]"] by (simp add: readBytes_def write_prefix_def)

lemma readFileid_written:
  assumes "files d p = Some (dec (unat v))"
  shows "readFileid p old d = (True, v)"
  using assms read_u64_dec [of "[]" "unat v" "[]"] unat_less_u64 [of v]
  by (simp add: readFileid_def ends_number_def)

section \<open>The client\<close>

definition client_sized :: "core \<Rightarrow> bool" where
  "client_sized s \<longleftrightarrow> - (2 ^ 31) \<le> version s \<and> version s < 2 ^ 31
     \<and> length (key s) = KEYLEN \<and> length (kplus s) = KEYLEN \<and> length (kminus s) = KEYLEN
     \<and> om_inv (Dcount s) \<and> (\<forall>(w, c) \<in> set (Dcount s). length w < 2 ^ 47)"

lemma load_saved_client:
  assumes sized: "client_sized s"
    and old: "length (key c) = KEYLEN" "length (kplus c) = KEYLEN" "length (kminus c) = KEYLEN" "Dcount c = []"
    and save: "SaveClientToStorage s base d = (True, d')"
  shows "LoadClientFromStorage c base d'
    = Some (Inr (True, c\<lparr>version := version s, key := key s, kplus := kplus s, kminus := kminus s,
                     Dcount := Dcount s\<rparr>))"
proof -
  have d': "files d' = (files d)(base @ ''/version'' \<mapsto> dec_int (version s), base @ ''/key'' \<mapsto> key s,
      base @ ''/kplus'' \<mapsto> kplus s, base @ ''/kminus'' \<mapsto> kminus s, base @ ''/Dcount'' \<mapsto> count_bytes (Dcount s))"
    using save sized
    by (auto simp: SaveClientToStorage_def and_then_True writers client_sized_def split: if_splits)
  have "readInt (base @ ''/version'') x d' = (True, version s)" for x
    using sized by (intro readInt_written) (simp_all add: d' client_sized_def)
  moreover have "readBytes (base @ ''/key'') (key c) KEYLEN d' = (True, key s)"
    "readBytes (base @ ''/kplus'') (kplus c) KEYLEN d' = (True, kplus s)"
    "readBytes (base @ ''/kminus'') (kminus c) KEYLEN d' = (True, kminus s)"
    using sized old by (auto intro!: readBytes_written simp: d' client_sized_def)
  moreover have "readMapCount (base @ ''/Dcount'') [] d' = Some (Inr (True, Dcount s))"
    using sized by (simp add: readMapCount_def d' client_sized_def read_count_bytes)
  ultimately show ?thesis using old(4) by (simp add: LoadClientFromStorage_def)
qed

section \<open>The server\<close>

definition server_sized :: "core \<Rightarrow> bool" where
  "server_sized s \<longleftrightarrow> - (2 ^ 31) \<le> version s \<and> version s < 2 ^ 31 \<and> core_inv s
     \<and> map_sized (D s) \<and> map_sized (Dplus s) \<and> (\<forall>v \<in> set (Srev s). length v = KEYLEN)
     \<and> (\<forall>b \<in> set (A s). length b < 2 ^ 47)"

text \<open>
  What the flag \<open>dirtyD\<close> promises: when it is off, \<open>D\<close> is on the disk, and \<open>A\<close> as well,
  but for the empty block that loading leaves behind.
\<close>

definition disk_current :: "string \<Rightarrow> disk \<Rightarrow> core \<Rightarrow> bool" where
  "disk_current base d s \<longleftrightarrow>
     (if dirtyD s then length (A s) + 1 < 2 ^ 64
      else \<exists>M. files d (base @ ''/D'') = Some (map_bytes (D s)) \<and> length M + 1 < 2 ^ 64
        \<and> files d (base @ ''/A'') = Some (blocks_bytes M) \<and> A s \<in> {M, M @ [[]]})"

lemma disk_current_setup: "length M + 1 < 2 ^ 64 \<Longrightarrow> disk_current base d (SetupServer s ver L M)"
  by (simp add: disk_current_def SetupServer_eq)

lemma disk_current_same:
  "disk_current base d s \<Longrightarrow> D s' = D s \<Longrightarrow> A s' = A s \<Longrightarrow> dirtyD s' = dirtyD s \<Longrightarrow>
   disk_current base d s'"
  by (simp only: disk_current_def)

lemma add_server_keeps_D:
  "D (fst (AddServer s L)) = D s \<and> A (fst (AddServer s L)) = A s
   \<and> dirtyD (fst (AddServer s L)) = dirtyD s \<and> version (fst (AddServer s L)) = version s"
proof -
  have "D (fst (foldl add_server_step sr L)) = D (fst sr) \<and> A (fst (foldl add_server_step sr L)) = A (fst sr)
    \<and> dirtyD (fst (foldl add_server_step sr L)) = dirtyD (fst sr)
    \<and> version (fst (foldl add_server_step sr L)) = version (fst sr)" for sr
  proof (induction L arbitrary: sr)
    case (Cons p L)
    then show ?case by (simp add: add_server_step_def split: prod.split)
  qed simp
  from this [of "(s, [])"] show ?thesis by (simp add: AddServer_def)
qed

text \<open>The disk has everything.\<close>

definition stored :: "string \<Rightarrow> disk \<Rightarrow> core \<Rightarrow> bool" where
  "stored base d s \<longleftrightarrow> files d (base @ ''/version'') = Some (dec_int (version s))
    \<and> files d (base @ ''/D'') = Some (map_bytes (D s))
    \<and> (\<exists>M. files d (base @ ''/A'') = Some (blocks_bytes M) \<and> A s \<in> {M, M @ [[]]} \<and> length M + 1 < 2 ^ 64)
    \<and> files d (base @ ''/Dplus'') = Some (map_bytes (Dplus s))
    \<and> files d (base @ ''/Srev'') = Some (revlist_bytes (Srev s))"

lemma stored_current: "stored base d s \<Longrightarrow> \<not> dirtyD s \<Longrightarrow> disk_current base d s"
  by (auto simp: stored_def disk_current_def)

lemma saved_server:
  assumes cur: "disk_current base d s" and save: "SaveServerToStorage s base d = (True, s', d')"
  shows "s' = s\<lparr>dirtyD := False\<rparr> \<and> stored base d' s"
proof (cases "dirtyD s")
  case True
  then show ?thesis
    using save cur
    by (auto simp: SaveServerToStorage_def save_dirty_def and_then_True writers disk_current_def stored_def
        split: if_splits prod.splits)
next
  case False
  then have "s\<lparr>dirtyD := False\<rparr> = s" by (cases s) simp
  then show ?thesis
    using False save cur
    by (auto simp: SaveServerToStorage_def save_dirty_def and_then_True writers disk_current_def stored_def
        split: if_splits prod.splits)
qed

lemma load_stored:
  assumes sized: "server_sized s" and st: "stored base d' s"
    and c: "D c = []" "Dplus c = []" "A c = []"
  shows "\<exists>M. A s \<in> {M, M @ [[]]} \<and> files d' (base @ ''/A'') = Some (blocks_bytes M) \<and> length M + 1 < 2 ^ 64
    \<and> LoadServerFromStorage c base d'
    = Some (Inr (True, c\<lparr>version := version s, D := D s, Dplus := Dplus s, Srev := Srev s, A := M @ [[]]\<rparr>))"
proof -
  obtain M where M: "files d' (base @ ''/A'') = Some (blocks_bytes M)" "A s \<in> {M, M @ [[]]}"
    "length M + 1 < 2 ^ 64"
    using st by (auto simp: stored_def)
  have "readInt (base @ ''/version'') x d' = (True, version s)" for x
    using sized st by (intro readInt_written) (simp_all add: server_sized_def stored_def)
  moreover have "readMap (base @ ''/D'') [] d' = Some (Inr (True, D s))"
    "readMap (base @ ''/Dplus'') [] d' = Some (Inr (True, Dplus s))"
    using sized st by (simp_all add: readMap_def read_map_bytes server_sized_def core_inv_def stored_def)
  moreover have "readRevlist (base @ ''/Srev'') x d' = Some (Inr (True, Srev s))" for x
    using sized st by (simp add: readRevlist_def read_revlist_bytes server_sized_def core_inv_def stored_def)
  moreover have "\<forall>b \<in> set M. length b < 2 ^ 47"
    using sized M(2) by (auto simp: server_sized_def)
  then have "readBlocks (base @ ''/A'') [] d' = Some (Inr (True, M @ [[]]))"
    by (simp add: readBlocks_def M read_blocks_bytes)
  ultimately have "LoadServerFromStorage c base d'
    = Some (Inr (True, c\<lparr>version := version s, D := D s, Dplus := Dplus s, Srev := Srev s, A := M @ [[]]\<rparr>))"
    using c by (simp add: LoadServerFromStorage_def)
  with M show ?thesis by blast
qed

text \<open>The tie survives the restart of the server, and the disk is current again.\<close>

lemma represents_A:
  assumes r: "represents P W cl sv ix" and A: "A sv \<in> {M, M @ [[]]}" "A sv' = M @ [[]]"
    and same: "version sv' = version sv" "D sv' = D sv" "Dplus sv' = Dplus sv" "Srev sv' = Srev sv"
    and len: "length M + 1 < 2 ^ 64"
  shows "represents P W cl sv' ix"
proof -
  have "holds P (version sv') (A sv') (key cl) (D sv') w (ix_setup ix w)" if "w \<in> W" for w
    using r that A holds_append [of P "version sv" M "key cl" "D sv" w "ix_setup ix w" "[[]]"]
    unfolding same represents_def by auto
  moreover have "updates_hold P W (kplus cl) (kminus cl) (dcount cl) sv' ix"
    using r by (simp add: represents_def updates_hold_def same)
  ultimately show ?thesis using r A len by (simp add: represents_def same)
qed

lemma load_stored_represents:
  assumes r: "represents P W cl sv ix" and sized: "server_sized sv" and st: "stored base d1 sv"
  shows "\<exists>sv2. LoadServerFromStorage new_core base d1 = Some (Inr (True, sv2))
    \<and> represents P W cl sv2 ix \<and> stored base d1 sv2 \<and> server_sized sv2 \<and> \<not> dirtyD sv2"
proof -
  have new: "D new_core = []" "Dplus new_core = []" "A new_core = []" by (simp_all add: new_core_def)
  obtain M where M: "A sv \<in> {M, M @ [[]]}" and len: "length M + 1 < 2 ^ 64" and fileA: "files d1 (base @ ''/A'') = Some (blocks_bytes M)"
    and load: "LoadServerFromStorage new_core base d1
      = Some (Inr (True, new_core\<lparr>version := version sv, D := D sv, Dplus := Dplus sv, Srev := Srev sv, A := M @ [[]]\<rparr>))"
    using load_stored [OF sized st new] by blast
  let ?sv2 = "new_core\<lparr>version := version sv, D := D sv, Dplus := Dplus sv, Srev := Srev sv, A := M @ [[]]\<rparr>"
  have "represents P W cl ?sv2 ix" using len by (intro represents_A [OF r M]) simp_all
  moreover have "stored base d1 ?sv2" using st fileA len by (auto simp: stored_def)
  moreover have "server_sized ?sv2"
    using sized M by (auto simp: server_sized_def core_inv_def new_core_def om_inv_empty)
  ultimately show ?thesis using load M by (auto simp: new_core_def)
qed

lemma restart_server:
  assumes r: "represents P W cl sv ix" and sized: "server_sized sv"
    and cur: "disk_current base d sv" and save: "SaveServerToStorage sv base d = (True, sv1, d1)"
  shows "\<exists>sv2. LoadServerFromStorage new_core base d1 = Some (Inr (True, sv2))
    \<and> represents P W cl sv2 ix \<and> stored base d1 sv2 \<and> server_sized sv2 \<and> \<not> dirtyD sv2"
  using saved_server [OF cur save] by (intro load_stored_represents [OF r sized]) simp

lemma restart_client:
  assumes r: "represents P W cl sv ix" and sized: "client_sized cl"
    and save: "SaveClientToStorage cl base d = (True, d1)"
  shows "\<exists>cl2. LoadClientFromStorage new_core base d1 = Some (Inr (True, cl2))
    \<and> represents P W cl2 sv ix \<and> same_keys cl2 cl"
proof -
  have "LoadClientFromStorage new_core base d1
    = Some (Inr (True, new_core\<lparr>version := version cl, key := key cl, kplus := kplus cl, kminus := kminus cl,
                     Dcount := Dcount cl\<rparr>))"
    by (rule load_saved_client [OF sized _ _ _ _ save]) (simp_all add: new_core_def)
  then show ?thesis
    using r by (auto simp: represents_def same_keys_def dcount_def [abs_def])
qed

section \<open>What goes wrong\<close>

lemma save_clean:
  assumes "\<not> dirtyD s" "SaveServerToStorage s base d = (True, s', d')"
  shows "s' = s \<and> files d' = (files d)(base @ ''/version'' \<mapsto> dec_int (version s),
    base @ ''/Dplus'' \<mapsto> map_bytes (Dplus s), base @ ''/Srev'' \<mapsto> revlist_bytes (Srev s))"
proof -
  obtain ok1 d1 where 1: "writeInt (base @ ''/version'') (version s) d = (ok1, d1)" by fastforce
  obtain ok2 d2 where 2: "and_then (writeMap (base @ ''/Dplus'') (Dplus s) d1)
      (writeRevlist (base @ ''/Srev'') (Srev s)) = (ok2, d2)" by fastforce
  have ok: "ok1" "ok2" "s' = s" "d' = d2"
    using assms 2 by (auto simp: SaveServerToStorage_def save_dirty_def 1 split: if_splits)
  then show ?thesis using 1 2 by (auto simp: and_then_True writers)
qed

text \<open>A server that was never set up leaves no \<open>D\<close>, and cannot be loaded.\<close>

lemma save_without_setup:
  assumes "\<not> dirtyD s" "files d (base @ ''/D'') = None" "SaveServerToStorage s base d = (True, s', d')"
  shows "\<exists>c'. LoadServerFromStorage c base d' = Some (Inr (False, c')) \<and> Dplus c' = Dplus c \<and> Srev c' = Srev c"
proof -
  have none: "files d' (base @ ''/D'') = None"
    using save_clean [OF assms(1,3)] assms(2) by simp
  obtain ok v where "readInt (base @ ''/version'') (version c) d' = (ok, v)" by fastforce
  then show ?thesis
    by (cases ok) (simp_all add: LoadServerFromStorage_def readMap_def none)
qed

text \<open>A map file that was cut inside a key, or between two records, is read as complete.\<close>

lemma readMap_cut:
  assumes m: "om_inv m" "map_sized m" and part: "length part < KEYLEN"
  shows "read_loop readMap_body (istream_on (map_bytes m @ part)) [] = Some (Inr (True, m))"
proof -
  have "map_bytes m = concat (map (\<lambda>r. (case r of (k, v) \<Rightarrow> k @ writeString v) @ []) m)"
    unfolding map_bytes_def using m(2)
    by (intro arg_cong [where f = concat] map_cong refl) (auto simp: map_sized_def)
  moreover have "\<exists>i. readMap_body (istream_on part) m' = Inr (Some True, m', i)" for m'
    using part by (simp add: readMap_body_def in_read_def)
  ultimately show ?thesis
    using map_file.read_until [of m "[]" part "[]" True m] m omap_rebuild [OF m(1)]
    by (simp add: map_sized_def)
qed

end
