(* ===== verification/Server.thy ===== *)
theory Server
  imports Messages Restart
begin

text \<open>
  \<open>DSSE::Server\<close> (\<open>src/DSSEServer.cpp\<close>): the four handlers, their dispatch, and the loop
  of \<open>ListenAndServe\<close> with the saving of the state after each request.
\<close>

section \<open>State\<close>

record server =
  sv_core :: core
  sv_sock :: rep_socket
  saveDir :: string
  sv_disk :: disk

definition new_server :: "string \<Rightarrow> disk \<Rightarrow> server" where
  "new_server dir d = \<lparr>sv_core = new_core, sv_sock = rep_new, saveDir = dir, sv_disk = d\<rparr>"

section \<open>Handlers\<close>

text \<open>
  \<open>send_message\<close>: a message that does not serialize is reported and not sent. \<open>send\<close>
  never returns false here, as the socket blocks.
\<close>

definition server_send :: "bytes option \<Rightarrow> server \<Rightarrow> err + bool \<times> server" where
  "server_send m s =
     (case m of None \<Rightarrow> Inr (False, s)
      | Some b \<Rightarrow> rbind (rep_send b (sv_sock s)) (\<lambda>k. Inr (True, s\<lparr>sv_sock := k\<rparr>)))"

definition HandleSetup :: "server \<Rightarrow> int \<Rightarrow> setup_pair list \<Rightarrow> bytes list \<Rightarrow> err + server" where
  "HandleSetup s ver L M =
     (let s = s\<lparr>sv_core := SetupServer (sv_core s) ver L M\<rparr>
      in rbind (rep_send [] (sv_sock s)) (\<lambda>k. Inr (s\<lparr>sv_sock := k\<rparr>)))"

definition keys_of :: "search_msg \<Rightarrow> search_keys" where
  "keys_of m = \<lparr>sk_K1 = k1 m, sk_K2 = k2 m, sk_K1plus = k1plus m, sk_K2plus = k2plus m,
                sk_K1minus = k1minus m\<rparr>"

definition HandleSearch :: "prims \<Rightarrow> wire \<Rightarrow> server \<Rightarrow> search_msg \<Rightarrow> (err + server) option" where
  "HandleSearch P F s m =
     (if length (k1 m) \<noteq> KEYLEN then Some (Inr s)
      else if length (k2 m) \<noteq> KEYLEN then Some (Inr s)
      else if length (k1plus m) \<noteq> KEYLEN then Some (Inr s)
      else if length (k2plus m) \<noteq> KEYLEN then Some (Inr s)
      else if length (k1minus m) \<noteq> KEYLEN then Some (Inr s)
      else obind (SearchServer P (sv_core s) (keys_of m)) (\<lambda>ids.
             Some (rbind (server_send (ser_search F ids) s) (\<lambda>(ok, s). Inr s))))"

definition HandleAdd :: "wire \<Rightarrow> server \<Rightarrow> add_pair list \<Rightarrow> err + server" where
  "HandleAdd F s L =
     (let (c, r) = AddServer (sv_core s) L; s = s\<lparr>sv_core := c\<rparr>
      in rbind (server_send (ser_result F (AddResult (map (\<lambda>x. x \<noteq> 0) r))) s) (\<lambda>(ok, s). Inr s))"

definition HandleDelete :: "wire \<Rightarrow> server \<Rightarrow> bytes list \<Rightarrow> err + server" where
  "HandleDelete F s L =
     (let s = s\<lparr>sv_core := DeleteServer (sv_core s) L\<rparr>
      in rbind (server_send (ser_result F DeleteResult) s) (\<lambda>(ok, s). Inr s))"

definition HandleMessage :: "prims \<Rightarrow> wire \<Rightarrow> server \<Rightarrow> request \<Rightarrow> (err + server) option" where
  "HandleMessage P F s req =
     (case body req of
        SetupMsg L M \<Rightarrow> Some (HandleSetup s (rq_version req) L M)
      | SearchMsg m \<Rightarrow> HandleSearch P F s m
      | AddMsg L \<Rightarrow> Some (HandleAdd F s L)
      | DeleteMsg L \<Rightarrow> Some (HandleDelete F s L)
      | NoMsg \<Rightarrow> Some (Inr s))"

section \<open>ListenAndServe\<close>

definition has_search :: "request \<Rightarrow> bool" where
  "has_search req = (case body req of SearchMsg m \<Rightarrow> True | _ \<Rightarrow> False)"

definition save_state :: "request \<Rightarrow> server \<Rightarrow> server" where
  "save_state req s =
     (if saveDir s \<noteq> [] \<and> \<not> has_search req
      then let (ok, c, d) = SaveServerToStorage (sv_core s) (saveDir s) (sv_disk s)
           in s\<lparr>sv_core := c, sv_disk := d\<rparr>
      else s)"

text \<open>
  The \<open>recv\<close> at the top of the loop waits for a message; on a socket that owes a reply it
  throws at once.
\<close>

definition await :: "server \<Rightarrow> err + server" where
  "await s = rbind (rep_recv (sv_sock s)) (\<lambda>k. Inr s)"

text \<open>
  One turn of the \<open>for (;;)\<close>, from the message that \<open>recv\<close> returns to the \<open>recv\<close> of the next
  turn. \<open>None\<close>: the search does not return; \<open>Inl\<close>: the process ends. For a message that does
  not parse the loop goes on without a reply. The lines \<open>Got a ... request\<close> of the dispatch
  are left out.
\<close>

definition serve_one :: "prims \<Rightarrow> wire \<Rightarrow> server \<Rightarrow> bytes \<Rightarrow> (err + server) option" where
  "serve_one P F s msg =
     (case rep_recv (sv_sock s) of
        Inl e \<Rightarrow> Some (Inl e)
      | Inr k \<Rightarrow>
          let s = s\<lparr>sv_sock := k\<rparr> in
          obind (case parse_request F msg of
                   None \<Rightarrow> Some (Inr s)
                 | Some req \<Rightarrow> obind (HandleMessage P F s req) (\<lambda>s. Some (Inr (save_state req s))))
            (\<lambda>s. Some (await s)))"

text \<open>The loop, over the messages that arrive; with no more to come it waits.\<close>

fun ListenAndServe :: "prims \<Rightarrow> wire \<Rightarrow> server \<Rightarrow> bytes list \<Rightarrow> (err + server) option" where
  "ListenAndServe P F s [] = Some (await s)"
| "ListenAndServe P F s (msg # msgs) =
     obind (serve_one P F s msg) (\<lambda>s. ListenAndServe P F s msgs)"

text \<open>\<open>Server::Load\<close>\<close>

definition server_load :: "server \<Rightarrow> server loaded" where
  "server_load s =
     map_load (\<lambda>c. s\<lparr>sv_core := c\<rparr>) (LoadServerFromStorage (sv_core s) (saveDir s) (sv_disk s))"

section \<open>Loading always comes to an end\<close>

named_theorems load_ends "loading comes to an end"

lemma load_then_ends [load_ends]:
  assumes "load_ends r" "\<And>c. load_ends (f c)"
  shows "load_ends (load_then r f)"
proof (cases "\<exists>m. r = Some (Inr (True, m))")
  case True
  then show ?thesis using assms(2) by auto
next
  case False
  with assms(1) have "r = Some (Inl LengthError) \<or> (\<exists>m. r = Some (Inr (False, m)))"
    by (force simp: load_ends_def)
  then show ?thesis by (auto simp: load_ends_def)
qed

lemma map_load_ends [load_ends]: "load_ends r \<Longrightarrow> load_ends (map_load f r)"
  by (auto simp: load_ends_def)

lemma read_ends [load_ends]:
  "load_ends (readMap p m d)" "load_ends (readMapCount p c d)" "load_ends (readRevlist p r d)"
  "load_ends (readFileidMap p n d)" "load_ends (readBlocks p b d)"
  using map_file.read_returns count_file.read_returns revlist_file.read_returns
    fileidMap_file.read_returns blocks_file.read_returns
  by (simp_all add: readMap_def readMapCount_def readRevlist_def readFileidMap_def readBlocks_def map_load_ends
      split: option.splits)

lemma LoadServer_ends [load_ends]: "load_ends (LoadServerFromStorage c base d)"
  unfolding LoadServerFromStorage_def by (auto intro!: load_ends simp: case_prod_beta)

lemma LoadClient_ends [load_ends]: "load_ends (LoadClientFromStorage c base d)"
  unfolding LoadClientFromStorage_def by (auto intro!: load_ends simp: case_prod_beta)

text \<open>Saving changes no more of the core than its dirty flag.\<close>

lemma SaveServer_core: "fst (snd (SaveServerToStorage c dir d)) \<in> {c, c\<lparr>dirtyD := False\<rparr>}"
proof -
  have "fst (snd (save_dirty c dir d)) \<in> {c, c\<lparr>dirtyD := False\<rparr>}" for d
    by (simp add: save_dirty_def split: prod.split)
  then show ?thesis by (simp add: SaveServerToStorage_def Let_def case_prod_beta)
qed

lemma save_state_dirty: "sv_core (save_state req s) \<in> {sv_core s, (sv_core s)\<lparr>dirtyD := False\<rparr>}"
  using SaveServer_core [of "sv_core s" "saveDir s" "sv_disk s"]
  by (simp add: save_state_def case_prod_beta)

section \<open>Requests and replies\<close>

text \<open>A request the handlers answer.\<close>

definition well_formed :: "request \<Rightarrow> bool" where
  "well_formed req =
     (case body req of
        SearchMsg m \<Rightarrow> length (k1 m) = KEYLEN \<and> length (k2 m) = KEYLEN \<and> length (k1plus m) = KEYLEN
          \<and> length (k2plus m) = KEYLEN \<and> length (k1minus m) = KEYLEN
      | NoMsg \<Rightarrow> False | _ \<Rightarrow> True)"

definition waiting :: "server \<Rightarrow> bool" where
  "waiting s \<longleftrightarrow> \<not> sending_reply (sv_sock s)"

declare serve_one_def [loop_defs] rep_recv_def [loop_defs] waiting_def [loop_defs] await_def [loop_defs]

lemma save_state_sock [simp]: "sv_sock (save_state req s) = sv_sock s" "saveDir (save_state req s) = saveDir s"
  by (auto simp: save_state_def split: prod.split)

lemma rep_send_ready:
  "sending_reply k \<Longrightarrow> rep_send b k = Inr (k\<lparr>outbox := outbox k @ [b], sending_reply := False\<rparr>)"
  by (simp add: rep_send_def)

lemma server_send_ready:
  "sending_reply (sv_sock s) \<Longrightarrow>
   server_send (Some b) s = Inr (True, s\<lparr>sv_sock := (sv_sock s)\<lparr>outbox := outbox (sv_sock s) @ [b], sending_reply := False\<rparr>\<rparr>)"
  by (simp add: server_send_def rep_send_ready)

lemma await_waiting: "await s = (if waiting s then Inr s else Inl ZmqError)"
  by (simp add: loop_defs)

lemma serve_one_not_waiting: "\<not> waiting s \<Longrightarrow> serve_one P F s msg = Some (Inl ZmqError)"
  by (simp add: loop_defs)

text \<open>After a request that was not answered the next \<open>recv\<close> ends the process with an exception.\<close>

lemma serve_one_unanswered:
  assumes w: "waiting s"
    and bad: "parse_request F msg = None \<or> (\<exists>req. parse_request F msg = Some req \<and> \<not> well_formed req)"
  shows "serve_one P F s msg = Some (Inl ZmqError)"
proof (cases "parse_request F msg")
  case None
  with w show ?thesis by (simp add: loop_defs)
next
  case (Some req)
  let ?s = "s\<lparr>sv_sock := (sv_sock s)\<lparr>sending_reply := True\<rparr>\<rparr>"
  have "HandleMessage P F ?s req = Some (Inr ?s)"
    using bad Some
    by (auto simp: well_formed_def HandleMessage_def HandleSearch_def split: request_body.splits)
  with w Some show ?thesis by (simp add: loop_defs)
qed

text \<open>
  \<open>TwoLevelPointer\<close> is a version the protocol knows and the server does not: a Setup with
  it is accepted, and the next Search ends the server.
\<close>

lemma search_unknown_version:
  "version s \<notin> {Basic, Packed, Pointer} \<Longrightarrow> SearchServer P s ks = Some (Inl (Exit 1))"
  by (simp add: SearchServer_def)

lemma serve_setup:
  assumes "waiting s" "parse_request F m = Some \<lparr>body = SetupMsg L M, rq_version = ver\<rparr>"
  shows "\<exists>s1 x. serve_one P F s m = Some (Inr s1) \<and> waiting s1 \<and> outbox (sv_sock s1) = outbox (sv_sock s) @ [[]]
    \<and> sv_core s1 = (SetupServer (sv_core s) ver L M)\<lparr>dirtyD := x\<rparr>"
proof -
  let ?c = "SetupServer (sv_core s) ver L M" and ?req = "\<lparr>body = SetupMsg L M, rq_version = ver\<rparr>"
  let ?s = "s\<lparr>sv_core := ?c, sv_sock := (sv_sock s)\<lparr>outbox := outbox (sv_sock s) @ [[]], sending_reply := False\<rparr>\<rparr>"
  have "serve_one P F s m = Some (Inr (save_state ?req ?s))"
    using assms by (simp add: loop_defs HandleMessage_def HandleSetup_def rep_send_def Let_def)
  moreover have "sv_core (save_state ?req ?s) \<in> {?c\<lparr>dirtyD := dirtyD ?c\<rparr>, ?c\<lparr>dirtyD := False\<rparr>}"
    using save_state_dirty [of ?req ?s] by simp
  then have "\<exists>x. sv_core (save_state ?req ?s) = ?c\<lparr>dirtyD := x\<rparr>" by blast
  ultimately show ?thesis by (simp add: waiting_def)
qed

lemma serve_search_error:
  assumes "waiting s" "parse_request F msg = Some req" "body req = SearchMsg m" "well_formed req"
    and "SearchServer P (sv_core s) (keys_of m) = Some (Inl e)"
  shows "serve_one P F s msg = Some (Inl e)"
  using assms by (simp add: loop_defs HandleMessage_def HandleSearch_def well_formed_def)

lemma serve_unknown_version:
  assumes w: "waiting s" and ver: "ver \<notin> {Basic, Packed, Pointer}"
    and set: "parse_request F m1 = Some \<lparr>body = SetupMsg L M, rq_version = ver\<rparr>"
    and srch: "parse_request F m2 = Some req" "body req = SearchMsg m" "well_formed req"
  shows "\<exists>s1. serve_one P F s m1 = Some (Inr s1) \<and> waiting s1 \<and> outbox (sv_sock s1) = outbox (sv_sock s) @ [[]]
    \<and> version (sv_core s1) = ver \<and> serve_one P F s1 m2 = Some (Inl (Exit 1))"
proof -
  obtain s1 x where s1: "serve_one P F s m1 = Some (Inr s1)" "waiting s1" "outbox (sv_sock s1) = outbox (sv_sock s) @ [[]]"
    "sv_core s1 = (SetupServer (sv_core s) ver L M)\<lparr>dirtyD := x\<rparr>"
    using serve_setup [OF w set] by blast
  then have v: "version (sv_core s1) = ver" by (simp add: SetupServer_eq)
  have "serve_one P F s1 m2 = Some (Inl (Exit 1))"
    using serve_search_error [OF s1(2) srch] search_unknown_version ver v by blast
  with s1 v show ?thesis by blast
qed

text \<open>
  An entry that does not fit the array it is decrypted into: the server takes it in a Setup
  and writes past the array, or reads a length below zero, in the search that finds it.
\<close>

lemma serve_misfit:
  assumes w: "waiting s" and ver: "ver \<in> {Packed, Pointer}"
    and set: "parse_request F m1 = Some \<lparr>body = SetupMsg [\<lparr>sp_Token = mac_long P (k1 m) 0, sp_FileID = d\<rparr>] M, rq_version = ver\<rparr>"
    and d: "length d < 16 \<or> ENCRYPTED_BLOCK_SIZE < length d"
    and srch: "parse_request F m2 = Some req" "body req = SearchMsg m" "well_formed req"
  shows "\<exists>s1. serve_one P F s m1 = Some (Inr s1) \<and> outbox (sv_sock s1) = outbox (sv_sock s) @ [[]]
    \<and> serve_one P F s1 m2 = Some (Inl Undefined)"
proof -
  obtain s1 x where s1: "serve_one P F s m1 = Some (Inr s1)" "waiting s1" "outbox (sv_sock s1) = outbox (sv_sock s) @ [[]]"
    "sv_core s1 = (SetupServer (sv_core s) ver [\<lparr>sp_Token = mac_long P (k1 m) 0, sp_FileID = d\<rparr>] M)\<lparr>dirtyD := x\<rparr>"
    using serve_setup [OF w set] by blast
  then have c: "version (sv_core s1) = ver" "D (sv_core s1) = [(mac_long P (k1 m) 0, d)]"
    by (simp_all add: SetupServer_eq)
  have "decrypt_bytes P k (string_data d) (length d) BLOCK_SIZE = Inl Undefined" for k
    using d by (auto simp: decrypt_bytes_def sizes)
  then have "entry_packed P (sv_core s1) k k' d = Inl Undefined" "entry_pointer P (sv_core s1) k k' d = Inl Undefined" for k k'
    by (simp_all add: entry_packed_def entry_pointer_def)
  then have "scan (\<lambda>c. om_lookup (D (sv_core s1)) (mac_long P (k1 m) c)) (entry_packed P (sv_core s1) k k') 0 [] = Some (Inl Undefined)"
    "scan (\<lambda>c. om_lookup (D (sv_core s1)) (mac_long P (k1 m) c)) (entry_pointer P (sv_core s1) k k') 0 [] = Some (Inl Undefined)" for k k'
    by (auto intro!: scan_first_error [where d = d] simp: c)
  then have "SearchServer P (sv_core s1) (keys_of m) = Some (Inl Undefined)"
    using ver by (auto simp: SearchServer_def SearchServerPacked_def SearchServerPointer_def c(1) keys_of_def versions)
  with serve_search_error [OF s1(2) srch] s1 show ?thesis by blast
qed

end
