(* ===== verification/System.thy ===== *)
theory System
  imports Client Server Session
begin

text \<open>
  Client and server together: the client of \<open>Client\<close> talks over its socket to the server
  of \<open>Server\<close>, which saves its state after each request; either side may be stopped and
  started again from its files. The whole keeps the tie to the plain index.
\<close>

section \<open>The server behind the client's socket\<close>

text \<open>No reply comes when the request is not answered or the server ends or hangs.\<close>

definition server_net :: "prims \<Rightarrow> wire \<Rightarrow> server net" where
  "server_net P F s b =
     (case serve_one P F s b of
        Some (Inr s') \<Rightarrow>
          (s', if length (outbox (sv_sock s)) < length (outbox (sv_sock s'))
               then Reply (last (outbox (sv_sock s'))) else Silence)
      | _ \<Rightarrow> (s, Silence))"

text \<open>Messages small enough for the serializer.\<close>

definition wire_total :: "wire \<Rightarrow> bool" where
  "wire_total F \<longleftrightarrow> (\<forall>x. ser_request F x \<noteq> None) \<and> (\<forall>x. ser_search F x \<noteq> None)
     \<and> (\<forall>x. ser_result F x \<noteq> None)"

definition disk_fine :: "string \<Rightarrow> disk \<Rightarrow> bool" where
  "disk_fine dir d \<longleftrightarrow> mkdir_ok d dir \<and> (\<forall>p. wopen d p)"

definition answered :: "bytes \<Rightarrow> server \<Rightarrow> server" where
  "answered b s = s\<lparr>sv_sock := (sv_sock s)\<lparr>outbox := outbox (sv_sock s) @ [b], sending_reply := False\<rparr>\<rparr>"

definition received :: "server \<Rightarrow> server" where
  "received s = s\<lparr>sv_sock := (sv_sock s)\<lparr>sending_reply := True\<rparr>\<rparr>"

lemma answered_fields [simp]:
  "sv_core (answered b s) = sv_core s" "saveDir (answered b s) = saveDir s"
  "sv_disk (answered b s) = sv_disk s" "waiting (answered b s)"
  "\<not> sending_reply (sv_sock (answered b s))" "outbox (sv_sock (answered b s)) = outbox (sv_sock s) @ [b]"
  by (simp_all add: answered_def waiting_def)

lemma received_fields [simp]:
  "sv_core (received s) = sv_core s" "saveDir (received s) = saveDir s"
  "sv_disk (received s) = sv_disk s" "sending_reply (sv_sock (received s))"
  "outbox (sv_sock (received s)) = outbox (sv_sock s)"
  by (simp_all add: received_def)

lemma server_net_handled:
  assumes "waiting s" "parse_request F msg = Some req"
    and "HandleMessage P F (received s) req = Some (Inr (answered b t))"
    and "outbox (sv_sock t) = outbox (sv_sock s)"
  shows "server_net P F s msg = (save_state req (answered b t), Reply b)"
  using assms by (simp add: server_net_def loop_defs received_def)

section \<open>Saving after a request\<close>

lemma write_file_fine: "disk_fine dir d \<Longrightarrow> \<exists>d'. write_file p bs d = (True, d') \<and> disk_fine dir d'"
  by (auto simp: write_file_def disk_fine_def)

lemma and_then_fine:
  assumes "\<exists>d. r = (True, d) \<and> disk_fine dir d" "\<And>d. disk_fine dir d \<Longrightarrow> \<exists>d'. f d = (True, d') \<and> disk_fine dir d'"
  shows "\<exists>d'. and_then r f = (True, d') \<and> disk_fine dir d'"
  using assms by (auto simp: and_then_def)

lemma save_dirty_fine:
  assumes "disk_fine dir d"
  shows "\<exists>s' d'. save_dirty s base d = (True, s', d') \<and> disk_fine dir d'"
proof -
  have "\<exists>d'. and_then (writeMap (base @ ''/D'') (D s) d) (writeBlocks (base @ ''/A'') (A s)) = (True, d')
      \<and> disk_fine dir d'"
    unfolding writeMap_def writeBlocks_def by (intro and_then_fine write_file_fine assms)
  then show ?thesis using assms by (auto simp: save_dirty_def)
qed

lemma SaveServer_fine:
  assumes d: "disk_fine base d"
  shows "\<exists>s' d'. SaveServerToStorage s base d = (True, s', d') \<and> disk_fine base d'"
proof -
  obtain d1 where 1: "writeInt (base @ ''/version'') (version s) d = (True, d1)" "disk_fine base d1"
    using write_file_fine [OF d] by (auto simp: writeInt_def)
  obtain s2 d2 where 2: "save_dirty s base d1 = (True, s2, d2)" "disk_fine base d2"
    using save_dirty_fine [OF 1(2)] by blast
  have "\<exists>d'. and_then (writeMap (base @ ''/Dplus'') (Dplus s2) d2) (writeRevlist (base @ ''/Srev'') (Srev s2))
      = (True, d') \<and> disk_fine base d'"
    unfolding writeMap_def writeRevlist_def by (intro and_then_fine write_file_fine 2)
  then show ?thesis
    using d 1 2 by (auto simp: SaveServerToStorage_def disk_fine_def)
qed

lemma SaveClient_fine:
  assumes d: "disk_fine base d"
  shows "\<exists>d'. Client_Save s base d = (True, d') \<and> disk_fine base d'"
proof -
  have "\<exists>d'. SaveClientToStorage (cl_core s) base d = (True, d') \<and> disk_fine base d'"
    unfolding SaveClientToStorage_def writeInt_def writeBytes_def writeMapCount_def
    using d by (simp add: disk_fine_def) (auto simp: and_then_def write_file_def)
  then show ?thesis
    unfolding Client_Save_def saveExtraState_def writeFileidMap_def writeFileid_def
    by (elim and_then_fine) (intro and_then_fine write_file_fine)
qed

text \<open>A server that listens, with its state on the disk.\<close>

definition settled :: "server \<Rightarrow> bool" where
  "settled s \<longleftrightarrow> waiting s \<and> saveDir s \<noteq> [] \<and> disk_fine (saveDir s) (sv_disk s)
     \<and> stored (saveDir s) (sv_disk s) (sv_core s) \<and> \<not> dirtyD (sv_core s) \<and> server_sized (sv_core s)"

lemma save_state_settles:
  assumes s: "waiting s" "saveDir s \<noteq> []" "disk_fine (saveDir s) (sv_disk s)" "server_sized (sv_core s)"
    and cur: "disk_current (saveDir s) (sv_disk s) (sv_core s)" and req: "\<not> has_search req"
  shows "settled (save_state req s) \<and> sv_core (save_state req s) = (sv_core s)\<lparr>dirtyD := False\<rparr>
    \<and> saveDir (save_state req s) = saveDir s"
proof -
  obtain c d where sv: "SaveServerToStorage (sv_core s) (saveDir s) (sv_disk s) = (True, c, d)"
    "disk_fine (saveDir s) d"
    using SaveServer_fine [OF s(3)] by blast
  have c: "c = (sv_core s)\<lparr>dirtyD := False\<rparr>" and st: "stored (saveDir s) d (sv_core s)"
    using saved_server [OF cur sv(1)] by auto
  have "server_sized c" using s(4) by (simp add: c server_sized_def core_inv_def)
  moreover have "stored (saveDir s) d c" using st by (simp add: c stored_def)
  ultimately show ?thesis
    using s sv req by (simp add: save_state_def settled_def waiting_def c)
qed

lemma settled_current: "settled s \<Longrightarrow> disk_current (saveDir s) (sv_disk s) (sv_core s)"
  by (auto simp: settled_def stored_current)

section \<open>Sizes\<close>

lemma om_insert_set: "set (om_insert k v m) \<subseteq> insert (k, v) (set m)"
  by (induction k v m rule: om_insert.induct) auto

lemma map_sized_insert:
  "map_sized m \<Longrightarrow> length k = KEYLEN \<Longrightarrow> length v < 2 ^ 47 \<Longrightarrow> map_sized (om_insert k v m)"
  using om_insert_set [of k v m] by (auto simp: map_sized_def)

definition pair_sized :: "add_pair \<Rightarrow> bool" where
  "pair_sized p \<longleftrightarrow> length (ap_Token p) = KEYLEN \<and> length (ap_FileID p) < 2 ^ 47"

lemma server_sized_AddServer:
  assumes "server_sized s" "\<forall>p \<in> set L. pair_sized p"
  shows "server_sized (fst (AddServer s L))"
proof -
  have step: "server_sized (fst (add_server_step (t, r) p))" if "server_sized t" "pair_sized p" for t r p
  proof -
    have "core_inv (fst (add_server_step (t, r) p))"
      using that(1) by (intro core_inv_add_server_step) (simp add: server_sized_def)
    moreover have "set (os_erase x (Srev t)) \<subseteq> set (Srev t)" for x by (rule set_os_erase_subset)
    ultimately show ?thesis
      using that map_sized_insert [of "Dplus t" "ap_Token p" "ap_FileID p"]
      by (auto simp: server_sized_def pair_sized_def add_server_step_def)
  qed
  have "server_sized (fst (foldl add_server_step sr L))" if "server_sized (fst sr)" for sr
    using that assms(2)
  proof (induction L arbitrary: sr)
    case (Cons p L)
    then show ?case using step [of "fst sr" p "snd sr"] by simp
  qed simp
  from this [of "(s, [])"] assms(1) show ?thesis by (simp add: AddServer_def)
qed

lemma AddClient_sized:
  assumes ok: "prims_ok P" and junk: "\<And>i. length (junk i) < 2 ^ 47"
    and run: "AddClient P s fid junk words = (s', L, W)" and p: "p \<in> set L"
  shows "pair_sized p"
proof -
  have len: "length (write_prefix (junk i) (encrypt_long P k fid)) < 2 ^ 47" for i k
    using junk [of i] by (simp add: write_prefix_def)
  have "snd (add_loop P s fid junk 0 words)
      = map (\<lambda>(j, w). add_token_pair P s fid (junk j) w) (zip [0..<0 + length words] words)"
    by (rule add_loop_pairs)
  then obtain q i w where "p = \<lparr>ap_Token = tp_l q, ap_FileID = tp_d q, ap_RevID = tp_r q\<rparr>"
      "q = add_token_pair P s fid (junk i) w"
    using run p by (auto simp: AddClient_def Let_def case_prod_beta)
  then show ?thesis
    using ok len by (auto simp: pair_sized_def add_token_pair_def Let_def KEYLEN_def DIGESTLEN_def)
qed

lemma server_sized_DeleteServer:
  "server_sized s \<Longrightarrow> \<forall>v \<in> set L. length v = KEYLEN \<Longrightarrow> server_sized (DeleteServer s L)"
  using core_inv_DeleteServer [of s L]
  by (auto simp: server_sized_def DeleteServer_eq os.elems_ins_all)

lemma DeleteClient_sized: "prims_ok P \<Longrightarrow> v \<in> set (DeleteClient P s fid words) \<Longrightarrow> length v = KEYLEN"
  by (auto simp: set_DeleteClient label_def KEYLEN_def DIGESTLEN_def)

section \<open>Loading the client\<close>

lemma Client_Load_ends [load_ends]: "load_ends (Client_Load s dir d)"
proof -
  have "load_ends (loadExtraState st dir d)" for st
    unfolding loadExtraState_def by (auto intro!: load_ends simp: case_prod_beta)
  then show ?thesis unfolding Client_Load_def by (intro load_ends)
qed

end
