(* ===== verification/Deployment.thy ===== *)
theory Deployment
  imports System
begin

text \<open>
  A client and a server in use: Add, Delete and Search over the socket, the server saving
  after each request, and either process stopped and started again from its files. Each
  operation is a step that keeps \<open>sys_rep\<close>, the tie between the two processes with their
  files and the plain index; runs of steps follow from the locale \<open>simulation\<close>.
\<close>

section \<open>Operations over the socket\<close>

lemma exchange_reply:
  assumes "cl_sock cl = req_new" "m = Some b" "net w b = (w', Reply r)"
  shows "exchange net cl w m = Some (Inr (Some r, cl, w'))"
proof -
  have "cl\<lparr>cl_sock := req_new\<rparr> = cl" using assms(1) by (cases cl) simp
  moreover have "req_new\<lparr>receiving_reply := False\<rparr> = req_new" by (simp add: req_new_def)
  ultimately show ?thesis
    using assms by (simp add: exchange_def req_send_def req_recv_def req_new_def)
qed

lemma wire_serializes:
  assumes "wire_ok F" "wire_total F"
  shows "enum_version (rq_version x) \<Longrightarrow> \<exists>b. ser_request F x = Some b \<and> parse_request F b = Some x"
    "\<exists>b. ser_search F ids = Some b \<and> parse_search F b = Some ids"
    "\<exists>b. ser_result F y = Some b \<and> parse_result F b = Some y"
proof -
  obtain b c e where "ser_request F x = Some b" "ser_search F ids = Some c" "ser_result F y = Some e"
    using assms(2) unfolding wire_total_def by (metis option.exhaust)
  with assms(1) show "enum_version (rq_version x) \<Longrightarrow> \<exists>b. ser_request F x = Some b \<and> parse_request F b = Some x"
    "\<exists>b. ser_search F ids = Some b \<and> parse_search F b = Some ids"
    "\<exists>b. ser_result F y = Some b \<and> parse_result F b = Some y"
    by (simp_all add: wire_ok_def)
qed

lemma request_of_version: "enum_version (rq_version (request_of b))"
  by (simp add: request_of_def)

lemma server_send_answered:
  "sending_reply (sv_sock s) \<Longrightarrow> server_send (Some b) s = Inr (True, answered b s)"
  by (simp add: server_send_ready answered_def)

lemma add_client2_bools:
  "add_client2_loop s (map (\<lambda>x. if x then 1 else 0) (map (\<lambda>x. x \<noteq> 0) r)) W i = add_client2_loop s r W i"
  by (induction r arbitrary: s i) auto

text \<open>
  A server that listens answers a request it can handle; \<open>after\<close> says what becomes of the
  server once it has handled it. This is all the operations of the client need.
\<close>

locale answering =
  fixes P :: prims and F :: wire and net :: "server net" and after :: "request \<Rightarrow> server \<Rightarrow> server"
  assumes handled: "waiting s \<Longrightarrow> parse_request F msg = Some req \<Longrightarrow>
    HandleMessage P F (received s) req = Some (Inr (answered b t)) \<Longrightarrow>
    outbox (sv_sock t) = outbox (sv_sock s) \<Longrightarrow> net s msg = (after req (answered b t), Reply b)"
    and searched: "has_search req \<Longrightarrow> after req s = s"
begin

lemmas exchanged = exchange_reply [where net = net]

lemma Client_Setup_net:
  assumes F: "wire_ok F" "wire_total F" and ready: "cl_sock cl = req_new" "waiting sv"
    and run: "SetupClient P devs (cl_core cl) ver tokens fileids = Some (Inr (c, L, M))"
    and ver: "enum_version ver"
  shows "Client_Setup P F net devs cl sv ver tokens fileids
    = Some (Inr (True, cl\<lparr>cl_core := c\<rparr>, after \<lparr>body = SetupMsg L M, rq_version = ver\<rparr>
        (answered [] ((received sv)\<lparr>sv_core := SetupServer (sv_core sv) ver L M\<rparr>))))"
proof -
  let ?req = "\<lparr>body = SetupMsg L M, rq_version = ver\<rparr>"
  let ?t = "(received sv)\<lparr>sv_core := SetupServer (sv_core sv) ver L M\<rparr>"
  obtain m where m: "ser_request F ?req = Some m" "parse_request F m = Some ?req"
    using wire_serializes(1) [OF F, of ?req] ver by auto
  have "HandleMessage P F (received sv) ?req = Some (Inr (answered [] ?t))"
    by (simp add: HandleMessage_def HandleSetup_def rep_send_ready answered_def Let_def)
  then have net: "net sv m = (after ?req (answered [] ?t), Reply [])"
    by (intro handled ready m) simp_all
  have "exchange net (cl\<lparr>cl_core := c\<rparr>) sv (ser_request F ?req)
      = Some (Inr (Some [], cl\<lparr>cl_core := c\<rparr>, after ?req (answered [] ?t)))"
    by (rule exchanged [OF _ m(1) net]) (simp add: ready)
  then show ?thesis by (simp add: Client_Setup_def run)
qed

lemma Client_Add_net:
  assumes F: "wire_ok F" "wire_total F" and ready: "cl_sock cl = req_new" "waiting sv"
    and cl: "AddClient P (cl_core cl) fid junk words = (c, L, U)"
    and sv: "AddServer (sv_core sv) L = (c', r)" and cl2: "AddClient2 c r U = Inr c2"
  shows "\<exists>b. Client_Add P F net junk cl sv fid words
    = Some (Inr (True, cl\<lparr>cl_core := c2\<rparr>,
        after (request_of (AddMsg L)) (answered b ((received sv)\<lparr>sv_core := c'\<rparr>))))"
proof -
  obtain m where m: "ser_request F (request_of (AddMsg L)) = Some m" "parse_request F m = Some (request_of (AddMsg L))"
    using wire_serializes(1) [OF F request_of_version] by blast
  obtain b where b: "ser_result F (AddResult (map (\<lambda>x. x \<noteq> 0) r)) = Some b"
      "parse_result F b = Some (AddResult (map (\<lambda>x. x \<noteq> 0) r))"
    using wire_serializes(3) [OF F] by blast
  let ?sv = "(received sv)\<lparr>sv_core := c'\<rparr>"
  have "sending_reply (sv_sock ?sv)" by simp
  then have "HandleMessage P F (received sv) (request_of (AddMsg L)) = Some (Inr (answered b ?sv))"
    by (simp add: HandleMessage_def request_of_def HandleAdd_def sv b(1) server_send_answered)
  then have net: "net sv m = (after (request_of (AddMsg L)) (answered b ?sv), Reply b)"
    by (intro handled ready m) simp_all
  have "exchange net (cl\<lparr>cl_core := c\<rparr>) sv (ser_request F (request_of (AddMsg L)))
      = Some (Inr (Some b, cl\<lparr>cl_core := c\<rparr>, after (request_of (AddMsg L)) (answered b ?sv)))"
    by (rule exchanged [OF _ m(1) net]) (simp add: ready)
  moreover have "AddClient2 c (map (\<lambda>x. if x then 1 else 0) (map (\<lambda>x. x \<noteq> 0) r)) U = Inr c2"
    using cl2 add_client2_bools [of c r U 0] by (simp add: AddClient2_def)
  ultimately show ?thesis
    by (intro exI [of _ b]) (simp add: Client_Add_def cl b(2) del: map_map)
qed

lemma Client_Delete_net:
  assumes F: "wire_ok F" "wire_total F" and ready: "cl_sock cl = req_new" "waiting sv"
    and L: "L = DeleteClient P (cl_core cl) fid words"
  shows "\<exists>b. Client_Delete P F net cl sv fid words
    = Some (Inr (True, cl, after (request_of (DeleteMsg L))
        (answered b ((received sv)\<lparr>sv_core := DeleteServer (sv_core sv) L\<rparr>))))"
proof -
  obtain m where m: "ser_request F (request_of (DeleteMsg L)) = Some m" "parse_request F m = Some (request_of (DeleteMsg L))"
    using wire_serializes(1) [OF F request_of_version] by blast
  obtain b where b: "ser_result F DeleteResult = Some b" "parse_result F b = Some DeleteResult"
    using wire_serializes(3) [OF F] by blast
  let ?sv = "(received sv)\<lparr>sv_core := DeleteServer (sv_core sv) L\<rparr>"
  have "sending_reply (sv_sock ?sv)" by simp
  then have "HandleMessage P F (received sv) (request_of (DeleteMsg L)) = Some (Inr (answered b ?sv))"
    by (simp add: HandleMessage_def request_of_def HandleDelete_def b(1) server_send_answered)
  then have net: "net sv m = (after (request_of (DeleteMsg L)) (answered b ?sv), Reply b)"
    by (intro handled ready m) simp_all
  from exchanged [OF ready(1) m(1) net] show ?thesis
    by (intro exI [of _ b]) (simp add: Client_Delete_def L [symmetric] b(2))
qed

text \<open>A search leaves the server as it was, but for what it has sent.\<close>

lemma Client_Search_net:
  assumes F: "wire_ok F" "wire_total F" and ready: "cl_sock cl = req_new" "waiting sv"
    and P: "prims_ok P"
    and found: "SearchServer P (sv_core sv) (SearchClient P (cl_core cl) w) = Some (Inr ids)"
  shows "\<exists>b. Client_Search P F net cl sv w = Some (Inr (got_response, ids, cl, answered b (received sv)))"
proof -
  let ?req = "request_of (SearchMsg (search_msg_of (SearchClient P (cl_core cl) w)))"
  obtain m where m: "ser_request F ?req = Some m" "parse_request F m = Some ?req"
    using wire_serializes(1) [OF F request_of_version] by blast
  obtain b where b: "ser_search F ids = Some b" "parse_search F b = Some ids"
    using wire_serializes(2) [OF F] by blast
  have keys: "keys_of (search_msg_of ks) = ks" for ks by (cases ks) (simp add: keys_of_def search_msg_of_def)
  have "HandleMessage P F (received sv) ?req = Some (Inr (answered b (received sv)))"
    using P found
    by (simp add: HandleMessage_def request_of_def HandleSearch_def keys b(1) server_send_answered)
      (simp add: search_msg_of_def SearchClient_def KEYLEN_def DIGESTLEN_def)
  then have "net sv m = (after ?req (answered b (received sv)), Reply b)"
    by (intro handled ready m) simp_all
  then have net: "net sv m = (answered b (received sv), Reply b)"
    by (simp add: searched has_search_def request_of_def)
  show ?thesis
    using exchanged [OF ready(1) m(1) net]
    by (intro exI [of _ b]) (simp add: Client_Search_def b(2))
qed

end

text \<open>The server that runs on: it saves what changed.\<close>

interpretation live: answering P F "server_net P F" save_state for P F
  by unfold_locales (erule (3) server_net_handled, simp add: save_state_def)

section \<open>Steps\<close>

text \<open>
  \<open>SysAdd\<close> carries what \<open>AddClient\<close> found on the stack; \<open>SysRestartClient\<close> the directory
  and the disk the client saves to and loads from.
\<close>

datatype sys_op =
    SysAdd u64 "bytes list" "nat \<Rightarrow> bytes"
  | SysDelete u64 "bytes list"
  | SysSearch bytes
  | SysRestartServer
  | SysRestartClient string disk

definition restart_server_process :: "server \<Rightarrow> server loaded" where
  "restart_server_process sv = server_load (new_server (saveDir sv) (sv_disk sv))"

definition restart_client_process :: "client \<Rightarrow> string \<Rightarrow> disk \<Rightarrow> client loaded" where
  "restart_client_process cl dir d =
     (let (ok, d) = Client_Save cl dir d in if ok then Client_Load new_client dir d else Some (Inr (False, new_client)))"

text \<open>The result of a step: whether the operation reported success, and both processes.\<close>

fun sys_step :: "prims \<Rightarrow> wire \<Rightarrow> sys_op \<Rightarrow> client \<times> server \<Rightarrow> (err + bool \<times> client \<times> server) option" where
  "sys_step P F (SysAdd fid words junk) (cl, sv) = Client_Add P F (server_net P F) junk cl sv fid words"
| "sys_step P F (SysDelete fid words) (cl, sv) = Client_Delete P F (server_net P F) cl sv fid words"
| "sys_step P F (SysSearch w) (cl, sv) =
     obind (Client_Search P F (server_net P F) cl sv w) (\<lambda>(out, ids, cl, sv). Some (Inr (True, cl, sv)))"
| "sys_step P F SysRestartServer (cl, sv) =
     obind (restart_server_process sv) (\<lambda>(ok, sv). Some (Inr (ok, cl, sv)))"
| "sys_step P F (SysRestartClient dir d) (cl, sv) =
     obind (restart_client_process cl dir d) (\<lambda>(ok, cl). Some (Inr (ok, cl, sv)))"

fun index_sys :: "sys_op \<Rightarrow> index \<Rightarrow> index" where
  "index_sys (SysAdd fid words junk) = index_add fid (set words)"
| "index_sys (SysDelete fid words) = index_delete fid (set words)"
| "index_sys (SysSearch w) = id"
| "index_sys SysRestartServer = id"
| "index_sys (SysRestartClient dir d) = id"

fun sys_ok :: "bytes set \<Rightarrow> sys_op \<Rightarrow> index \<Rightarrow> bool" where
  "sys_ok W (SysAdd fid words junk) ix \<longleftrightarrow> set words \<subseteq> W \<and> distinct words
     \<and> (\<forall>w \<in> set words. length (ix_added ix w) + 1 < 2 ^ 64 \<and> length w < 2 ^ 47)
     \<and> (\<forall>i. length (junk i) < 2 ^ 47)"
| "sys_ok W (SysDelete fid words) ix \<longleftrightarrow> set words \<subseteq> W"
| "sys_ok W (SysSearch w) ix \<longleftrightarrow> w \<in> W"
| "sys_ok W SysRestartServer ix \<longleftrightarrow> True"
| "sys_ok W (SysRestartClient dir d) ix \<longleftrightarrow> disk_fine dir d"

definition names_sized :: "(u64, bytes) omap \<Rightarrow> bool" where
  "names_sized m \<longleftrightarrow> om_inv m \<and> (\<forall>(i, n) \<in> set m. length n < 2 ^ 47)"

definition sys_rep :: "prims \<Rightarrow> bytes set \<Rightarrow> client \<times> server \<Rightarrow> index \<Rightarrow> bool" where
  "sys_rep P W s ix \<longleftrightarrow> (case s of (cl, sv) \<Rightarrow>
     represents P W (cl_core cl) (sv_core sv) ix \<and> keys_cf P W (cl_core cl)
     \<and> cl_sock cl = req_new \<and> client_sized (cl_core cl) \<and> names_sized (fileidMap cl) \<and> settled sv)"

section \<open>Each step keeps the tie\<close>

lemma represents_dirty: "represents P W cl (sv\<lparr>dirtyD := b\<rparr>) ix = represents P W cl sv ix"
  by (simp add: represents_def updates_hold_def)

lemma settle_represents:
  assumes s: "settled sv" and t: "t = answered b ((received sv)\<lparr>sv_core := c\<rparr>)"
    and c: "server_sized c" "D c = D (sv_core sv)" "A c = A (sv_core sv)" "dirtyD c = dirtyD (sv_core sv)"
    and r: "represents P W cl c ix" and req: "\<not> has_search req"
  shows "settled (save_state req t) \<and> represents P W cl (sv_core (save_state req t)) ix"
proof -
  have cur: "disk_current (saveDir t) (sv_disk t) (sv_core t)"
    using disk_current_same [OF settled_current [OF s] c(2-4)] by (simp add: t)
  have sized: "server_sized (sv_core t)" using c(1) by (simp add: t)
  have t': "waiting t" "saveDir t \<noteq> []" "disk_fine (saveDir t) (sv_disk t)"
    using s by (simp_all add: t settled_def)
  show ?thesis
    using save_state_settles [OF t' sized cur req] r by (simp add: t represents_dirty)
qed

lemma dcount_words_sized:
  assumes "client_sized s" "\<forall>w \<in> set words. length w < 2 ^ 47"
  shows "client_sized (fst (add_loop P s fid junk i words))"
  using assms
proof (induction words arbitrary: s i)
  case (Cons w words)
  have "client_sized (touch_Dcount w s)"
    using Cons.prems om_insert_set [of w 0 "Dcount s"]
    by (auto simp: client_sized_def touch_Dcount_def om_inv_insert)
  with Cons show ?case by (simp add: case_prod_beta)
qed simp

lemma add_client2_sized:
  assumes "client_sized s" "\<forall>w \<in> set W. length w < 2 ^ 47" "add_client2_loop s r W i = Inr s'"
  shows "client_sized s'"
  using assms
proof (induction r arbitrary: s i)
  case (Cons b r)
  have "client_sized (bump_Dcount (W ! i) s)" if "i < length W"
    using Cons.prems(1,2) that om_insert_set [of "W ! i" "dcount s (W ! i) + 1" "Dcount s"]
    by (auto simp: client_sized_def bump_Dcount_def om_inv_insert)
  with Cons show ?case by (auto split: if_splits)
qed simp

text \<open>What the halves of an Add make of the two cores.\<close>

lemma add_halves:
  assumes P: "prims_ok P" and rep: "sys_rep P W (cl, sv) ix" and ok: "sys_ok W (SysAdd fid words junk) ix"
  obtains c L U c' r c2 where "AddClient P (cl_core cl) fid junk words = (c, L, U)"
    "AddServer (sv_core sv) L = (c', r)" "AddClient2 c r U = Inr c2"
    "represents P W c2 c' (index_add fid (set words) ix)" "same_keys c2 (cl_core cl)"
    "server_sized c'" "client_sized c2"
    "version c' = version (sv_core sv)" "D c' = D (sv_core sv)" "A c' = A (sv_core sv)"
    "dirtyD c' = dirtyD (sv_core sv)"
proof -
  obtain c L U where c1: "AddClient P (cl_core cl) fid junk words = (c, L, U)" by (metis prod_cases3)
  obtain c' r where sv1: "AddServer (sv_core sv) L = (c', r)" by fastforce
  have r0: "represents P W (cl_core cl) (sv_core sv) ix" "keys_cf P W (cl_core cl)"
    and sized: "client_sized (cl_core cl)" "server_sized (sv_core sv)"
    using rep by (auto simp: sys_rep_def settled_def)
  obtain c2 sv2 where run: "run_add P (cl_core cl) (sv_core sv) fid junk words = Inr (c2, sv2)"
    "represents P W c2 sv2 (index_add fid (set words) ix)" "same_keys c2 (cl_core cl)"
    using represents_add [OF r0, of words fid junk] ok by auto
  have cl2: "AddClient2 c r U = Inr c2" and sv2: "sv2 = c'"
    using run(1) by (auto simp: run_add_def c1 sv1 rbind_Inr_iff)
  have "\<forall>p \<in> set L. pair_sized p" using AddClient_sized [OF P _ c1] ok by auto
  then have c': "server_sized c'"
    using server_sized_AddServer [of "sv_core sv" L] sized by (simp add: sv1)
  have "client_sized c"
    using dcount_words_sized [OF sized(1), of words P fid junk 0] c1 ok
    by (auto simp: AddClient_def Let_def split: prod.splits)
  moreover have "\<forall>w \<in> set U. length w < 2 ^ 47"
    using AddClient_pairs(2) [OF c1] ok by (metis set_mset_mset sys_ok.simps(1))
  ultimately have "client_sized c2" using add_client2_sized cl2 unfolding AddClient2_def by blast
  with that [OF c1 sv1 cl2] run(2,3) c' add_server_keeps_D [of "sv_core sv" L] show ?thesis
    by (simp add: sv1 sv2)
qed

lemma sys_add:
  assumes F: "wire_ok F" "wire_total F" and P: "prims_ok P"
    and rep: "sys_rep P W (cl, sv) ix" and ok: "sys_ok W (SysAdd fid words junk) ix"
  shows "\<exists>c sv'. Client_Add P F (server_net P F) junk cl sv fid words = Some (Inr (True, cl\<lparr>cl_core := c\<rparr>, sv'))
    \<and> sys_rep P W (cl\<lparr>cl_core := c\<rparr>, sv') (index_add fid (set words) ix) \<and> same_keys c (cl_core cl)"
proof -
  obtain c L U c' r c2 where run: "AddClient P (cl_core cl) fid junk words = (c, L, U)"
      "AddServer (sv_core sv) L = (c', r)" "AddClient2 c r U = Inr c2"
    and c2: "represents P W c2 c' (index_add fid (set words) ix)" "same_keys c2 (cl_core cl)"
      "server_sized c'" "client_sized c2"
    and same: "D c' = D (sv_core sv)" "A c' = A (sv_core sv)" "dirtyD c' = dirtyD (sv_core sv)"
    by (rule add_halves [OF P rep ok])
  have ready: "cl_sock cl = req_new" "waiting sv" and st: "settled sv" and cf: "keys_cf P W (cl_core cl)"
    and names: "names_sized (fileidMap cl)"
    using rep by (auto simp: sys_rep_def settled_def)
  obtain b where add: "Client_Add P F (server_net P F) junk cl sv fid words
    = Some (Inr (True, cl\<lparr>cl_core := c2\<rparr>,
        save_state (request_of (AddMsg L)) (answered b ((received sv)\<lparr>sv_core := c'\<rparr>))))"
    using live.Client_Add_net [OF F ready run] by blast
  have "settled (save_state (request_of (AddMsg L)) (answered b ((received sv)\<lparr>sv_core := c'\<rparr>)))
    \<and> represents P W c2 (sv_core (save_state (request_of (AddMsg L)) (answered b ((received sv)\<lparr>sv_core := c'\<rparr>))))
        (index_add fid (set words) ix)"
    using same c2 by (intro settle_represents [OF st refl]) (simp_all add: has_search_def request_of_def)
  then show ?thesis
    using add names keys_cf_same [OF c2(2), of P W] cf ready(1) c2(2,4)
    by (intro exI [of _ c2] exI [of _ "save_state (request_of (AddMsg L)) (answered b ((received sv)\<lparr>sv_core := c'\<rparr>))"])
      (simp add: sys_rep_def)
qed

lemma sys_delete:
  assumes F: "wire_ok F" "wire_total F" and P: "prims_ok P"
    and rep: "sys_rep P W (cl, sv) ix" and ok: "set words \<subseteq> W"
  shows "\<exists>sv'. Client_Delete P F (server_net P F) cl sv fid words = Some (Inr (True, cl, sv'))
    \<and> sys_rep P W (cl, sv') (index_delete fid (set words) ix)"
proof -
  have r0: "represents P W (cl_core cl) (sv_core sv) ix" "keys_cf P W (cl_core cl)"
    and ready: "cl_sock cl = req_new" "waiting sv" and st: "settled sv"
    using rep by (auto simp: sys_rep_def settled_def)
  let ?L = "DeleteClient P (cl_core cl) fid words"
  let ?c = "DeleteServer (sv_core sv) ?L"
  obtain b where del: "Client_Delete P F (server_net P F) cl sv fid words
    = Some (Inr (True, cl, save_state (request_of (DeleteMsg ?L)) (answered b ((received sv)\<lparr>sv_core := ?c\<rparr>))))"
    using live.Client_Delete_net [OF F ready refl] by blast
  have "represents P W (cl_core cl) ?c (index_delete fid (set words) ix)"
    using represents_delete [OF r0 ok] by (simp add: run_delete_def)
  moreover have "server_sized ?c"
    using st DeleteClient_sized [OF P] by (intro server_sized_DeleteServer) (auto simp: settled_def)
  ultimately have "settled (save_state (request_of (DeleteMsg ?L)) (answered b ((received sv)\<lparr>sv_core := ?c\<rparr>)))
    \<and> represents P W (cl_core cl) (sv_core (save_state (request_of (DeleteMsg ?L)) (answered b ((received sv)\<lparr>sv_core := ?c\<rparr>))))
        (index_delete fid (set words) ix)"
    by (intro settle_represents [OF st refl]) (simp_all add: DeleteServer_eq has_search_def request_of_def)
  then show ?thesis using del rep by (simp add: sys_rep_def)
qed

lemma sys_search:
  assumes F: "wire_ok F" "wire_total F" and P: "prims_ok P"
    and rep: "sys_rep P W (cl, sv) ix" and w: "w \<in> W"
  shows "\<exists>sv'. Client_Search P F (server_net P F) cl sv w = Some (Inr (got_response, index_search ix w, cl, sv'))
    \<and> sys_rep P W (cl, sv') ix"
proof -
  have r0: "represents P W (cl_core cl) (sv_core sv) ix"
    and ready: "cl_sock cl = req_new" "waiting sv" and st: "settled sv"
    using rep by (auto simp: sys_rep_def settled_def)
  obtain b where b: "Client_Search P F (server_net P F) cl sv w
      = Some (Inr (got_response, index_search ix w, cl, answered b (received sv)))"
    using live.Client_Search_net [OF F ready P represents_search [OF r0 w]] by blast
  have "settled (answered b (received sv))" using st by (simp add: settled_def)
  then show ?thesis using b rep by (simp add: sys_rep_def)
qed

lemma sys_restart_server:
  assumes rep: "sys_rep P W (cl, sv) ix"
  shows "\<exists>sv'. restart_server_process sv = Some (Inr (True, sv')) \<and> sys_rep P W (cl, sv') ix"
proof -
  have r0: "represents P W (cl_core cl) (sv_core sv) ix" and st: "settled sv"
    using rep by (auto simp: sys_rep_def)
  obtain c where c: "LoadServerFromStorage new_core (saveDir sv) (sv_disk sv) = Some (Inr (True, c))"
    "represents P W (cl_core cl) c ix" "stored (saveDir sv) (sv_disk sv) c" "server_sized c" "\<not> dirtyD c"
    using load_stored_represents [OF r0] st by (auto simp: settled_def)
  let ?sv = "(new_server (saveDir sv) (sv_disk sv))\<lparr>sv_core := c\<rparr>"
  have "restart_server_process sv = Some (Inr (True, ?sv))"
    using c(1) by (simp add: restart_server_process_def server_load_def new_server_def)
  moreover have "settled ?sv"
    using st c by (simp add: settled_def new_server_def waiting_def rep_new_def)
  moreover have "sv_core ?sv = c" by simp
  ultimately show ?thesis using rep c(2) by (auto simp: sys_rep_def)
qed

lemma loadExtraState_saved:
  assumes "names_sized m" "saveExtraState m v dir d = (True, d')"
  shows "loadExtraState ([], v') dir d' = Some (Inr (True, m, v))"
proof -
  have d': "files d' = (files d)(dir @ ''/fileidMap'' \<mapsto> fileidMap_bytes m, dir @ ''/lastFileid'' \<mapsto> dec (unat v))"
    using assms(2) by (auto simp: saveExtraState_def and_then_True writers)
  have "readFileidMap (dir @ ''/fileidMap'') [] d' = Some (Inr (True, m))"
    using assms(1) by (simp add: readFileidMap_def d' read_fileidMap_bytes names_sized_def)
  moreover have "readFileid (dir @ ''/lastFileid'') v' d' = (True, v)"
    by (rule readFileid_written) (simp add: d')
  ultimately show ?thesis by (simp add: loadExtraState_def)
qed

lemma saveExtraState_files:
  "saveExtraState m v dir d = (True, d') \<Longrightarrow>
   p \<notin> {dir @ ''/fileidMap'', dir @ ''/lastFileid''} \<Longrightarrow> files d' p = files d p"
  by (auto simp: saveExtraState_def and_then_True writers)

lemma LoadClient_files:
  assumes "\<And>p. p \<in> {dir @ ''/version'', dir @ ''/key'', dir @ ''/kplus'', dir @ ''/kminus'', dir @ ''/Dcount''} \<Longrightarrow>
      files d' p = files d p"
  shows "LoadClientFromStorage c dir d' = LoadClientFromStorage c dir d"
proof -
  have "readInt (dir @ ''/version'') v d' = readInt (dir @ ''/version'') v d"
    "readBytes (dir @ ''/key'') old n d' = readBytes (dir @ ''/key'') old n d"
    "readBytes (dir @ ''/kplus'') old n d' = readBytes (dir @ ''/kplus'') old n d"
    "readBytes (dir @ ''/kminus'') old n d' = readBytes (dir @ ''/kminus'') old n d"
    "readMapCount (dir @ ''/Dcount'') m d' = readMapCount (dir @ ''/Dcount'') m d" for v old n m
    using assms by (simp_all add: readInt_def readBytes_def readMapCount_def)
  then show ?thesis by (simp only: LoadClientFromStorage_def)
qed

text \<open>The client that loading makes of what \<open>cl\<close> saved.\<close>

definition reloaded :: "client \<Rightarrow> client" where
  "reloaded cl = new_client\<lparr>cl_core := new_core\<lparr>version := version (cl_core cl), key := key (cl_core cl),
        kplus := kplus (cl_core cl), kminus := kminus (cl_core cl), Dcount := Dcount (cl_core cl)\<rparr>,
        fileidMap := fileidMap cl, lastFileid := lastFileid cl\<rparr>"

lemma load_saved:
  assumes sized: "client_sized (cl_core cl)" "names_sized (fileidMap cl)"
    and save: "Client_Save cl dir d = (True, d')"
  shows "Client_Load (new_client\<lparr>addr := a\<rparr>) dir d' = Some (Inr (True, (reloaded cl)\<lparr>addr := a\<rparr>))"
proof -
  obtain d1 where d1: "SaveClientToStorage (cl_core cl) dir d = (True, d1)"
    "saveExtraState (fileidMap cl) (lastFileid cl) dir d1 = (True, d')"
    using save by (auto simp: Client_Save_def and_then_True)
  have "LoadClientFromStorage new_core dir d' = LoadClientFromStorage new_core dir d1"
    by (rule LoadClient_files) (auto simp: saveExtraState_files [OF d1(2)])
  also have "\<dots> = Some (Inr (True, new_core\<lparr>version := version (cl_core cl), key := key (cl_core cl),
        kplus := kplus (cl_core cl), kminus := kminus (cl_core cl), Dcount := Dcount (cl_core cl)\<rparr>))"
    by (rule load_saved_client [OF sized(1) _ _ _ _ d1(1)]) (simp_all add: new_core_def)
  finally show ?thesis
    using loadExtraState_saved [OF sized(2) d1(2), of "lastFileid new_client"]
    by (simp add: Client_Load_def new_client_def reloaded_def)
qed

lemma client_restart:
  assumes sized: "client_sized (cl_core cl)" "names_sized (fileidMap cl)" and d: "disk_fine dir d"
  shows "restart_client_process cl dir d = Some (Inr (True, reloaded cl))"
proof -
  obtain d2 where d2: "Client_Save cl dir d = (True, d2)" using SaveClient_fine [OF d] by blast
  have "new_client\<lparr>addr := []\<rparr> = new_client" "(reloaded cl)\<lparr>addr := []\<rparr> = reloaded cl"
    by (simp_all add: new_client_def reloaded_def)
  then show ?thesis
    using load_saved [OF sized d2, of "[]"] by (simp add: restart_client_process_def d2)
qed

lemma sys_rep_reloaded: "sys_rep P W (cl, sv) ix \<Longrightarrow> sys_rep P W (reloaded cl, sv) ix"
  by (auto simp: sys_rep_def represents_def keys_cf_def dcount_def [abs_def] client_sized_def
      new_client_def reloaded_def)

lemma sys_restart_client:
  assumes rep: "sys_rep P W (cl, sv) ix" and d: "disk_fine dir d"
  shows "\<exists>cl'. restart_client_process cl dir d = Some (Inr (True, cl')) \<and> sys_rep P W (cl', sv) ix"
proof -
  have "client_sized (cl_core cl)" "names_sized (fileidMap cl)" using rep by (auto simp: sys_rep_def)
  from client_restart [OF this d] sys_rep_reloaded [OF rep] show ?thesis by simp
qed

section \<open>Runs\<close>

lemma sys_step_rep:
  assumes "wire_ok F" "wire_total F" "prims_ok P" "sys_rep P W s ix" "sys_ok W x ix"
  shows "\<exists>s'. sys_step P F x s = Some (Inr (True, s')) \<and> sys_rep P W s' (index_sys x ix)"
proof -
  obtain cl sv where s: "s = (cl, sv)" by fastforce
  note rep = assms(4) [unfolded s]
  show ?thesis
  proof (cases x)
    case (SysAdd fid words junk)
    then have "sys_ok W (SysAdd fid words junk) ix" using assms(5) by simp
    from sys_add [OF assms(1-3) rep this] show ?thesis unfolding s SysAdd by auto
  next
    case (SysDelete fid words)
    then have "set words \<subseteq> W" using assms(5) by simp
    from sys_delete [OF assms(1-3) rep this, of fid] show ?thesis unfolding s SysDelete by auto
  next
    case (SysSearch w)
    then have "w \<in> W" using assms(5) by simp
    from sys_search [OF assms(1-3) rep this] show ?thesis unfolding s SysSearch by auto
  next
    case SysRestartServer
    with sys_restart_server [OF rep] show ?thesis by (auto simp: s)
  next
    case (SysRestartClient dir d)
    then obtain cl' where "restart_client_process cl dir d = Some (Inr (True, cl'))" "sys_rep P W (cl', sv) ix"
      using sys_restart_client [OF rep] assms(5) by auto
    then show ?thesis by (simp add: s SysRestartClient)
  qed
qed

text \<open>The setting of a deployment: primitives and a wire format that do what they promise.\<close>

definition setting :: "prims \<Rightarrow> wire \<Rightarrow> bool" where
  "setting P F \<longleftrightarrow> prims_ok P \<and> wire_ok F \<and> wire_total F"

definition sys_tie :: "prims \<Rightarrow> wire \<Rightarrow> bytes set \<Rightarrow> client \<times> server \<Rightarrow> index \<Rightarrow> bool" where
  "sys_tie P F W s ix \<longleftrightarrow> setting P F \<and> sys_rep P W s ix"

interpretation deployed: simulation "sys_tie P F W" "\<lambda>x s s'. sys_step P F x s = Some (Inr (True, s'))"
  index_sys "sys_ok W" for P F W
proof (unfold_locales, goal_cases)
  case (1 s ix x)
  then show ?case using sys_step_rep [of F P W s ix x] by (auto simp: sys_tie_def setting_def)
next
  case (2 s ix x s')
  then show ?case using sys_step_rep [of F P W s ix x] by (auto simp: sys_tie_def setting_def)
qed

fun sys_run :: "prims \<Rightarrow> wire \<Rightarrow> sys_op list \<Rightarrow> client \<times> server \<Rightarrow> (err + client \<times> server) option" where
  "sys_run P F [] s = Some (Inr s)"
| "sys_run P F (x # xs) s =
     obind (sys_step P F x s) (\<lambda>(ok, s). if ok then sys_run P F xs s else Some (Inl (Exit 1)))"

lemma runs_sys_run: "deployed.runs P F xs s s' \<Longrightarrow> sys_run P F xs s = Some (Inr s')"
  by (induction rule: deployed.runs.induct) simp_all

definition sys_all_ok :: "bytes set \<Rightarrow> sys_op list \<Rightarrow> index \<Rightarrow> bool" where
  "sys_all_ok W xs ix \<longleftrightarrow> deployed.all_ok W xs ix"

lemma sys_all_ok_simps [simp]:
  "sys_all_ok W [] ix = True"
  "sys_all_ok W (x # xs) ix = (sys_ok W x ix \<and> sys_all_ok W xs (index_sys x ix))"
  by (simp_all add: sys_all_ok_def)

lemma sys_run_tie:
  assumes "setting P F" "sys_rep P W s ix" "sys_all_ok W xs ix"
  shows "\<exists>s'. sys_run P F xs s = Some (Inr s') \<and> sys_rep P W s' (fold index_sys xs ix)"
proof -
  have r: "sys_tie P F W s ix" and ok: "deployed.all_ok W xs ix"
    using assms by (simp_all add: sys_tie_def sys_all_ok_def)
  obtain s' where s': "deployed.runs P F xs s s'" using deployed.runs_total [OF r ok] by blast
  from deployed.runs_rep [OF this r ok] runs_sys_run [OF s'] show ?thesis by (auto simp: sys_tie_def)
qed

end
