(* ===== verification/Startup.thy ===== *)
theory Startup
  imports Deployment Totality
begin

text \<open>
  Setup over the socket: it brings a client and a server into the state \<open>sys_rep\<close> from
  which \<open>Deployment\<close> goes on, also when it starts from files (\<open>SetupFiles\<close>).
\<close>

section \<open>Sizes of what a Setup makes\<close>

lemma random_loop_length_raw:
  assumes run: "random_loop rd i n acc = Some out"
  shows "length out = length acc + n"
proof (rule random_loop.raw_induct [where P = "\<lambda>rd i n acc out. length out = length acc + n", OF _ run], goal_cases)
  case (1 f rd i n acc out)
  show ?case
  proof (cases "n = 0")
    case True
    with 1(2) show ?thesis by simp
  next
    case False
    then have "length out = length (acc @ take n (rd i n)) + (n - length (take n (rd i n)))"
      using 1(2) by (intro 1(1)) simp
    then show ?thesis by simp
  qed
qed

lemma random_key_KEYLEN: "random_key dev = Some (Inr k) \<Longrightarrow> length k = KEYLEN"
  by (auto simp: random_key_def random_bytes_def dest: random_loop_length_raw split: option.splits)

lemma draw_keys_KEYLEN:
  "draw_keys devs s = Some (Inr t) \<Longrightarrow>
   length (key t) = KEYLEN \<and> length (kplus t) = KEYLEN \<and> length (kminus t) = KEYLEN \<and> Dcount t = Dcount s"
  by (auto simp: draw_keys_def obind_Inr_iff dest: random_key_KEYLEN)

definition small :: "bytes \<Rightarrow> bool" where
  "small b \<longleftrightarrow> length b \<le> ENCRYPTED_BLOCK_SIZE"

lemma small_bound: "small b \<Longrightarrow> length b < 2 ^ 47"
  by (simp add: small_def sizes)

lemma length_fileid_slots: "length (fst (fileid_slots fids k i)) = 8 * k"
  by (induction k arbitrary: i) (auto simp: case_prod_beta)

lemma pointer_slots_small:
  "\<forall>b \<in> set M. small b \<Longrightarrow> pointer_slots P K2 fids m i M = (bs, i', M') \<Longrightarrow> \<forall>b \<in> set M'. small b"
proof (induction m arbitrary: i M bs i' M')
  case (Suc m)
  obtain fb j where fb: "fileid_slots fids B i = (fb, j)" by fastforce
  have "small (encrypt_bytes P K2 fb)"
    using length_fileid_slots [of fids B i] by (simp add: fb small_def ENCRYPTED_BLOCK_SIZE_def)
  then have M: "\<forall>b \<in> set (M @ [encrypt_bytes P K2 fb]). small b" using Suc.prems(1) by simp
  obtain ptrs k N where rest: "pointer_slots P K2 fids m j (M @ [encrypt_bytes P K2 fb]) = (ptrs, k, N)"
    by (metis prod_cases3)
  have "\<forall>b \<in> set N. small b" by (rule Suc.IH [OF M rest])
  with M show ?case using Suc.prems(2) by (auto simp: fb rest Let_def split: if_splits)
qed simp

lemma pointer_loop_small:
  "\<forall>b \<in> set M. small b \<Longrightarrow> pointer_loop P K1 K2 fids c i M = (L, M') \<Longrightarrow> \<forall>b \<in> set M'. small b"
proof (induction P K1 K2 fids c i M arbitrary: L M' rule: pointer_loop.induct)
  case (1 P K1 K2 fids c i M)
  show ?case
  proof (cases "i < length fids")
    case False
    then show ?thesis using 1(2,3) by (simp add: pointer_loop.simps)
  next
    case True
    obtain pb i1 M1 where s: "pointer_slots P K2 fids B i M = (pb, i1, M1)" by (metis prod_cases3)
    obtain L2 M2 where r: "pointer_loop P K1 K2 fids (Suc c) i1 M1 = (L2, M2)" by fastforce
    have "M' = M2" using 1(3) True by (subst (asm) pointer_loop.simps) (simp add: s r Let_def)
    then show ?thesis
      using 1(1) [OF True s [symmetric] refl refl refl pointer_slots_small [OF 1(2) s] r] by simp
  qed
qed

lemma pointer_tokens_small:
  "\<forall>b \<in> set M. small b \<Longrightarrow> pointer_tokens P s fileids ws M = Inr (L, M') \<Longrightarrow> \<forall>b \<in> set M'. small b"
proof (induction ws arbitrary: M L M')
  case (Cons w ws)
  obtain fids where fids: "fileids_at fileids w = Inr fids"
    using Cons.prems(2) by (cases "fileids_at fileids w") (auto simp: Let_def)
  let ?K1 = "mac_key P (key s) 0x31 w" and ?K2 = "mac_key P (key s) 0x32 w"
  obtain L1 M1 where l: "pointer_loop P ?K1 ?K2 fids 0 0 M = (L1, M1)" by fastforce
  obtain L2 where "pointer_tokens P s fileids ws M1 = Inr (L2, M')"
    using Cons.prems(2) by (auto simp: fids l Let_def rbind_Inr_iff)
  then show ?case using Cons.IH pointer_loop_small [OF Cons.prems(1) l] by blast
qed simp

lemma SetupClient_small:
  assumes run: "SetupClient P devs cl ver tokens fileids = Some (Inr (cl', L, M))"
  shows "(\<forall>p \<in> set L. small (sp_FileID p)) \<and> (\<forall>b \<in> set M. small b)"
proof -
  have n: "length (take ENCRYPTED_FILEID_SIZE x) \<le> ENCRYPTED_BLOCK_SIZE"
    "length (take ENCRYPTED_BLOCK_SIZE x) \<le> ENCRYPTED_BLOCK_SIZE" for x :: bytes
    by (simp_all add: sizes)
  have "ver \<in> {Basic, Packed, Pointer}" using SetupClient_returned [OF run] by simp
  then consider "ver = Basic" | "ver = Packed" | "ver = Pointer" by blast
  then show ?thesis
  proof cases
    case 1
    with run n show ?thesis
      by (auto simp: SetupClient_def SetupClientBasic_def obind_Inr_iff rbind_Inr_iff set_hand_off small_def)
  next
    case 2
    with run n show ?thesis
      by (auto simp: SetupClient_def SetupClientPacked_def obind_Inr_iff rbind_Inr_iff set_hand_off small_def versions)
  next
    case 3
    then obtain s K where "pointer_tokens P s fileids tokens [] = Inr (K, M)" "L = hand_off ENCRYPTED_BLOCK_SIZE K"
      using run by (auto simp: SetupClient_def SetupClientPointer_def obind_Inr_iff rbind_Inr_iff versions)
    with pointer_tokens_small [of "[]" P s fileids tokens K M] n show ?thesis
      by (auto simp: set_hand_off small_def)
  qed
qed

lemma map_sized_insert_all:
  "map_sized m \<Longrightarrow> \<forall>(k, v) \<in> set L. length k = KEYLEN \<and> length v < 2 ^ 47 \<Longrightarrow>
   map_sized (foldl (\<lambda>m p. om_insert (fst p) (snd p) m) m L)"
  by (induction L arbitrary: m) (auto simp: map_sized_insert)

lemma server_sized_SetupServer:
  assumes "server_sized s" "- (2 ^ 31) \<le> ver" "ver < 2 ^ 31"
    and L: "\<forall>p \<in> set L. length (sp_Token p) = KEYLEN \<and> small (sp_FileID p)" and M: "\<forall>b \<in> set M. small b"
  shows "server_sized (SetupServer s ver L M)"
proof -
  have "map_sized (foldl (\<lambda>m p. om_insert (fst p) (snd p) m) [] (map (\<lambda>p. (sp_Token p, sp_FileID p)) L))"
    using L small_bound by (intro map_sized_insert_all) (fastforce simp: map_sized_def)+
  moreover have "core_inv (SetupServer s ver L M)"
    using assms(1) by (simp add: core_inv_SetupServer server_sized_def)
  ultimately show ?thesis
    using assms small_bound by (auto simp: server_sized_def SetupServer_eq map_sized_def)
qed

section \<open>Setup over the socket\<close>

text \<open>A server that is up, whatever is in its index and on its disk.\<close>

definition listening :: "server \<Rightarrow> bool" where
  "listening sv \<longleftrightarrow> waiting sv \<and> saveDir sv \<noteq> [] \<and> disk_fine (saveDir sv) (sv_disk sv)
     \<and> server_sized (sv_core sv)"

lemma sys_setup_core:
  assumes F: "setting P F" and ready: "cl_sock cl = req_new" "listening sv"
    and cl: "om_inv (Dcount (cl_core cl))" "\<forall>(w, c) \<in> set (Dcount (cl_core cl)). length w < 2 ^ 47"
      "names_sized (fileidMap cl)"
    and run: "SetupClient P devs (cl_core cl) ver tokens fileids = Some (Inr (c', L, M))"
    and W: "set tokens \<subseteq> W" and cf: "keys_cf P W c'"
    and valid: "ver = Basic \<or> (\<forall>w \<in> set tokens. INVALID \<notin> set (setup_ids tokens fileids w))"
    and len: "total_ids tokens fileids + 1 < 2 ^ 64"
    and fresh: "\<And>w. w \<in> W \<Longrightarrow> dcount (cl_core cl) w = 0"
  shows "\<exists>sv'. Client_Setup P F (server_net P F) devs cl sv ver tokens fileids
      = Some (Inr (True, cl\<lparr>cl_core := c'\<rparr>, sv'))
    \<and> sys_rep P W (cl\<lparr>cl_core := c'\<rparr>, sv') (setup_index P c' (sv_core sv) tokens fileids)
    \<and> sv_core sv' = (SetupServer (sv_core sv) ver L M)\<lparr>dirtyD := False\<rparr>"
proof -
  have F': "wire_ok F" "wire_total F" "prims_ok P" using F by (auto simp: setting_def)
  have sv: "waiting sv" "server_sized (sv_core sv)" using ready(2) by (auto simp: listening_def)
  note ret = SetupClient_returned [OF run]
  have lenM: "length M + 1 < 2 ^ 64" using ret len by simp
  have lens: "length (setup_ids tokens fileids w) < 2 ^ 64" for w
    using length_setup_ids_le [of tokens fileids w] len by simp
  let ?req = "\<lparr>body = SetupMsg L M, rq_version = ver\<rparr>"
  let ?c = "SetupServer (sv_core sv) ver L M"
  let ?t = "answered [] ((received sv)\<lparr>sv_core := ?c\<rparr>)"
  have repr: "represents P W c' ?c (setup_index P c' (sv_core sv) tokens fileids)"
    using sv(2) lenM lens by (intro represents_setup [OF run W cf valid _ _ fresh])
      (simp_all add: server_sized_def core_inv_def)
  have pairs: "pairs_hold P ver M (key c') W (setup_ids tokens fileids) L"
    and Dc: "Dcount c' = Dcount (cl_core cl)"
    using SetupClient_pairs_hold [OF run W valid] lenM by auto
  have "length (sp_Token p) = KEYLEN" if "p \<in> set L" for p
    using pairs that F'(3) by (auto simp: pairs_hold_def label_def KEYLEN_def DIGESTLEN_def)
  moreover have ver: "- (2 ^ 31) \<le> ver" "ver < 2 ^ 31" using ret by (auto simp: versions)
  ultimately have sized: "server_sized ?c"
    using SetupClient_small [OF run] by (intro server_sized_SetupServer sv) auto
  have "enum_version ver" using ret by (auto simp: enum_version_def)
  then have client: "Client_Setup P F (server_net P F) devs cl sv ver tokens fileids
      = Some (Inr (True, cl\<lparr>cl_core := c'\<rparr>, save_state ?req ?t))"
    by (rule live.Client_Setup_net [OF F'(1,2) ready(1) sv(1) run])
  have "settled (save_state ?req ?t) \<and> sv_core (save_state ?req ?t) = (sv_core ?t)\<lparr>dirtyD := False\<rparr>
      \<and> saveDir (save_state ?req ?t) = saveDir ?t"
    using ready(2) sized disk_current_setup [OF lenM]
    by (intro save_state_settles) (simp_all add: listening_def has_search_def)
  then have "settled (save_state ?req ?t)" "sv_core (save_state ?req ?t) = ?c\<lparr>dirtyD := False\<rparr>"
    "represents P W c' (sv_core (save_state ?req ?t)) (setup_index P c' (sv_core sv) tokens fileids)"
    using repr by (simp_all add: represents_dirty)
  moreover obtain s where "draw_keys devs (cl_core cl) = Some (Inr s)" "c' = s\<lparr>version := ver\<rparr>"
    using ret by blast
  then have "client_sized c'"
    using draw_keys_KEYLEN cl(1,2) ver Dc by (auto simp: client_sized_def)
  ultimately show ?thesis using client ready cl(3) cf by (auto simp: sys_rep_def)
qed

lemma sys_setup:
  assumes F: "setting P F" and ready: "cl_sock cl = req_new" "listening sv"
    and cl: "om_inv (Dcount (cl_core cl))" "\<forall>(w, c) \<in> set (Dcount (cl_core cl)). length w < 2 ^ 47"
      "names_sized (fileidMap cl)"
    and run: "SetupClient P devs (cl_core cl) ver tokens fileids = Some (Inr (c', L, M))"
    and W: "set tokens \<subseteq> W" and cf: "keys_cf P W c'"
    and valid: "ver = Basic \<or> (\<forall>w \<in> set tokens. INVALID \<notin> set (setup_ids tokens fileids w))"
    and len: "total_ids tokens fileids + 1 < 2 ^ 64"
    and fresh: "\<And>w. w \<in> W \<Longrightarrow> dcount (cl_core cl) w = 0"
  shows "\<exists>sv'. Client_Setup P F (server_net P F) devs cl sv ver tokens fileids
      = Some (Inr (True, cl\<lparr>cl_core := c'\<rparr>, sv'))
    \<and> sys_rep P W (cl\<lparr>cl_core := c'\<rparr>, sv') (setup_index P c' (sv_core sv) tokens fileids)"
  using sys_setup_core [OF assms] by blast

section \<open>Setup from files\<close>

lemma index_inv_new: "index_inv new_index"
  by (simp add: index_inv_def new_index_def om_inv_empty om_count_def)

lemma setup_ids_of: "index_inv x \<Longrightarrow> setup_ids (all_tokens x) (fi_fileids x) w = ids_of x w"
  by (auto simp: setup_ids_def ids_of_def index_inv_def om_count_def split: option.split)

text \<open>The ids of the files that hold \<open>w\<close>: file number \<open>n\<close>, counted from 0, has id \<open>n + 1\<close>.\<close>

definition files_with :: "disk \<Rightarrow> bytes list \<Rightarrow> bytes \<Rightarrow> u64 list" where
  "files_with d fs w = map (\<lambda>n. of_nat (n + 1)) (filter (\<lambda>n. w \<in> file_words d (fs ! n)) [0..<length fs])"

text \<open>The plain index over a list of files.\<close>

definition library_index :: "disk \<Rightarrow> bytes list \<Rightarrow> index" where
  "library_index d fs = \<lparr>ix_setup = files_with d fs, ix_added = (\<lambda>w. []), ix_revoked = {}\<rparr>"

lemma search_library [simp]: "index_search (library_index d fs) w = files_with d fs w"
  by (simp add: index_search_def library_index_def)

lemma index_files_ids:
  assumes "\<And>f. f \<in> set fs \<Longrightarrow> readable_file d f" "distinct fs"
  shows "index_inv (index_files d fs) \<and> (\<forall>w. ids_of (index_files d fs) w = files_with d fs w)
    \<and> next_fileid (index_files d fs) = of_nat (length fs + 1)"
proof -
  have none: "\<not> om_count (filenameToFileid new_index) f" "ids_of new_index w = []" "next_fileid new_index = 1"
    for f w by (simp_all add: new_index_def om_count_def ids_of_def)
  show ?thesis
    using index_files_from [OF assms index_inv_new] none
    by (simp add: index_files_def files_with_def)
qed

lemma INVALID_not_files_with: "length fs < 2 ^ 64 - 1 \<Longrightarrow> INVALID \<notin> set (files_with d fs w)"
proof
  assume len: "length fs < 2 ^ 64 - 1" and "INVALID \<in> set (files_with d fs w)"
  then obtain n where n: "n < length fs" "INVALID = of_nat (n + 1)" by (auto simp: files_with_def)
  have "unat (of_nat (n + 1) :: u64) = n + 1" using n(1) len by (intro unat_of_nat_u64) simp
  moreover have "unat INVALID = 2 ^ 64 - 1" by (simp add: INVALID_def)
  ultimately show False using n len by simp
qed

lemma setup_files:
  assumes F: "setting P F" and ready: "cl_sock cl = req_new" "listening sv"
    and cl: "Dcount (cl_core cl) = []" "names_sized (fileidMap cl)" and sv: "Srev (sv_core sv) = []"
    and keys: "draw_keys devs (cl_core cl) = Some (Inr s)" and ver: "ver \<in> {Basic, Packed, Pointer}"
    and cf: "keys_cf P W (s\<lparr>version := ver\<rparr>)"
    and fs: "\<And>f. f \<in> set fs \<Longrightarrow> readable_file d f" "distinct fs" "length fs < 2 ^ 64 - 1"
    and W: "\<And>f. f \<in> set fs \<Longrightarrow> file_words d f \<subseteq> W"
    and len: "total_ids (all_tokens (index_files d fs)) (fi_fileids (index_files d fs)) + 1 < 2 ^ 64"
  shows "\<exists>cl' sv'. Client_Setup P F (server_net P F) devs cl sv ver
        (all_tokens (index_files d fs)) (fi_fileids (index_files d fs)) = Some (Inr (True, cl', sv'))
    \<and> fileidMap cl' = fileidMap cl \<and> addr cl' = addr cl
    \<and> sys_rep P W (cl', sv') (library_index d fs)"
proof -
  let ?x = "index_files d fs"
  note x = index_files_ids [OF fs(1,2), simplified]
  have ids: "setup_ids (all_tokens ?x) (fi_fileids ?x) w = files_with d fs w" for w
    using x setup_ids_of by simp
  have count: "om_count (fi_fileids ?x) w" if "w \<in> set (all_tokens ?x)" for w
    using x that by (auto simp: index_inv_def)
  have tokens: "set (all_tokens ?x) \<subseteq> W"
  proof
    fix w assume w: "w \<in> set (all_tokens ?x)"
    then have "om_count (fi_fileids ?x) w" by (rule count)
    moreover have "om_lookup (fi_fileids ?x) w \<noteq> Some []" using x by (simp add: index_inv_def)
    ultimately have "ids_of ?x w \<noteq> []"
      by (cases "om_lookup (fi_fileids ?x) w") (simp_all add: om_count_def ids_of_def)
    then have "files_with d fs w \<noteq> []" using x by simp
    then obtain n where "n < length fs" "w \<in> file_words d (fs ! n)"
      by (auto simp: files_with_def filter_empty_conv)
    then show "w \<in> W" using W [of "fs ! n"] by auto
  qed
  obtain L M where run: "SetupClient P devs (cl_core cl) ver (all_tokens ?x) (fi_fileids ?x)
      = Some (Inr (s\<lparr>version := ver\<rparr>, L, M))"
    using SetupClient_total [OF keys ver count] by blast
  have "\<exists>sv'. Client_Setup P F (server_net P F) devs cl sv ver (all_tokens ?x) (fi_fileids ?x)
      = Some (Inr (True, cl\<lparr>cl_core := s\<lparr>version := ver\<rparr>\<rparr>, sv'))
    \<and> sys_rep P W (cl\<lparr>cl_core := s\<lparr>version := ver\<rparr>\<rparr>, sv')
        (setup_index P (s\<lparr>version := ver\<rparr>) (sv_core sv) (all_tokens ?x) (fi_fileids ?x))"
    using INVALID_not_files_with [OF fs(3)]
    by (intro sys_setup [OF F ready _ _ cl(2) run tokens cf _ len])
      (simp_all add: cl om_inv_empty ids dcount_def)
  then obtain sv' where sv': "Client_Setup P F (server_net P F) devs cl sv ver (all_tokens ?x) (fi_fileids ?x)
      = Some (Inr (True, cl\<lparr>cl_core := s\<lparr>version := ver\<rparr>\<rparr>, sv'))"
    "sys_rep P W (cl\<lparr>cl_core := s\<lparr>version := ver\<rparr>\<rparr>, sv')
        (setup_index P (s\<lparr>version := ver\<rparr>) (sv_core sv) (all_tokens ?x) (fi_fileids ?x))"
    by blast
  moreover have "setup_index P (s\<lparr>version := ver\<rparr>) (sv_core sv) (all_tokens ?x) (fi_fileids ?x) = library_index d fs"
    by (simp add: setup_index_def sv ids library_index_def fun_eq_iff)
  ultimately show ?thesis by (intro exI conjI) (auto simp: sv')
qed

text \<open>The map from ids to names that goes with it.\<close>

lemma index_names_from:
  assumes "\<And>f. f \<in> set fs \<Longrightarrow> readable_file d f" "distinct fs" "index_inv x"
    and "\<And>f. f \<in> set fs \<Longrightarrow> \<not> om_count (filenameToFileid x) f"
    and "unat (next_fileid x) + length fs < 2 ^ 64"
  shows "(\<forall>n < length fs. om_lookup (fileidToFilename (foldl (index_file d) x fs)) (next_fileid x + of_nat n) = Some (fs ! n))
    \<and> (\<forall>i :: u64. unat i < unat (next_fileid x) \<longrightarrow>
          om_lookup (fileidToFilename (foldl (index_file d) x fs)) i = om_lookup (fileidToFilename x) i)"
  using assms
proof (induction fs arbitrary: x)
  case (Cons f fs)
  let ?x = "index_file d x f"
  have new: "index_inv ?x" "next_fileid ?x = next_fileid x + 1"
    "filenameToFileid ?x = om_insert f (next_fileid x) (filenameToFileid x)"
    "fileidToFilename ?x = om_insert (next_fileid x) f (fileidToFilename x)"
    using index_file_new [of d f x] Cons.prems by auto
  have un: "unat (next_fileid ?x) = unat (next_fileid x) + 1"
    using Cons.prems(5) unat_less_u64 [of "next_fileid x"] by (simp add: new(2) unat_word_ariths)
  have IH: "(\<forall>n < length fs. om_lookup (fileidToFilename (foldl (index_file d) ?x fs)) (next_fileid ?x + of_nat n) = Some (fs ! n))
    \<and> (\<forall>i :: u64. unat i < unat (next_fileid ?x) \<longrightarrow>
          om_lookup (fileidToFilename (foldl (index_file d) ?x fs)) i = om_lookup (fileidToFilename ?x) i)"
    using Cons.prems new un by (intro Cons.IH) (auto simp: om_count_def om_lookup_insert)
  show ?case
  proof (intro conjI allI impI)
    fix n assume n: "n < length (f # fs)"
    show "om_lookup (fileidToFilename (foldl (index_file d) x (f # fs))) (next_fileid x + of_nat n) = Some ((f # fs) ! n)"
    proof (cases n)
      case 0
      with IH un show ?thesis by (simp add: new(4) om_lookup_insert)
    next
      case (Suc k)
      with IH n show ?thesis by (simp add: new(2) add.assoc)
    qed
  next
    fix i :: u64 assume i: "unat i < unat (next_fileid x)"
    then have "i \<noteq> next_fileid x" by auto
    with IH i un show "om_lookup (fileidToFilename (foldl (index_file d) x (f # fs))) i = om_lookup (fileidToFilename x) i"
      by (simp add: new(4) om_lookup_insert)
  qed
qed simp

lemma index_files_names:
  assumes "\<And>f. f \<in> set fs \<Longrightarrow> readable_file d f" "distinct fs" "length fs < 2 ^ 64 - 1" "n < length fs"
  shows "om_lookup (fileidToFilename (index_files d fs)) (of_nat (n + 1)) = Some (fs ! n)"
proof -
  have "next_fileid new_index = 1" "\<not> om_count (filenameToFileid new_index) f" for f
    by (simp_all add: new_index_def om_count_def)
  then show ?thesis
    using index_names_from [OF assms(1,2) index_inv_new] assms(3,4) by (simp add: index_files_def)
qed

end
