(* ===== verification/Programs.thy ===== *)
theory Programs
  imports Startup
begin

text \<open>
  The two executables: \<open>src/client.cpp\<close>, one command per process with the state kept in
  the directory \<open>client-state\<close>, and \<open>src/server.cpp\<close>.
\<close>

section \<open>Arguments\<close>

definition DefaultPort :: int where "DefaultPort = 24992"

text \<open>\<open>atoi\<close>: undefined (\<open>None\<close>) when the value does not fit an \<open>int\<close>.\<close>

definition atoi :: "bytes \<Rightarrow> int option" where
  "atoi s =
     (let (neg, ds, rest) = scan_number (dropWhile is_space s);
          v = (if neg then - int (dec_value ds) else int (dec_value ds))
      in if v < - (2 ^ 31) \<or> 2 ^ 31 \<le> v then None else Some v)"

text \<open>
  \<open>getopt(argc, argv, "Pp:")\<close> is a parameter: the options it returns one after the other,
  and the arguments from \<open>optind\<close> on when it is done.
\<close>

datatype opt = OptP | OptPort bytes | OptOther

type_synonym getopt = "bytes list \<Rightarrow> opt list \<times> bytes list"

fun parse_options :: "opt list \<Rightarrow> int \<Rightarrow> int \<Rightarrow> err + int \<times> int" where
  "parse_options [] port ver = Inr (port, ver)"
| "parse_options (OptPort optarg # opts) port ver =
     (case atoi optarg of None \<Rightarrow> Inl Undefined | Some port \<Rightarrow> parse_options opts port ver)"
| "parse_options (OptP # opts) port ver =
     parse_options opts port (if ver < Pointer then ver + 1 else ver)"
| "parse_options (OptOther # opts) port ver = Inl (Exit 1)"

section \<open>The client\<close>

text \<open>The index that \<open>client setup\<close> sends when no file is named.\<close>

definition seed_tokens :: "bytes list" where
  "seed_tokens = [bytes_of ''this'', bytes_of ''is'', bytes_of ''a'', bytes_of ''test'']"

definition seed_fileids :: filemap where
  "seed_fileids = foldl (\<lambda>m w. om_insert w [1] m) [] seed_tokens"

definition command_setup ::
  "prims \<Rightarrow> wire \<Rightarrow> 'w net \<Rightarrow> urandom \<times> urandom \<times> urandom \<Rightarrow> disk \<Rightarrow> client \<Rightarrow> 'w \<Rightarrow> int \<Rightarrow> bytes list
    \<Rightarrow> (err + client \<times> 'w) option" where
  "command_setup P F net devs d s w ver cmdargv =
     obind (if cmdargv = [] then Client_Setup P F net devs s w ver seed_tokens seed_fileids
            else SetupFiles P F net devs d s w ver cmdargv)
       (\<lambda>(ok, s, w). Some (Inr (s, w)))"

text \<open>\<open>while (getline(manifest, filename))\<close>\<close>

function lines_of :: "bytes \<Rightarrow> bytes list" where
  "lines_of bs =
     (if bs = [] then []
      else case dropWhile (\<lambda>b. b \<noteq> 10) bs of
             [] \<Rightarrow> [bs]
           | nl # rest \<Rightarrow> takeWhile (\<lambda>b. b \<noteq> 10) bs # lines_of rest)"
  by pat_completeness auto
termination
proof (relation "measure length", goal_cases)
  case (2 bs nl rest)
  have "length (nl # rest) \<le> length bs" unfolding 2(2) [symmetric] by (rule length_dropWhile_le)
  then show ?case by simp
qed simp

declare lines_of.simps [simp del]

definition command_setuplist ::
  "prims \<Rightarrow> wire \<Rightarrow> 'w net \<Rightarrow> urandom \<times> urandom \<times> urandom \<Rightarrow> disk \<Rightarrow> client \<Rightarrow> 'w \<Rightarrow> int \<Rightarrow> bytes list
    \<Rightarrow> (err + client \<times> 'w) option" where
  "command_setuplist P F net devs d s w ver cmdargv =
     (if length cmdargv \<noteq> 1 then Some (Inl (Exit 1))
      else case files d (path_of (hd cmdargv)) of
        None \<Rightarrow> Some (Inl (Exit 1))
      | Some manifest \<Rightarrow>
          obind (SetupFiles P F net devs d s w ver (lines_of manifest)) (\<lambda>(ok, s, w). Some (Inr (s, w))))"

text \<open>The line printed for one id that was found.\<close>

definition result_line :: "client \<Rightarrow> bytes \<Rightarrow> u64 \<Rightarrow> err + bytes" where
  "result_line s word fid =
     rbind (Filename s fid) (\<lambda>filename.
       Inr (if filename = [] then word @ bytes_of '': '' @ dec (unat fid) @ [10]
            else word @ bytes_of '': '' @ filename @ [10]))"

fun print_results :: "client \<Rightarrow> bytes \<Rightarrow> u64 list \<Rightarrow> err + bytes" where
  "print_results s word [] = Inr []"
| "print_results s word (fid # ids) =
     rbind (result_line s word fid) (\<lambda>l. rbind (print_results s word ids) (\<lambda>ls. Inr (l @ ls)))"

text \<open>The commands that need the saved state: what is printed, the client, the world.\<close>

definition command_loaded ::
  "prims \<Rightarrow> wire \<Rightarrow> 'w net \<Rightarrow> (nat \<Rightarrow> bytes) \<Rightarrow> disk \<Rightarrow> client \<Rightarrow> 'w \<Rightarrow> bytes \<Rightarrow> bytes list
    \<Rightarrow> (err + bytes \<times> client \<times> 'w) option" where
  "command_loaded P F net junk d s w command cmdargv =
     (if command = bytes_of ''search'' then
        (case cmdargv of [] \<Rightarrow> Some (Inl (Exit 1))
         | word # _ \<Rightarrow> obind (Client_Search P F net s w word) (\<lambda>(out, ids, s, w).
             Some (rbind (print_results s word ids) (\<lambda>ls. Inr (out @ ls, s, w)))))
      else if command = bytes_of ''add'' then
        (case cmdargv of [] \<Rightarrow> Some (Inl (Exit 1))
         | arg # words \<Rightarrow>
             (case atoi arg of None \<Rightarrow> Some (Inl Undefined)
              | Some fileid \<Rightarrow> obind (Client_Add P F net junk s w (word_of_int fileid) words)
                  (\<lambda>(ok, s, w). Some (Inr ([], s, w)))))
      else if command = bytes_of ''addfile'' then
        (case cmdargv of [] \<Rightarrow> Some (Inl (Exit 1))
         | filename # _ \<Rightarrow> obind (AddFileByName P F net junk d s w filename)
             (\<lambda>(ok, s, w). Some (Inr ([], s, w))))
      else if command = bytes_of ''delete'' then
        (case cmdargv of [] \<Rightarrow> Some (Inl (Exit 1))
         | arg # words \<Rightarrow>
             (case atoi arg of None \<Rightarrow> Some (Inl Undefined)
              | Some fileid \<Rightarrow> obind (Client_Delete P F net s w (word_of_int fileid) words)
                  (\<lambda>(ok, s, w). Some (Inr ([], s, w)))))
      else Some (Inl (Exit 1)))"

definition state_dir :: string where "state_dir = ''client-state''"

definition run_command ::
  "prims \<Rightarrow> wire \<Rightarrow> 'w net \<Rightarrow> urandom \<times> urandom \<times> urandom \<Rightarrow> (nat \<Rightarrow> bytes) \<Rightarrow> disk \<Rightarrow> client \<Rightarrow> 'w
    \<Rightarrow> int \<Rightarrow> bytes \<Rightarrow> bytes list \<Rightarrow> (err + bytes \<times> client \<times> 'w) option" where
  "run_command P F net devs junk d s w ver command cmdargv =
     (if command = bytes_of ''setup'' then
        obind (command_setup P F net devs d s w ver cmdargv) (\<lambda>(s, w). Some (Inr ([], s, w)))
      else if command = bytes_of ''setuplist'' then
        obind (command_setuplist P F net devs d s w ver cmdargv) (\<lambda>(s, w). Some (Inr ([], s, w)))
      else obind (Client_Load s state_dir d) (\<lambda>(ok, s).
        if ok then command_loaded P F net junk d s w command cmdargv else Some (Inl (Exit 1))))"

text \<open>
  \<open>main\<close>: what it printed, its disk, and the world after it, when it returns 0. A failure to
  save is only reported. \<open>argv[optind]\<close> is a null pointer when no command is named. The
  server behind the socket depends on the port.
\<close>

definition client_main ::
  "prims \<Rightarrow> wire \<Rightarrow> getopt \<Rightarrow> (bytes \<Rightarrow> bool) \<Rightarrow> (int \<Rightarrow> 'w net) \<Rightarrow> urandom \<times> urandom \<times> urandom
    \<Rightarrow> (nat \<Rightarrow> bytes) \<Rightarrow> disk \<Rightarrow> 'w \<Rightarrow> bytes list \<Rightarrow> (err + bytes \<times> disk \<times> 'w) option" where
  "client_main P F getopt zmq_connect net devs junk d w argv =
     (let (opts, args) = getopt argv in
      case parse_options opts DefaultPort Basic of
        Inl e \<Rightarrow> Some (Inl e)
      | Inr (port, ver) \<Rightarrow>
          if length argv < 1 then Some (Inl (Exit 1))
          else (case args of
            [] \<Rightarrow> Some (Inl Undefined)
          | command # cmdargv \<Rightarrow>
              (case Connect zmq_connect new_client (bytes_of ''localhost'') port of
                 Inl e \<Rightarrow> Some (Inl e)
               | Inr (ok, s) \<Rightarrow>
                   obind (run_command P F (net port) devs junk d s w ver command cmdargv) (\<lambda>(out, s, w).
                     let (ok, d) = Client_Save s state_dir d in Some (Inr (out, d, w))))))"

section \<open>The server\<close>

text \<open>
  The first part of \<open>ListenAndServe\<close>: the address it binds, an empty host name standing for
  all interfaces, and what it prints. For an address it cannot bind \<open>zmq.hpp\<close> throws.
\<close>

definition listen_addr :: "bytes \<Rightarrow> int \<Rightarrow> bytes" where
  "listen_addr hostname port = tcp_addr (if hostname = [] then bytes_of ''*'' else hostname) port"

definition start_listening :: "(bytes \<Rightarrow> bool) \<Rightarrow> bytes \<Rightarrow> int \<Rightarrow> err + bytes" where
  "start_listening zmq_bind hostname port =
     (if zmq_bind (listen_addr hostname port)
      then Inr (bytes_of ''Listening on port '' @ dec_int port @ [10]) else Inl ZmqError)"

text \<open>\<open>main\<close>, over the messages that arrive. Loading may fail half way; then it goes on with
  what was loaded.\<close>

definition server_main ::
  "prims \<Rightarrow> wire \<Rightarrow> (bytes \<Rightarrow> bool) \<Rightarrow> disk \<Rightarrow> bytes list \<Rightarrow> bytes list \<Rightarrow> (err + bytes \<times> server) option" where
  "server_main P F zmq_bind d argv msgs =
     (case (if 1 < length argv then atoi (argv ! 1) else Some DefaultPort) of
        None \<Rightarrow> Some (Inl Undefined)
      | Some port \<Rightarrow>
          let dir = (if 2 < length argv then path_of (argv ! 2) else ''server-state'') in
          obind (server_load (new_server dir d)) (\<lambda>(ok, s).
            (case start_listening zmq_bind [] port of
               Inl e \<Rightarrow> Some (Inl e)
             | Inr out \<Rightarrow> obind (ListenAndServe P F s msgs) (\<lambda>s. Some (Inr (out, s))))))"

end
