(* ===== verification/Commands.thy ===== *)
theory Commands
  imports Programs
begin

text \<open>
  The tool in use: every command is a process of its own that loads \<open>client-state\<close>, talks
  to the server and saves \<open>client-state\<close> again. The state between two commands is the
  client's disk and the server; it is tied to a plain book: the index, the names of the
  files, and the next file id.
\<close>

section \<open>The book\<close>

record book =
  bk_index :: index
  bk_names :: "(u64, bytes) omap"
  bk_next :: u64
  bk_files :: "string \<Rightarrow> bytes option" \<comment> \<open>the files outside \<open>client-state\<close>\<close>

lemma book_index [simp]:
  "\<lparr>bk_index = ix, bk_names = bk_names bk, bk_next = bk_next bk, bk_files = bk_files bk\<rparr> = bk\<lparr>bk_index := ix\<rparr>"
  by (cases bk) simp

lemma book_entry [simp]:
  "\<lparr>bk_index = ix, bk_names = m, bk_next = n, bk_files = bk_files bk\<rparr>
   = bk\<lparr>bk_index := ix, bk_names := m, bk_next := n\<rparr>"
  by (cases bk) simp

definition inside :: "string \<Rightarrow> bool" where
  "inside p \<longleftrightarrow> take (length state_dir + 1) p = state_dir @ ''/''"

lemma inside_state [simp]: "inside (state_dir @ CHR ''/'' # name)"
  by (simp add: inside_def)

definition prog_rep :: "prims \<Rightarrow> bytes set \<Rightarrow> disk \<times> server \<Rightarrow> book \<Rightarrow> bool" where
  "prog_rep P W s bk \<longleftrightarrow> (case s of (d, sv) \<Rightarrow>
     disk_fine state_dir d \<and> (\<forall>p. \<not> inside p \<longrightarrow> files d p = bk_files bk p)
     \<and> (\<exists>cl. (\<forall>a. Client_Load (new_client\<lparr>addr := a\<rparr>) state_dir d = Some (Inr (True, cl\<lparr>addr := a\<rparr>)))
          \<and> sys_rep P W (cl, sv) (bk_index bk) \<and> fileidMap cl = bk_names bk \<and> lastFileid cl = bk_next bk))"

lemma sys_rep_addr [simp]: "sys_rep P W (cl\<lparr>addr := a\<rparr>, sv) ix = sys_rep P W (cl, sv) ix"
  by (simp add: sys_rep_def)

lemma and_then_frame [file_frame]:
  "files (snd r) p = files d p \<Longrightarrow> (\<And>d1. files (snd (f d1)) p = files d1 p) \<Longrightarrow>
   files (snd (and_then r f)) p = files d p"
  by (cases r) (simp add: and_then_def)

lemma write_file_frame: "q \<noteq> p \<Longrightarrow> files (snd (write_file q bs d)) p = files d p"
  by (simp add: write_file_def)

lemma Client_Save_files:
  assumes "Client_Save cl state_dir d = (ok, d')" "\<not> inside p"
  shows "files d' p = files d p"
proof -
  have "state_dir @ CHR ''/'' # name \<noteq> p" for name using assms(2) by auto
  note [file_frame] = write_file_frame [OF this]
  have "files (snd (SaveClientToStorage (cl_core cl) state_dir d)) p = files d p"
  proof (cases "mkdir_ok d state_dir")
    case True
    then show ?thesis
      unfolding SaveClientToStorage_def writeInt_def writeBytes_def writeMapCount_def
      by (simp only: not_True_eq_False if_False) (intro file_frame)
  qed (simp add: SaveClientToStorage_def)
  then have "files (snd (Client_Save cl state_dir d)) p = files d p"
    unfolding Client_Save_def saveExtraState_def writeFileidMap_def writeFileid_def
    by (intro file_frame)
  then show ?thesis by (simp add: assms(1))
qed

lemma saved_prog_rep:
  assumes d: "disk_fine state_dir d" "\<And>p. \<not> inside p \<Longrightarrow> files d p = fs p"
    and rep: "sys_rep P W (cl, sv) ix"
  shows "\<exists>d'. Client_Save cl state_dir d = (True, d')
    \<and> prog_rep P W (d', sv) \<lparr>bk_index = ix, bk_names = fileidMap cl, bk_next = lastFileid cl, bk_files = fs\<rparr>"
proof -
  obtain d' where d': "Client_Save cl state_dir d = (True, d')" "disk_fine state_dir d'"
    using SaveClient_fine [OF d(1)] by blast
  have "client_sized (cl_core cl)" "names_sized (fileidMap cl)" using rep by (auto simp: sys_rep_def)
  note load = load_saved [OF this d'(1)]
  moreover have "fileidMap (reloaded cl) = fileidMap cl" "lastFileid (reloaded cl) = lastFileid cl"
    by (simp_all add: reloaded_def)
  ultimately show ?thesis
    using d Client_Save_files [OF d'(1)] d' sys_rep_reloaded [OF rep] by (auto simp: prog_rep_def)
qed

section \<open>Commands\<close>

text \<open>
  One command line each (\<open>argv[0]\<close> apart). \<open>CmdAdd\<close> and \<open>CmdAddFile\<close> carry what was on
  the stack of the process; \<open>CmdServer\<close> stops the server and starts it again.
\<close>

datatype cmd =
    CmdAdd bytes "bytes list" "nat \<Rightarrow> bytes"
  | CmdDelete bytes "bytes list"
  | CmdAddFile bytes "nat \<Rightarrow> bytes"
  | CmdServer

text \<open>What is around the client: \<open>getopt\<close>, \<open>zmq_connect\<close>, the random devices.\<close>

record shell =
  sh_getopt :: getopt
  sh_connect :: "bytes \<Rightarrow> bool"
  sh_devs :: "urandom \<times> urandom \<times> urandom"

definition run_client ::
  "prims \<Rightarrow> wire \<Rightarrow> shell \<Rightarrow> (nat \<Rightarrow> bytes) \<Rightarrow> disk \<times> server \<Rightarrow> bytes list
    \<Rightarrow> (err + bytes \<times> disk \<times> server) option" where
  "run_client P F sh junk s args =
     client_main P F (sh_getopt sh) (sh_connect sh) (\<lambda>port. server_net P F) (sh_devs sh) junk (fst s) (snd s)
       (bytes_of ''client'' # args)"

definition quiet :: "(err + bytes \<times> 's) option \<Rightarrow> (err + 's) option" where
  "quiet r = obind r (\<lambda>(out, s). Some (Inr s))"

fun cmd_step :: "prims \<Rightarrow> wire \<Rightarrow> shell \<Rightarrow> cmd \<Rightarrow> disk \<times> server \<Rightarrow> (err + disk \<times> server) option" where
  "cmd_step P F sh (CmdAdd fid words junk) s =
     quiet (run_client P F sh junk s (bytes_of ''add'' # fid # words))"
| "cmd_step P F sh (CmdDelete fid words) s =
     quiet (run_client P F sh (\<lambda>i. []) s (bytes_of ''delete'' # fid # words))"
| "cmd_step P F sh (CmdAddFile f junk) s =
     quiet (run_client P F sh junk s [bytes_of ''addfile'', f])"
| "cmd_step P F sh CmdServer (d, sv) =
     obind (restart_server_process sv) (\<lambda>(ok, sv). Some (Inr (d, sv)))"

text \<open>What the book says of it.\<close>

definition words_in :: "book \<Rightarrow> bytes \<Rightarrow> bytes set" where
  "words_in bk f = (case bk_files bk (path_of f) of None \<Rightarrow> {} | Some bs \<Rightarrow> set (words_of bs))"

fun cmd_book :: "cmd \<Rightarrow> book \<Rightarrow> book" where
  "cmd_book (CmdAdd fid words junk) bk =
     bk\<lparr>bk_index := index_add (word_of_int (the (atoi fid))) (set words) (bk_index bk)\<rparr>"
| "cmd_book (CmdDelete fid words) bk =
     bk\<lparr>bk_index := index_delete (word_of_int (the (atoi fid))) (set words) (bk_index bk)\<rparr>"
| "cmd_book (CmdAddFile f junk) bk =
     bk\<lparr>bk_index := index_add (bk_next bk) (words_in bk f) (bk_index bk),
        bk_names := om_insert (bk_next bk) f (bk_names bk), bk_next := bk_next bk + 1\<rparr>"
| "cmd_book CmdServer bk = bk"

definition plain :: "bytes list \<Rightarrow> bool" where
  "plain args \<longleftrightarrow> (\<forall>a \<in> set args. take 1 a \<noteq> [0x2D])"

definition sizes_ok :: "bytes set \<Rightarrow> index \<Rightarrow> (nat \<Rightarrow> bytes) \<Rightarrow> bool" where
  "sizes_ok ws ix junk \<longleftrightarrow> (\<forall>w \<in> ws. length (ix_added ix w) + 1 < 2 ^ 64 \<and> length w < 2 ^ 47)
     \<and> (\<forall>i. length (junk i) < 2 ^ 47)"

fun cmd_ok :: "bytes set \<Rightarrow> cmd \<Rightarrow> book \<Rightarrow> bool" where
  "cmd_ok W (CmdAdd fid words junk) bk \<longleftrightarrow> plain (fid # words) \<and> atoi fid \<noteq> None
     \<and> set words \<subseteq> W \<and> distinct words \<and> sizes_ok (set words) (bk_index bk) junk"
| "cmd_ok W (CmdDelete fid words) bk \<longleftrightarrow> plain (fid # words) \<and> atoi fid \<noteq> None \<and> set words \<subseteq> W"
| "cmd_ok W (CmdAddFile f junk) bk \<longleftrightarrow> plain [f] \<and> \<not> inside (path_of f)
     \<and> bk_files bk (path_of f) \<noteq> None \<and> words_in bk f \<subseteq> W
     \<and> sizes_ok (words_in bk f) (bk_index bk) junk \<and> length f < 2 ^ 47"
| "cmd_ok W CmdServer bk \<longleftrightarrow> True"

text \<open>
  \<open>getopt\<close> on arguments none of which starts with a dash: no option, and all of them are
  left. The address of the default port can be connected to.
\<close>

definition shell_ok :: "shell \<Rightarrow> bool" where
  "shell_ok sh \<longleftrightarrow> (\<forall>prog args. plain args \<longrightarrow> sh_getopt sh (prog # args) = ([], args))
     \<and> sh_connect sh (tcp_addr (bytes_of ''localhost'') DefaultPort)"

lemma names_sized_insert:
  "names_sized m \<Longrightarrow> length n < 2 ^ 47 \<Longrightarrow> names_sized (om_insert i n m)"
  using om_insert_set [of i n m] by (auto simp: names_sized_def om_inv_insert)

text \<open>Starting the server program is the restart of the server process, and then its loop.\<close>

lemma server_main_restart:
  assumes "restart_server_process sv = Some (Inr (ok, sv'))" "saveDir sv = ''server-state''" "\<And>a. zmq_bind a"
  shows "server_main P F zmq_bind (sv_disk sv) [name] msgs
    = obind (ListenAndServe P F sv' msgs) (\<lambda>s. Some (Inr (bytes_of ''Listening on port '' @ dec_int DefaultPort @ [10], s)))"
  using assms by (simp add: server_main_def restart_server_process_def start_listening_def)

definition default_addr :: bytes where
  "default_addr = tcp_addr (bytes_of ''localhost'') DefaultPort"

lemma plain_commands [simp]:
  "plain (bytes_of ''add'' # args) = plain args" "plain (bytes_of ''delete'' # args) = plain args"
  "plain (bytes_of ''addfile'' # args) = plain args" "plain (bytes_of ''search'' # args) = plain args"
  "plain (bytes_of ''setup'' # args) = plain args" "plain (bytes_of ''setuplist'' # args) = plain args"
  by (simp_all add: plain_def bytes_of_def)

lemma run_client_plain:
  assumes "shell_ok sh" "plain (command # args)"
  shows "run_client P F sh junk (d, sv) (command # args) =
    obind (run_command P F (server_net P F) (sh_devs sh) junk d (new_client\<lparr>addr := default_addr\<rparr>) sv Basic command args)
      (\<lambda>(out, s, w). let (ok, d) = Client_Save s state_dir d in Some (Inr (out, d, w)))"
  using assms by (simp add: run_client_def client_main_def shell_ok_def Connect_def default_addr_def Let_def)

section \<open>Each command keeps the tie\<close>

lemma commands_differ [simp]:
  "bytes_of ''add'' \<noteq> bytes_of ''setup''" "bytes_of ''add'' \<noteq> bytes_of ''setuplist''"
  "bytes_of ''add'' \<noteq> bytes_of ''search''" "bytes_of ''delete'' \<noteq> bytes_of ''setup''"
  "bytes_of ''delete'' \<noteq> bytes_of ''setuplist''" "bytes_of ''delete'' \<noteq> bytes_of ''search''"
  "bytes_of ''delete'' \<noteq> bytes_of ''add''" "bytes_of ''delete'' \<noteq> bytes_of ''addfile''"
  "bytes_of ''addfile'' \<noteq> bytes_of ''setup''" "bytes_of ''addfile'' \<noteq> bytes_of ''setuplist''"
  "bytes_of ''addfile'' \<noteq> bytes_of ''search''" "bytes_of ''addfile'' \<noteq> bytes_of ''add''"
  "bytes_of ''search'' \<noteq> bytes_of ''setup''" "bytes_of ''search'' \<noteq> bytes_of ''setuplist''"
  "bytes_of ''setuplist'' \<noteq> bytes_of ''setup''"
  by (simp_all add: bytes_of_def)

lemma run_loaded:
  assumes "shell_ok sh" "plain (command # args)" "prog_rep P W (d, sv) bk"
    and "command \<notin> {bytes_of ''setup'', bytes_of ''setuplist''}"
  shows "\<exists>cl. sys_rep P W (cl, sv) (bk_index bk) \<and> fileidMap cl = bk_names bk \<and> lastFileid cl = bk_next bk
    \<and> run_client P F sh junk (d, sv) (command # args) =
        obind (command_loaded P F (server_net P F) junk d cl sv command args)
          (\<lambda>(out, s, w). let (ok, d) = Client_Save s state_dir d in Some (Inr (out, d, w)))"
proof -
  obtain cl where cl: "\<And>a. Client_Load (new_client\<lparr>addr := a\<rparr>) state_dir d = Some (Inr (True, cl\<lparr>addr := a\<rparr>))"
    "sys_rep P W (cl, sv) (bk_index bk)" "fileidMap cl = bk_names bk" "lastFileid cl = bk_next bk"
    using assms(3) by (auto simp: prog_rep_def)
  have "run_client P F sh junk (d, sv) (command # args) =
        obind (command_loaded P F (server_net P F) junk d (cl\<lparr>addr := default_addr\<rparr>) sv command args)
          (\<lambda>(out, s, w). let (ok, d) = Client_Save s state_dir d in Some (Inr (out, d, w)))"
    using run_client_plain [OF assms(1,2), of P F junk d sv] assms(4) cl(1) by (simp add: run_command_def)
  then show ?thesis using cl by (intro exI [of _ "cl\<lparr>addr := default_addr\<rparr>"]) simp
qed

text \<open>What a command does to the client it loaded is what the process does to the disk.\<close>

lemma run_loaded_step:
  assumes sh: "shell_ok sh" "plain (command # args)" and rep: "prog_rep P W (d, sv) bk"
    and command: "command \<notin> {bytes_of ''setup'', bytes_of ''setuplist''}"
    and act: "\<And>cl. sys_rep P W (cl, sv) (bk_index bk) \<Longrightarrow> fileidMap cl = bk_names bk \<Longrightarrow> lastFileid cl = bk_next bk \<Longrightarrow>
      \<exists>cl' sv'. command_loaded P F (server_net P F) junk d cl sv command args = Some (Inr (out, cl', sv'))
        \<and> sys_rep P W (cl', sv') ix \<and> fileidMap cl' = m \<and> lastFileid cl' = n"
  shows "\<exists>s'. run_client P F sh junk (d, sv) (command # args) = Some (Inr (out, s'))
    \<and> prog_rep P W s' (bk\<lparr>bk_index := ix, bk_names := m, bk_next := n\<rparr>)"
proof -
  obtain cl where cl: "sys_rep P W (cl, sv) (bk_index bk)" "fileidMap cl = bk_names bk" "lastFileid cl = bk_next bk"
    and run: "run_client P F sh junk (d, sv) (command # args) =
        obind (command_loaded P F (server_net P F) junk d cl sv command args)
          (\<lambda>(out, s, w). let (ok, d) = Client_Save s state_dir d in Some (Inr (out, d, w)))"
    using run_loaded [OF sh rep command] by blast
  obtain cl' sv' where res: "command_loaded P F (server_net P F) junk d cl sv command args = Some (Inr (out, cl', sv'))"
    "sys_rep P W (cl', sv') ix" "fileidMap cl' = m" "lastFileid cl' = n"
    using act [OF cl] by blast
  have "disk_fine state_dir d" "\<And>p. \<not> inside p \<Longrightarrow> files d p = bk_files bk p"
    using rep by (auto simp: prog_rep_def)
  from saved_prog_rep [OF this res(2)] show ?thesis using res by (auto simp: run)
qed

lemma book_same:
  "bk\<lparr>bk_index := ix, bk_names := bk_names bk, bk_next := bk_next bk\<rparr> = bk\<lparr>bk_index := ix\<rparr>"
  "bk\<lparr>bk_index := bk_index bk\<rparr> = bk"
  by (cases bk, simp)+

lemma quiet_step:
  "\<exists>s'. r = Some (Inr (out, s')) \<and> Q s' \<Longrightarrow> \<exists>s'. quiet r = Some (Inr s') \<and> Q s'"
  by (auto simp: quiet_def)

lemma run_search:
  assumes S: "setting P F" and sh: "shell_ok sh" "plain [w]" and rep: "prog_rep P W (d, sv) bk" and w: "w \<in> W"
  shows "(\<exists>out s'. run_client P F sh junk (d, sv) [bytes_of ''search'', w] = Some (Inr (got_response @ out, s'))
      \<and> print_results (new_client\<lparr>fileidMap := bk_names bk\<rparr>) w (index_search (bk_index bk) w) = Inr out
      \<and> prog_rep P W s' bk)
    \<or> (\<exists>e. run_client P F sh junk (d, sv) [bytes_of ''search'', w] = Some (Inl e)
      \<and> print_results (new_client\<lparr>fileidMap := bk_names bk\<rparr>) w (index_search (bk_index bk) w) = Inl e)"
    (is "?A \<or> ?B")
proof -
  have F: "wire_ok F" "wire_total F" "prims_ok P" using S by (auto simp: setting_def)
  let ?r = "print_results (new_client\<lparr>fileidMap := bk_names bk\<rparr>) w (index_search (bk_index bk) w)"
  have found: "\<exists>sv'. command_loaded P F (server_net P F) junk d cl sv (bytes_of ''search'') [w]
        = Some (rbind ?r (\<lambda>out. Inr (got_response @ out, cl, sv'))) \<and> sys_rep P W (cl, sv') (bk_index bk)"
    if cl: "sys_rep P W (cl, sv) (bk_index bk)" "fileidMap cl = bk_names bk" for cl
  proof -
    have "print_results cl w ids = print_results (new_client\<lparr>fileidMap := bk_names bk\<rparr>) w ids" for ids
      by (induction ids) (simp_all add: result_line_def Filename_def cl(2))
    then show ?thesis using sys_search [OF F cl(1) w] by (auto simp: command_loaded_def)
  qed
  have plain: "plain (bytes_of ''search'' # [w])" using sh by simp
  show ?thesis
  proof (cases ?r)
    case (Inr out)
    have act: "\<exists>cl' sv'. command_loaded P F (server_net P F) junk d cl sv (bytes_of ''search'') [w] = Some (Inr (got_response @ out, cl', sv'))
        \<and> sys_rep P W (cl', sv') (bk_index bk) \<and> fileidMap cl' = bk_names bk \<and> lastFileid cl' = bk_next bk"
      if cl: "sys_rep P W (cl, sv) (bk_index bk)" "fileidMap cl = bk_names bk" "lastFileid cl = bk_next bk" for cl
    proof -
      obtain sv' where "command_loaded P F (server_net P F) junk d cl sv (bytes_of ''search'') [w]
        = Some (rbind ?r (\<lambda>out. Inr (got_response @ out, cl, sv')))" "sys_rep P W (cl, sv') (bk_index bk)"
        using found [OF cl(1,2)] by blast
      with Inr cl(2,3) show ?thesis by (intro exI [of _ cl] exI [of _ sv']) simp
    qed
    have "\<exists>s'. run_client P F sh junk (d, sv) (bytes_of ''search'' # [w]) = Some (Inr (got_response @ out, s'))
        \<and> prog_rep P W s' (bk\<lparr>bk_index := bk_index bk, bk_names := bk_names bk, bk_next := bk_next bk\<rparr>)"
      by (rule run_loaded_step [OF sh(1) plain rep _ act]) simp_all
    then show ?thesis unfolding book_same by (simp add: Inr)
  next
    case (Inl e)
    obtain cl where cl: "sys_rep P W (cl, sv) (bk_index bk)" "fileidMap cl = bk_names bk"
      and run: "run_client P F sh junk (d, sv) (bytes_of ''search'' # [w]) =
        obind (command_loaded P F (server_net P F) junk d cl sv (bytes_of ''search'') [w])
          (\<lambda>(out, s, w). let (ok, d) = Client_Save s state_dir d in Some (Inr (out, d, w)))"
      using run_loaded [OF sh(1) plain rep, of F junk] by auto
    show ?thesis using found [OF cl] by (auto simp: run Inl)
  qed
qed

lemma run_add_command:
  assumes S: "setting P F" and sh: "shell_ok sh" and rep: "prog_rep P W (d, sv) bk"
    and ok: "cmd_ok W (CmdAdd fid words junk) bk"
  shows "\<exists>s'. cmd_step P F sh (CmdAdd fid words junk) (d, sv) = Some (Inr s')
    \<and> prog_rep P W s' (cmd_book (CmdAdd fid words junk) bk)"
proof -
  have F: "wire_ok F" "wire_total F" "prims_ok P" using S by (auto simp: setting_def)
  obtain i where i: "atoi fid = Some i" using ok by auto
  let ?ix = "index_add (word_of_int i) (set words) (bk_index bk)"
  have plain: "plain (bytes_of ''add'' # fid # words)" using ok by simp
  have act: "\<exists>cl' sv'. command_loaded P F (server_net P F) junk d cl sv (bytes_of ''add'') (fid # words) = Some (Inr ([], cl', sv'))
        \<and> sys_rep P W (cl', sv') ?ix \<and> fileidMap cl' = bk_names bk \<and> lastFileid cl' = bk_next bk"
    if cl: "sys_rep P W (cl, sv) (bk_index bk)" "fileidMap cl = bk_names bk" "lastFileid cl = bk_next bk" for cl
  proof -
    have "sys_ok W (SysAdd (word_of_int i) words junk) (bk_index bk)" using ok by (simp add: sizes_ok_def)
    then obtain c sv' where "Client_Add P F (server_net P F) junk cl sv (word_of_int i) words
        = Some (Inr (True, cl\<lparr>cl_core := c\<rparr>, sv'))" "sys_rep P W (cl\<lparr>cl_core := c\<rparr>, sv') ?ix"
      using sys_add [OF F cl(1)] by blast
    then show ?thesis
      by (intro exI [of _ "cl\<lparr>cl_core := c\<rparr>"] exI [of _ sv']) (simp add: command_loaded_def i cl(2,3))
  qed
  have "\<exists>s'. run_client P F sh junk (d, sv) (bytes_of ''add'' # fid # words) = Some (Inr ([], s'))
      \<and> prog_rep P W s' (bk\<lparr>bk_index := ?ix, bk_names := bk_names bk, bk_next := bk_next bk\<rparr>)"
    by (rule run_loaded_step [OF sh plain rep _ act]) simp_all
  from quiet_step [OF this] show ?thesis by (simp add: i book_same)
qed

lemma run_delete_command:
  assumes S: "setting P F" and sh: "shell_ok sh" and rep: "prog_rep P W (d, sv) bk"
    and ok: "cmd_ok W (CmdDelete fid words) bk"
  shows "\<exists>s'. cmd_step P F sh (CmdDelete fid words) (d, sv) = Some (Inr s')
    \<and> prog_rep P W s' (cmd_book (CmdDelete fid words) bk)"
proof -
  have F: "wire_ok F" "wire_total F" "prims_ok P" using S by (auto simp: setting_def)
  obtain i where i: "atoi fid = Some i" using ok by auto
  let ?ix = "index_delete (word_of_int i) (set words) (bk_index bk)"
  have plain: "plain (bytes_of ''delete'' # fid # words)" using ok by simp
  have act: "\<exists>cl' sv'. command_loaded P F (server_net P F) (\<lambda>i. []) d cl sv (bytes_of ''delete'') (fid # words) = Some (Inr ([], cl', sv'))
        \<and> sys_rep P W (cl', sv') ?ix \<and> fileidMap cl' = bk_names bk \<and> lastFileid cl' = bk_next bk"
    if cl: "sys_rep P W (cl, sv) (bk_index bk)" "fileidMap cl = bk_names bk" "lastFileid cl = bk_next bk" for cl
  proof -
    have "set words \<subseteq> W" using ok by simp
    from sys_delete [OF F cl(1) this, of "word_of_int i"] show ?thesis
      by (auto simp: command_loaded_def i cl(2,3))
  qed
  have "\<exists>s'. run_client P F sh (\<lambda>i. []) (d, sv) (bytes_of ''delete'' # fid # words) = Some (Inr ([], s'))
      \<and> prog_rep P W s' (bk\<lparr>bk_index := ?ix, bk_names := bk_names bk, bk_next := bk_next bk\<rparr>)"
    by (rule run_loaded_step [OF sh plain rep _ act]) simp_all
  from quiet_step [OF this] show ?thesis by (simp add: i book_same)
qed

lemma run_addfile_command:
  assumes S: "setting P F" and sh: "shell_ok sh" and rep: "prog_rep P W (d, sv) bk"
    and ok: "cmd_ok W (CmdAddFile f junk) bk"
  shows "\<exists>s'. cmd_step P F sh (CmdAddFile f junk) (d, sv) = Some (Inr s')
    \<and> prog_rep P W s' (cmd_book (CmdAddFile f junk) bk)"
proof -
  have F: "wire_ok F" "wire_total F" "prims_ok P" using S by (auto simp: setting_def)
  let ?ix = "index_add (bk_next bk) (words_in bk f) (bk_index bk)"
  let ?m = "om_insert (bk_next bk) f (bk_names bk)"
  have plain: "plain (bytes_of ''addfile'' # [f])" using ok by simp
  obtain bs where bs: "bk_files bk (path_of f) = Some bs" "files d (path_of f) = Some bs"
    using ok rep by (auto simp: prog_rep_def)
  obtain ts where ts: "tokenize d f [] = (True, ts)" "distinct ts" "set ts = words_in bk f"
    using os_inv_distinct [OF tokenize_sorted [OF os_inv_empty, of d f]] tokenize_set [OF bs(2), of "[]"]
    by (auto simp: tokenize_def words_in_def bs)
  have act: "\<exists>cl' sv'. command_loaded P F (server_net P F) junk d cl sv (bytes_of ''addfile'') [f] = Some (Inr ([], cl', sv'))
        \<and> sys_rep P W (cl', sv') ?ix \<and> fileidMap cl' = ?m \<and> lastFileid cl' = bk_next bk + 1"
    if cl: "sys_rep P W (cl, sv) (bk_index bk)" "fileidMap cl = bk_names bk" "lastFileid cl = bk_next bk" for cl
  proof -
    have "sys_ok W (SysAdd (bk_next bk) ts junk) (bk_index bk)"
      using ok ts(2) by (simp add: sizes_ok_def ts(3))
    then obtain c sv' where add: "Client_Add P F (server_net P F) junk cl sv (bk_next bk) ts
        = Some (Inr (True, cl\<lparr>cl_core := c\<rparr>, sv'))" and rep': "sys_rep P W (cl\<lparr>cl_core := c\<rparr>, sv') ?ix"
      using sys_add [OF F cl(1), of "bk_next bk" ts junk] ts(3) by auto
    let ?cl = "cl\<lparr>cl_core := c, fileidMap := ?m, lastFileid := bk_next bk + 1\<rparr>"
    have "sys_rep P W (?cl, sv') ?ix"
      using rep' names_sized_insert [of "bk_names bk" f "bk_next bk"] ok cl(2) by (auto simp: sys_rep_def)
    moreover have "AddFileByName P F (server_net P F) junk d cl sv f = Some (Inr (True, ?cl, sv'))"
      by (simp add: AddFileByName_def ts(1) cl(2,3) add Let_def)
    ultimately show ?thesis
      by (intro exI [of _ ?cl] exI [of _ sv']) (simp add: command_loaded_def)
  qed
  have "\<exists>s'. run_client P F sh junk (d, sv) (bytes_of ''addfile'' # [f]) = Some (Inr ([], s'))
      \<and> prog_rep P W s' (bk\<lparr>bk_index := ?ix, bk_names := ?m, bk_next := bk_next bk + 1\<rparr>)"
    by (rule run_loaded_step [OF sh plain rep _ act]) simp_all
  from quiet_step [OF this] show ?thesis by simp
qed

lemma run_server_command:
  assumes rep: "prog_rep P W (d, sv) bk"
  shows "\<exists>s'. cmd_step P F sh CmdServer (d, sv) = Some (Inr s') \<and> prog_rep P W s' (cmd_book CmdServer bk)"
proof -
  obtain cl where cl: "\<forall>a. Client_Load (new_client\<lparr>addr := a\<rparr>) state_dir d = Some (Inr (True, cl\<lparr>addr := a\<rparr>))"
    "sys_rep P W (cl, sv) (bk_index bk)" "fileidMap cl = bk_names bk" "lastFileid cl = bk_next bk"
    using rep by (auto simp: prog_rep_def)
  obtain sv' where sv': "restart_server_process sv = Some (Inr (True, sv'))" "sys_rep P W (cl, sv') (bk_index bk)"
    using sys_restart_server [OF cl(2)] by blast
  have "prog_rep P W (d, sv') bk" using rep cl sv'(2) by (auto simp: prog_rep_def)
  then show ?thesis by (simp add: sv'(1))
qed

section \<open>Runs\<close>

definition prog_tie :: "prims \<Rightarrow> wire \<Rightarrow> shell \<Rightarrow> bytes set \<Rightarrow> disk \<times> server \<Rightarrow> book \<Rightarrow> bool" where
  "prog_tie P F sh W s bk \<longleftrightarrow> setting P F \<and> shell_ok sh \<and> prog_rep P W s bk"

lemma cmd_step_rep:
  assumes "setting P F" "shell_ok sh" "prog_rep P W s bk" "cmd_ok W x bk"
  shows "\<exists>s'. cmd_step P F sh x s = Some (Inr s') \<and> prog_rep P W s' (cmd_book x bk)"
proof -
  obtain d sv where s: "s = (d, sv)" by fastforce
  note rep = assms(3) [unfolded s]
  show ?thesis
  proof (cases x)
    case (CmdAdd fid words junk)
    show ?thesis using run_add_command [OF assms(1,2) rep assms(4) [unfolded CmdAdd]] unfolding s CmdAdd .
  next
    case (CmdDelete fid words)
    show ?thesis using run_delete_command [OF assms(1,2) rep assms(4) [unfolded CmdDelete]] unfolding s CmdDelete .
  next
    case (CmdAddFile f junk)
    show ?thesis using run_addfile_command [OF assms(1,2) rep assms(4) [unfolded CmdAddFile]] unfolding s CmdAddFile .
  next
    case CmdServer
    show ?thesis using run_server_command [OF rep] unfolding s CmdServer .
  qed
qed

interpretation tool: simulation "prog_tie P F sh W" "\<lambda>x s s'. cmd_step P F sh x s = Some (Inr s')"
  cmd_book "cmd_ok W" for P F sh W
proof (unfold_locales, goal_cases)
  case (1 s bk x)
  then show ?case using cmd_step_rep [of P F sh W s bk x] by (auto simp: prog_tie_def)
next
  case (2 s bk x s')
  then show ?case using cmd_step_rep [of P F sh W s bk x] by (auto simp: prog_tie_def)
qed

fun cmd_run :: "prims \<Rightarrow> wire \<Rightarrow> shell \<Rightarrow> cmd list \<Rightarrow> disk \<times> server \<Rightarrow> (err + disk \<times> server) option" where
  "cmd_run P F sh [] s = Some (Inr s)"
| "cmd_run P F sh (x # xs) s = obind (cmd_step P F sh x s) (cmd_run P F sh xs)"

lemma runs_cmd_run: "tool.runs P F sh xs s s' \<Longrightarrow> cmd_run P F sh xs s = Some (Inr s')"
  by (induction rule: tool.runs.induct) simp_all

fun cmds_ok :: "bytes set \<Rightarrow> cmd list \<Rightarrow> book \<Rightarrow> bool" where
  "cmds_ok W [] bk \<longleftrightarrow> True"
| "cmds_ok W (x # xs) bk \<longleftrightarrow> cmd_ok W x bk \<and> cmds_ok W xs (cmd_book x bk)"

lemma cmds_ok_tool: "cmds_ok W xs bk = tool.all_ok W xs bk"
  by (induction xs arbitrary: bk) simp_all

lemma cmd_run_tie:
  assumes "setting P F" "shell_ok sh" "prog_rep P W s bk" "cmds_ok W xs bk"
  shows "\<exists>s'. cmd_run P F sh xs s = Some (Inr s') \<and> prog_rep P W s' (fold cmd_book xs bk)"
proof -
  have r: "prog_tie P F sh W s bk" and ok: "tool.all_ok W xs bk"
    using assms by (simp_all add: prog_tie_def cmds_ok_tool)
  obtain s' where s': "tool.runs P F sh xs s s'" using tool.runs_total [OF r ok] by blast
  from tool.runs_rep [OF this r ok] runs_cmd_run [OF s'] show ?thesis by (auto simp: prog_tie_def)
qed

section \<open>The first command\<close>

definition library :: "disk \<Rightarrow> bytes list \<Rightarrow> book" where
  "library d fs = \<lparr>bk_index = library_index d fs, bk_names = fileidToFilename (index_files d fs),
     bk_next = of_nat (length fs + 1), bk_files = files d\<rparr>"

lemma names_sized_files:
  assumes "names_sized (fileidToFilename x)" "\<forall>f \<in> set fs. length f < 2 ^ 47"
  shows "names_sized (fileidToFilename (foldl (index_file d) x fs))"
  using assms
proof (induction fs arbitrary: x)
  case (Cons f fs)
  have "names_sized (fileidToFilename (index_file d x f))"
    using Cons.prems names_sized_insert [of "fileidToFilename x" f "next_fileid x"]
    by (auto simp: index_file_def alloc_fileid_def Let_def split: prod.split bool.split option.split)
  with Cons show ?case by simp
qed simp

definition files_ok :: "disk \<Rightarrow> bytes set \<Rightarrow> bytes list \<Rightarrow> bool" where
  "files_ok d W fs \<longleftrightarrow> distinct fs \<and> length fs < 2 ^ 64 - 1
     \<and> (\<forall>f \<in> set fs. f \<noteq> [] \<and> length f < 2 ^ 47 \<and> readable_file d f \<and> file_words d f \<subseteq> W)
     \<and> total_ids (all_tokens (index_files d fs)) (fi_fileids (index_files d fs)) + 1 < 2 ^ 64"

text \<open>A server that is up, with nothing revoked.\<close>

definition fresh_server :: "server \<Rightarrow> bool" where
  "fresh_server sv \<longleftrightarrow> listening sv \<and> Srev (sv_core sv) = []"

definition fresh_keys :: "prims \<Rightarrow> shell \<Rightarrow> bytes set \<Rightarrow> bool" where
  "fresh_keys P sh W \<longleftrightarrow> (\<exists>s. draw_keys (sh_devs sh) new_core = Some (Inr s) \<and> keys_cf P W s)"

lemma keys_cf_version [simp]: "keys_cf P W (s\<lparr>version := v\<rparr>) = keys_cf P W s"
  by (simp add: keys_cf_def)

lemma run_setup_files:
  assumes S: "setting P F" and sh: "shell_ok sh" "plain fs" and sv: "fresh_server sv"
    and keys: "fresh_keys P sh W" and d: "disk_fine state_dir d" and fs: "fs \<noteq> []" "files_ok d W fs"
  shows "\<exists>s'. run_client P F sh junk (d, sv) (bytes_of ''setup'' # fs) = Some (Inr ([], s'))
    \<and> prog_rep P W s' (library d fs)"
proof -
  obtain s where s: "draw_keys (sh_devs sh) new_core = Some (Inr s)" "keys_cf P W (s\<lparr>version := Basic\<rparr>)"
    using keys by (auto simp: fresh_keys_def)
  let ?c = "new_client\<lparr>addr := default_addr\<rparr>" and ?x = "index_files d fs"
  have new: "cl_core ?c = new_core" "cl_sock ?c = req_new" "fileidMap ?c = []" "Dcount new_core = []"
    by (simp_all add: new_client_def new_core_def)
  have up: "listening sv" "Srev (sv_core sv) = []" using sv by (auto simp: fresh_server_def)
  have "\<exists>cl' sv'. Client_Setup P F (server_net P F) (sh_devs sh) ?c sv Basic (all_tokens ?x) (fi_fileids ?x) = Some (Inr (True, cl', sv'))
    \<and> fileidMap cl' = fileidMap ?c \<and> addr cl' = addr ?c
    \<and> sys_rep P W (cl', sv') (library_index d fs)"
    by (rule setup_files [OF S new(2) up(1) _ _ up(2) _ _ s(2)])
      (use fs s in \<open>auto simp: new files_ok_def names_sized_def om_inv_empty\<close>)
  then obtain cl' sv' where setup': "Client_Setup P F (server_net P F) (sh_devs sh) ?c sv Basic (all_tokens ?x) (fi_fileids ?x) = Some (Inr (True, cl', sv'))"
    and rep: "sys_rep P W (cl', sv') (library_index d fs)" by blast
  let ?cl = "cl'\<lparr>lastFileid := next_fileid ?x, fileidMap := fileidToFilename ?x\<rparr>"
  have "names_sized (fileidToFilename ?x)"
    unfolding index_files_def using fs(2)
    by (intro names_sized_files) (auto simp: files_ok_def new_index_def names_sized_def om_inv_empty)
  then have rep': "sys_rep P W (?cl, sv') (library_index d fs)" using rep by (simp add: sys_rep_def)
  have "next_fileid ?x = of_nat (length fs + 1)"
    using index_files_ids [of fs d] fs(2) by (simp add: files_ok_def)
  then have lib: "library d fs = \<lparr>bk_index = library_index d fs, bk_names = fileidMap ?cl,
      bk_next = lastFileid ?cl, bk_files = files d\<rparr>"
    by (simp add: library_def)
  have "SetupFiles P F (server_net P F) (sh_devs sh) d ?c sv Basic fs = Some (Inr (True, ?cl, sv'))"
    by (simp add: SetupFiles_def setup' Let_def)
  then have "run_client P F sh junk (d, sv) (bytes_of ''setup'' # fs) =
      obind (Some (Inr ([], ?cl, sv'))) (\<lambda>(out, s, w). let (ok, d) = Client_Save s state_dir d in Some (Inr (out, d, w)))"
    using run_client_plain [OF sh(1), of "bytes_of ''setup''" fs P F junk d sv] sh(2) fs(1)
    by (simp add: run_command_def command_setup_def)
  then show ?thesis using saved_prog_rep [OF d refl rep'] by (auto simp: lib)
qed

section \<open>What a search prints\<close>

definition result_lines :: "bytes \<Rightarrow> bytes list \<Rightarrow> bytes" where
  "result_lines w fs = concat (map (\<lambda>f. w @ bytes_of '': '' @ f @ [10]) fs)"

lemma print_results_names:
  assumes "\<And>n. n \<in> set ns \<Longrightarrow> om_lookup (fileidMap s) (ids n) = Some (name n) \<and> name n \<noteq> []"
  shows "print_results s w (map ids ns) = Inr (result_lines w (map name ns))"
  using assms by (induction ns) (simp_all add: result_line_def Filename_def result_lines_def)

lemma filter_nth: "map ((!) fs) (filter (\<lambda>n. p (fs ! n)) [0..<length fs]) = filter p fs"
proof -
  have "filter p (map ((!) fs) [0..<length fs]) = map ((!) fs) (filter (p \<circ> (!) fs) [0..<length fs])"
    by (rule filter_map)
  then show ?thesis by (simp add: map_nth comp_def)
qed

lemma print_library:
  assumes "files_ok d W fs"
  shows "print_results (new_client\<lparr>fileidMap := bk_names (library d fs)\<rparr>) w (files_with d fs w)
    = Inr (result_lines w (filter (\<lambda>f. w \<in> file_words d f) fs))"
proof -
  have "om_lookup (fileidToFilename (index_files d fs)) (of_nat (n + 1)) = Some (fs ! n)" if "n < length fs" for n
    using assms that by (intro index_files_names) (auto simp: files_ok_def)
  then have "print_results (new_client\<lparr>fileidMap := bk_names (library d fs)\<rparr>) w (files_with d fs w)
    = Inr (result_lines w (map ((!) fs) (filter (\<lambda>n. w \<in> file_words d (fs ! n)) [0..<length fs])))"
    unfolding files_with_def using assms
    by (intro print_results_names) (auto simp: library_def files_ok_def)
  then show ?thesis using filter_nth [of fs "\<lambda>f. w \<in> file_words d f"] by simp
qed

section \<open>Setup without files\<close>

text \<open>
  The test index that is sent when no file is named has ids, and the client has no names
  for them.
\<close>

definition seed_book :: "disk \<Rightarrow> book" where
  "seed_book d = \<lparr>bk_index = \<lparr>ix_setup = (\<lambda>w. if w \<in> set seed_tokens then [1] else []),
       ix_added = (\<lambda>w. []), ix_revoked = {}\<rparr>,
     bk_names = [], bk_next = 0, bk_files = files d\<rparr>"

lemma seed_lookup: "om_lookup seed_fileids w = (if w \<in> set seed_tokens then Some [1] else None)"
  unfolding seed_fileids_def seed_tokens_def
  by (simp del: om_insert.simps add: om_lookup_insert)

lemma seed_ids: "setup_ids seed_tokens seed_fileids w = (if w \<in> set seed_tokens then [1] else [])"
  by (simp add: setup_ids_def seed_lookup)

lemma seed_total: "total_ids seed_tokens seed_fileids = 4"
  by (simp add: total_ids_def seed_ids) (simp add: seed_tokens_def)

lemma run_setup_seed:
  assumes S: "setting P F" and sh: "shell_ok sh" and sv: "fresh_server sv"
    and keys: "fresh_keys P sh W" and d: "disk_fine state_dir d" and W: "set seed_tokens \<subseteq> W"
  shows "\<exists>s'. run_client P F sh junk (d, sv) [bytes_of ''setup''] = Some (Inr ([], s'))
    \<and> prog_rep P W s' (seed_book d)"
proof -
  obtain s where s: "draw_keys (sh_devs sh) new_core = Some (Inr s)" "keys_cf P W (s\<lparr>version := Basic\<rparr>)"
    using keys by (auto simp: fresh_keys_def)
  let ?c = "new_client\<lparr>addr := default_addr\<rparr>"
  have new: "cl_core ?c = new_core" "cl_sock ?c = req_new" "fileidMap ?c = []" "lastFileid ?c = 0" "Dcount new_core = []"
    by (simp_all add: new_client_def new_core_def)
  have up: "listening sv" "Srev (sv_core sv) = []" using sv by (auto simp: fresh_server_def)
  have count: "om_count seed_fileids w" if "w \<in> set seed_tokens" for w
    using that by (simp add: om_count_def seed_lookup)
  obtain L M where run: "SetupClient P (sh_devs sh) (cl_core ?c) Basic seed_tokens seed_fileids
      = Some (Inr (s\<lparr>version := Basic\<rparr>, L, M))"
    using SetupClient_total [OF s(1) _ count, of Basic seed_tokens P] by (auto simp: new)
  have "\<exists>sv'. Client_Setup P F (server_net P F) (sh_devs sh) ?c sv Basic seed_tokens seed_fileids
      = Some (Inr (True, ?c\<lparr>cl_core := s\<lparr>version := Basic\<rparr>\<rparr>, sv'))
    \<and> sys_rep P W (?c\<lparr>cl_core := s\<lparr>version := Basic\<rparr>\<rparr>, sv')
        (setup_index P (s\<lparr>version := Basic\<rparr>) (sv_core sv) seed_tokens seed_fileids)"
    by (rule sys_setup [OF S new(2) up(1) _ _ _ run W s(2)])
      (simp_all add: new names_sized_def om_inv_empty seed_total dcount_def)
  then obtain sv' where setup': "Client_Setup P F (server_net P F) (sh_devs sh) ?c sv Basic seed_tokens seed_fileids
      = Some (Inr (True, ?c\<lparr>cl_core := s\<lparr>version := Basic\<rparr>\<rparr>, sv'))"
    and rep: "sys_rep P W (?c\<lparr>cl_core := s\<lparr>version := Basic\<rparr>\<rparr>, sv')
        (setup_index P (s\<lparr>version := Basic\<rparr>) (sv_core sv) seed_tokens seed_fileids)"
    by blast
  have "setup_index P (s\<lparr>version := Basic\<rparr>) (sv_core sv) seed_tokens seed_fileids = bk_index (seed_book d)"
    by (simp add: setup_index_def up(2) seed_book_def fun_eq_iff seed_ids)
  note rep' = rep [unfolded this]
  have "plain (bytes_of ''setup'' # [])" unfolding plain_commands by (simp add: plain_def)
  then have "run_client P F sh junk (d, sv) (bytes_of ''setup'' # []) =
      obind (Some (Inr ([], ?c\<lparr>cl_core := s\<lparr>version := Basic\<rparr>\<rparr>, sv')))
        (\<lambda>(out, s, w). let (ok, d) = Client_Save s state_dir d in Some (Inr (out, d, w)))"
    using run_client_plain [OF sh, of "bytes_of ''setup''" "[]" P F junk d sv]
    by (simp add: run_command_def command_setup_def setup')
  then show ?thesis
    using saved_prog_rep [OF d refl rep'] by (auto simp: seed_book_def new_client_def)
qed

text \<open>The ids of the first two files that are added then are 0 and 1, and 1 is taken.\<close>

lemma seed_search: "w \<in> set seed_tokens \<Longrightarrow> index_search (bk_index (seed_book d)) w = [1]"
  by (simp add: index_search_def seed_book_def)

lemma seed_added:
  assumes "w \<in> set seed_tokens" "w \<notin> words_in (seed_book d) f" "w \<notin> words_in (seed_book d) g"
  shows "index_search (bk_index (fold cmd_book [CmdAddFile f junk, CmdAddFile g junk] (seed_book d))) w = [1]"
    "om_lookup (bk_names (fold cmd_book [CmdAddFile f junk, CmdAddFile g junk] (seed_book d))) 1 = Some g"
proof -
  have "words_in (bk\<lparr>bk_index := i, bk_names := n, bk_next := k\<rparr>) h = words_in bk h" for bk i n k h
    by (simp add: words_in_def)
  then show "index_search (bk_index (fold cmd_book [CmdAddFile f junk, CmdAddFile g junk] (seed_book d))) w = [1]"
    using assms by (simp add: index_add_def index_search_def) (simp add: seed_book_def)
  show "om_lookup (bk_names (fold cmd_book [CmdAddFile f junk, CmdAddFile g junk] (seed_book d))) 1 = Some g"
    by (simp add: om_lookup_insert) (simp add: seed_book_def om_lookup_insert)
qed

section \<open>Options and the manifest\<close>

text \<open>Each \<open>-P\<close> goes one version up, to \<open>Pointer\<close> at most.\<close>

lemma parse_options_version:
  assumes "parse_options opts port ver = Inr (port', ver')" "ver \<in> {Basic, Packed, Pointer}"
  shows "ver' = min Pointer (ver + int (length (filter (\<lambda>x. x = OptP) opts)))"
  using assms
proof (induction opts port ver rule: parse_options.induct)
  case (3 opts port ver)
  then show ?case by (auto simp: versions split: if_splits)
qed (auto simp: versions split: option.splits)

lemma lines_of_append:
  assumes "10 \<notin> set l"
  shows "lines_of (l @ 10 # bs) = l # lines_of bs"
proof -
  have "dropWhile (\<lambda>b. b \<noteq> 10) (l @ 10 # bs) = 10 # bs" "takeWhile (\<lambda>b. b \<noteq> 10) (l @ 10 # bs) = l"
    using assms by (auto simp: dropWhile_append takeWhile_append)
  then show ?thesis by (subst lines_of.simps) simp
qed

lemma lines_of_Nil [simp]: "lines_of [] = []"
  by (simp add: lines_of.simps)

text \<open>A list of lines, each closed by a line feed, the last one perhaps not.\<close>

lemma lines_of_lines:
  "\<forall>l \<in> set ls. 10 \<notin> set l \<Longrightarrow> lines_of (concat (map (\<lambda>l. l @ [10]) ls)) = ls"
  by (induction ls) (simp_all add: lines_of_append)

lemma lines_of_last:
  "\<forall>l \<in> set ls. 10 \<notin> set l \<Longrightarrow> 10 \<notin> set l \<Longrightarrow> l \<noteq> [] \<Longrightarrow>
   lines_of (concat (map (\<lambda>l. l @ [10]) ls) @ l) = ls @ [l]"
proof (induction ls)
  case Nil
  have d: "dropWhile (\<lambda>b. b \<noteq> 10) l = []" using Nil by auto
  have "lines_of l = [l]" unfolding lines_of.simps [of l] d using Nil by simp
  then show ?case by simp
qed (simp add: lines_of_append)

text \<open>\<open>setuplist\<close> is \<open>setup\<close> on the lines of the manifest.\<close>

lemma setuplist_setup:
  assumes "files d (path_of manifest) = Some bs" "lines_of bs = fs" "fs \<noteq> []"
  shows "command_setuplist P F net devs d s w ver [manifest] = command_setup P F net devs d s w ver fs"
  using assms by (simp add: command_setuplist_def command_setup_def)

end
