(* ===== verification/Bench.thy ===== *)
theory Bench
  imports Commands
begin

text \<open>
  \<open>src/bench.cpp\<close>: a Setup, two searches, many Adds of one word, one Add of another, a
  search for it, and the saving of the client. The random number and the elapsed times are
  parameters.
\<close>

section \<open>The program\<close>

definition size_of_database :: nat where "size_of_database = 100000"

definition balloons :: bytes where "balloons = bytes_of ''balloons''"
definition chocolate :: bytes where "chocolate = bytes_of ''Chocolate''"

definition bench_tokens :: "bytes list" where
  "bench_tokens = [bytes_of ''this'', bytes_of ''is'', bytes_of ''a'', bytes_of ''test'']"

definition bench_fidmap :: filemap where
  "bench_fidmap = foldl (\<lambda>m (w, ids). om_insert w ids m) []
     [(bytes_of ''this'', [1]), (bytes_of ''is'', [1]), (bytes_of ''a'', [1]), (bytes_of ''test'', [1])]"

definition newline :: bytes where "newline = [10]"

definition id_lines :: "bytes \<Rightarrow> u64 list \<Rightarrow> bytes" where
  "id_lines prefix ids = concat (map (\<lambda>i. prefix @ dec (unat i) @ newline) ids)"

text \<open>One Add and the complaint when it fails; then the loop.\<close>

definition bench_add ::
  "prims \<Rightarrow> wire \<Rightarrow> 'w net \<Rightarrow> (nat \<Rightarrow> bytes) \<Rightarrow> client \<Rightarrow> 'w \<Rightarrow> nat \<Rightarrow> bytes \<Rightarrow> (err + bytes \<times> client \<times> 'w) option" where
  "bench_add P F net junk s w i word =
     obind (Client_Add P F net junk s w (of_nat i) [word]) (\<lambda>(ok, s, w).
       Some (Inr (if ok then [] else bytes_of ''add failed'' @ newline, s, w)))"

fun bench_adds ::
  "prims \<Rightarrow> wire \<Rightarrow> 'w net \<Rightarrow> (nat \<Rightarrow> nat \<Rightarrow> bytes) \<Rightarrow> client \<Rightarrow> 'w \<Rightarrow> nat list \<Rightarrow> (err + bytes \<times> client \<times> 'w) option" where
  "bench_adds P F net junk s w [] = Some (Inr ([], s, w))"
| "bench_adds P F net junk s w (i # is) =
     obind (bench_add P F net (junk i) s w i balloons) (\<lambda>(out, s, w).
     obind (bench_adds P F net junk s w is) (\<lambda>(outs, s, w). Some (Inr (out @ outs, s, w))))"

definition timing :: "string \<Rightarrow> int \<Rightarrow> bytes" where
  "timing what ns =
     newline @ bytes_of ('' Testing ('' @ what @ '': '') @ dec size_of_database @ bytes_of ''): '' @ newline
     @ bytes_of ''Elapsed Time: '' @ dec_int ns @ bytes_of '' in nanoseconds '' @ newline @ newline"

text \<open>\<open>myfile.open(name, app)\<close>, one number and the line end of the benchmark files.\<close>

definition append_time :: "string \<Rightarrow> int \<Rightarrow> disk \<Rightarrow> disk" where
  "append_time p ns d =
     snd (write_file p ((case files d p of None \<Rightarrow> [] | Some bs \<Rightarrow> bs) @ dec_int ns @ [13, 10]) d)"

definition bench_run ::
  "prims \<Rightarrow> wire \<Rightarrow> 'w net \<Rightarrow> urandom \<times> urandom \<times> urandom \<Rightarrow> (nat \<Rightarrow> nat \<Rightarrow> bytes) \<Rightarrow> nat \<Rightarrow> int \<times> int
    \<Rightarrow> disk \<Rightarrow> client \<Rightarrow> 'w \<Rightarrow> (err + bytes \<times> disk \<times> 'w) option" where
  "bench_run P F net devs junk rnd ns d s w =
     obind (Client_Setup P F net devs s w Basic bench_tokens bench_fidmap) (\<lambda>(ok, s, w).
     obind (Client_Search P F net s w (bytes_of ''test'')) (\<lambda>(out1, ids1, s, w).
     obind (Client_Search P F net s w balloons) (\<lambda>(out2, ids2, s, w).
     obind (bench_adds P F net junk s w [0..<size_of_database]) (\<lambda>(out3, s, w).
       let random_replace = rnd mod size_of_database in
     obind (bench_add P F net (junk size_of_database) s w random_replace chocolate) (\<lambda>(out4, s, w).
       let d = append_time ''Add_Benchmarks.txt'' (fst ns) d in
     obind (Client_Search P F net s w chocolate) (\<lambda>(out5, ids5, s, w).
       let d = append_time ''Search_Benchmarks.txt'' (snd ns) d;
           (ok, d) = Client_Save s state_dir d
       in Some (Inr (bytes_of ''setup finished'' @ newline @ out1 @ id_lines [] ids1 @ out2 @ id_lines (bytes_of ''balloons: '') ids2
            @ out3 @ bytes_of ''Random Unique Entry Placed at index: '' @ dec random_replace @ newline @ out4
            @ timing ''Add'' (fst ns) @ out5 @ timing ''Search Unique'' (snd ns), d, w))))))))"

definition bench_main ::
  "prims \<Rightarrow> wire \<Rightarrow> (bytes \<Rightarrow> bool) \<Rightarrow> (int \<Rightarrow> 'w net) \<Rightarrow> urandom \<times> urandom \<times> urandom \<Rightarrow> (nat \<Rightarrow> nat \<Rightarrow> bytes)
    \<Rightarrow> nat \<Rightarrow> int \<times> int \<Rightarrow> disk \<Rightarrow> 'w \<Rightarrow> bytes list \<Rightarrow> (err + bytes \<times> disk \<times> 'w) option" where
  "bench_main P F zmq_connect net devs junk rnd ns d w argv =
     (case (if 1 < length argv then atoi (argv ! 1) else Some DefaultPort) of
        None \<Rightarrow> Some (Inl Undefined)
      | Some port \<Rightarrow>
          (case Connect zmq_connect new_client (bytes_of ''localhost'') port of
             Inl e \<Rightarrow> Some (Inl e)
           | Inr (ok, s) \<Rightarrow> bench_run P F (net port) devs junk rnd ns d s w))"

section \<open>The loop\<close>

definition index_adds :: "bytes \<Rightarrow> nat list \<Rightarrow> index \<Rightarrow> index" where
  "index_adds word is ix = fold (\<lambda>i. index_add (of_nat i) {word}) is ix"

lemma index_adds_added:
  assumes "ix_revoked ix = {}"
  shows "index_adds word is ix = ix\<lparr>ix_added := (ix_added ix)(word := ix_added ix word @ map of_nat is)\<rparr>"
  using assms
proof (induction "is" arbitrary: ix)
  case Nil
  then show ?case by (cases ix) (simp add: index_adds_def)
next
  case (Cons i "is")
  have one: "index_add (of_nat i) {word} ix = ix\<lparr>ix_added := (ix_added ix)(word := ix_added ix word @ [of_nat i])\<rparr>"
    using Cons.prems by (cases ix) (auto simp: index_add_def fun_eq_iff)
  let ?x = "ix\<lparr>ix_added := (ix_added ix)(word := ix_added ix word @ [of_nat i])\<rparr>"
  have "index_adds word (i # is) ix = index_adds word is ?x"
    by (simp add: index_adds_def one)
  also have "\<dots> = ?x\<lparr>ix_added := (ix_added ?x)(word := ix_added ?x word @ map of_nat is)\<rparr>"
    by (rule Cons.IH) (simp add: Cons.prems)
  also have "\<dots> = ix\<lparr>ix_added := (ix_added ix)(word := ix_added ix word @ map of_nat (i # is))\<rparr>"
    by simp
  finally show ?case .
qed

lemma bench_add_adds:
  assumes S: "setting P F" and rep: "sys_rep P W (cl, sv) ix" and w: "w \<in> W" "length w < 2 ^ 47"
    and len: "length (ix_added ix w) + 1 < 2 ^ 64" and junk: "\<And>i. length (junk i) < 2 ^ 47"
  shows "\<exists>c sv'. bench_add P F (server_net P F) junk cl sv i w = Some (Inr ([], cl\<lparr>cl_core := c\<rparr>, sv'))
    \<and> sys_rep P W (cl\<lparr>cl_core := c\<rparr>, sv') (index_add (of_nat i) {w} ix)"
proof -
  have F: "wire_ok F" "wire_total F" "prims_ok P" using S by (auto simp: setting_def)
  have "sys_ok W (SysAdd (of_nat i) [w] junk) ix" using w len junk by simp
  then obtain c sv' where "Client_Add P F (server_net P F) junk cl sv (of_nat i) [w] = Some (Inr (True, cl\<lparr>cl_core := c\<rparr>, sv'))"
    "sys_rep P W (cl\<lparr>cl_core := c\<rparr>, sv') (index_add (of_nat i) (set [w]) ix)"
    using sys_add [OF F rep, of "of_nat i" "[w]" junk] by blast
  then show ?thesis by (intro exI [of _ c] exI [of _ sv']) (simp add: bench_add_def)
qed

lemma bench_adds_added:
  assumes S: "setting P F" and rep: "sys_rep P W (cl, sv) ix" and W: "balloons \<in> W"
    and len: "length (ix_added ix balloons) + length is < 2 ^ 64" and junk: "\<And>i j. length (junk i j) < 2 ^ 47"
    and rev: "ix_revoked ix = {}"
  shows "\<exists>c sv'. bench_adds P F (server_net P F) junk cl sv is = Some (Inr ([], cl\<lparr>cl_core := c\<rparr>, sv'))
    \<and> sys_rep P W (cl\<lparr>cl_core := c\<rparr>, sv') (index_adds balloons is ix)"
  using rep len rev
proof (induction "is" arbitrary: cl sv ix)
  case Nil
  show ?case using Nil(1) by (intro exI [of _ "cl_core cl"] exI [of _ sv]) (simp add: index_adds_def)
next
  case (Cons i "is")
  have b: "length balloons < 2 ^ 47" by (simp add: balloons_def bytes_of_def)
  obtain c sv1 where 1: "bench_add P F (server_net P F) (junk i) cl sv i balloons = Some (Inr ([], cl\<lparr>cl_core := c\<rparr>, sv1))"
    "sys_rep P W (cl\<lparr>cl_core := c\<rparr>, sv1) (index_add (of_nat i) {balloons} ix)"
    using bench_add_adds [OF S Cons.prems(1) W b, of "junk i" i] junk Cons.prems(2) by auto
  have one: "index_add (of_nat i) {balloons} ix = index_adds balloons [i] ix" by (simp add: index_adds_def)
  have "length (ix_added (index_add (of_nat i) {balloons} ix) balloons) + length is < 2 ^ 64"
    "ix_revoked (index_add (of_nat i) {balloons} ix) = {}"
    using Cons.prems(2,3) unfolding one by (simp_all add: index_adds_added)
  from Cons.IH [OF 1(2) this] obtain c2 sv2 where
    "bench_adds P F (server_net P F) junk (cl\<lparr>cl_core := c\<rparr>) sv1 is = Some (Inr ([], cl\<lparr>cl_core := c2\<rparr>, sv2))"
    "sys_rep P W (cl\<lparr>cl_core := c2\<rparr>, sv2) (index_adds balloons is (index_add (of_nat i) {balloons} ix))"
    by auto
  then show ?case using 1(1) by (intro exI [of _ c2] exI [of _ sv2]) (simp add: index_adds_def)
qed

section \<open>What it does\<close>

definition bench_words :: "bytes set" where
  "bench_words = set bench_tokens \<union> {balloons, chocolate}"

definition bench_output :: "nat \<Rightarrow> int \<times> int \<Rightarrow> bytes" where
  "bench_output rnd ns =
     bytes_of ''setup finished'' @ newline @ got_response @ dec 1 @ newline @ got_response
     @ bytes_of ''Random Unique Entry Placed at index: '' @ dec (rnd mod size_of_database) @ newline
     @ timing ''Add'' (fst ns) @ got_response @ timing ''Search Unique'' (snd ns)"

lemma bench_seed: "bench_tokens = seed_tokens" "bench_fidmap = seed_fileids"
  by (simp_all add: bench_tokens_def seed_tokens_def bench_fidmap_def seed_fileids_def)

lemma bench_words_differ:
  "balloons \<noteq> chocolate" "balloons \<notin> set bench_tokens" "chocolate \<notin> set bench_tokens"
  "bytes_of ''test'' \<in> set bench_tokens" "length balloons < 2 ^ 47" "length chocolate < 2 ^ 47"
  by (simp_all add: balloons_def chocolate_def bench_tokens_def bytes_of_def)

definition bench_index :: index where
  "bench_index = \<lparr>ix_setup = (\<lambda>w. if w \<in> set bench_tokens then [1] else []), ix_added = (\<lambda>w. []), ix_revoked = {}\<rparr>"

lemma bench_setup:
  assumes S: "setting P F" and sv: "fresh_server sv"
    and s: "draw_keys devs new_core = Some (Inr s)" "keys_cf P W s" and W: "set bench_tokens \<subseteq> W"
    and cl: "cl = new_client\<lparr>addr := a\<rparr>"
  shows "\<exists>c sv'. Client_Setup P F (server_net P F) devs cl sv Basic bench_tokens bench_fidmap
      = Some (Inr (True, cl\<lparr>cl_core := c\<rparr>, sv')) \<and> sys_rep P W (cl\<lparr>cl_core := c\<rparr>, sv') bench_index"
proof -
  have new: "cl_core cl = new_core" "cl_sock cl = req_new" "fileidMap cl = []" "Dcount new_core = []"
    by (simp_all add: cl new_client_def new_core_def)
  have up: "listening sv" "Srev (sv_core sv) = []" using sv by (auto simp: fresh_server_def)
  have count: "om_count seed_fileids w" if "w \<in> set seed_tokens" for w
    using that by (simp add: om_count_def seed_lookup)
  obtain L M where run: "SetupClient P devs (cl_core cl) Basic bench_tokens bench_fidmap
      = Some (Inr (s\<lparr>version := Basic\<rparr>, L, M))"
    using SetupClient_total [OF s(1) _ count, of Basic seed_tokens P] by (auto simp: new bench_seed)
  have cf: "keys_cf P W (s\<lparr>version := Basic\<rparr>)" using s(2) by simp
  have "\<exists>sv'. Client_Setup P F (server_net P F) devs cl sv Basic bench_tokens bench_fidmap
      = Some (Inr (True, cl\<lparr>cl_core := s\<lparr>version := Basic\<rparr>\<rparr>, sv'))
    \<and> sys_rep P W (cl\<lparr>cl_core := s\<lparr>version := Basic\<rparr>\<rparr>, sv')
        (setup_index P (s\<lparr>version := Basic\<rparr>) (sv_core sv) bench_tokens bench_fidmap)"
    by (rule sys_setup [OF S new(2) up(1) _ _ _ run _ cf])
      (use W in \<open>auto simp: new names_sized_def om_inv_empty bench_seed seed_total dcount_def\<close>)
  moreover have "setup_index P (s\<lparr>version := Basic\<rparr>) (sv_core sv) bench_tokens bench_fidmap = bench_index"
    by (simp add: setup_index_def up(2) bench_index_def fun_eq_iff seed_ids bench_seed)
  ultimately show ?thesis by (intro exI [of _ "s\<lparr>version := Basic\<rparr>"]) simp
qed

lemma bench_ran:
  assumes S: "setting P F" and rep: "sys_rep P bench_words (cl, sv) bench_index"
    and setup': "Client_Setup P F (server_net P F) devs cl0 sv0 Basic bench_tokens bench_fidmap = Some (Inr (True, cl, sv))"
    and junk: "\<And>i j. length (junk i j) < 2 ^ 47" and d: "disk_fine state_dir d"
  shows "\<exists>d' sv' bk. bench_run P F (server_net P F) devs junk rnd ns d cl0 sv0 = Some (Inr (bench_output rnd ns, d', sv'))
    \<and> prog_rep P bench_words (d', sv') bk
    \<and> bk_index bk = index_adds chocolate [rnd mod size_of_database] (index_adds balloons [0..<size_of_database] bench_index)"
proof -
  have F: "wire_ok F" "wire_total F" "prims_ok P" using S by (auto simp: setting_def)
  have W: "bytes_of ''test'' \<in> bench_words" "balloons \<in> bench_words" "chocolate \<in> bench_words"
    using bench_words_differ by (auto simp: bench_words_def)
  let ?ix3 = "index_adds balloons [0..<size_of_database] bench_index"
  let ?k = "rnd mod size_of_database"
  let ?ix4 = "index_add (of_nat ?k) {chocolate} ?ix3"
  have rev: "ix_revoked bench_index = {}" by (simp add: bench_index_def)
  note ix3 = index_adds_added [OF rev, of balloons "[0..<size_of_database]"]
  obtain sv1 where 1: "Client_Search P F (server_net P F) cl sv (bytes_of ''test'')
      = Some (Inr (got_response, index_search bench_index (bytes_of ''test''), cl, sv1))" "sys_rep P bench_words (cl, sv1) bench_index"
    using sys_search [OF F rep W(1)] by blast
  obtain sv2 where 2: "Client_Search P F (server_net P F) cl sv1 balloons
      = Some (Inr (got_response, index_search bench_index balloons, cl, sv2))" "sys_rep P bench_words (cl, sv2) bench_index"
    using sys_search [OF F 1(2) W(2)] by blast
  have "length (ix_added bench_index balloons) + length [0..<size_of_database] < 2 ^ 64"
    by (simp add: bench_index_def size_of_database_def)
  then obtain c3 sv3 where 3: "bench_adds P F (server_net P F) junk cl sv2 [0..<size_of_database]
      = Some (Inr ([], cl\<lparr>cl_core := c3\<rparr>, sv3))" "sys_rep P bench_words (cl\<lparr>cl_core := c3\<rparr>, sv3) ?ix3"
    using bench_adds_added [where junk = junk, OF S 2(2) W(2) _ junk rev] by blast
  have "length (ix_added ?ix3 chocolate) + 1 < 2 ^ 64"
    unfolding ix3 using bench_words_differ(1) by (simp add: bench_index_def)
  then obtain c4 sv4 where 4: "bench_add P F (server_net P F) (junk size_of_database) (cl\<lparr>cl_core := c3\<rparr>) sv3 ?k chocolate
      = Some (Inr ([], cl\<lparr>cl_core := c4\<rparr>, sv4))" "sys_rep P bench_words (cl\<lparr>cl_core := c4\<rparr>, sv4) ?ix4"
    using bench_add_adds [OF S 3(2) W(3) bench_words_differ(6), of "junk size_of_database" ?k] junk by auto
  obtain sv5 where 5: "Client_Search P F (server_net P F) (cl\<lparr>cl_core := c4\<rparr>) sv4 chocolate
      = Some (Inr (got_response, index_search ?ix4 chocolate, cl\<lparr>cl_core := c4\<rparr>, sv5))"
    "sys_rep P bench_words (cl\<lparr>cl_core := c4\<rparr>, sv5) ?ix4"
    using sys_search [OF F 4(2) W(3)] by blast
  let ?d = "append_time ''Search_Benchmarks.txt'' (snd ns) (append_time ''Add_Benchmarks.txt'' (fst ns) d)"
  have app: "disk_fine state_dir (append_time p n d)" if "disk_fine state_dir d" for p n d
    using that by (simp add: append_time_def write_file_def disk_fine_def)
  obtain d' where d': "Client_Save (cl\<lparr>cl_core := c4\<rparr>) state_dir ?d = (True, d')"
    "prog_rep P bench_words (d', sv5) \<lparr>bk_index = ?ix4, bk_names = fileidMap (cl\<lparr>cl_core := c4\<rparr>),
       bk_next = lastFileid (cl\<lparr>cl_core := c4\<rparr>), bk_files = files ?d\<rparr>"
    using saved_prog_rep [OF app [OF app [OF d]] refl 5(2)] by blast
  have "index_search bench_index (bytes_of ''test'') = [1]" "index_search bench_index balloons = []"
    using bench_words_differ by (simp_all add: index_search_def bench_index_def)
  then have "bench_run P F (server_net P F) devs junk rnd ns d cl0 sv0 = Some (Inr (bench_output rnd ns, d', sv5))"
    using d'(1) by (simp add: bench_run_def setup' 1(1) 2(1) 3(1) 4(1) 5(1) Let_def id_lines_def bench_output_def)
  moreover have "index_adds chocolate [?k] ?ix3 = ?ix4" by (simp add: index_adds_def)
  ultimately show ?thesis using d'(2)
    by (intro exI [of _ d'] exI [of _ sv5] exI conjI) (assumption | simp)+
qed

end
