(* ===== verification/Smoketest.thy ===== *)
theory Smoketest
  imports Bench
begin

text \<open>
  \<open>src/client_test.cpp\<close>, the program that tries the client out against a running server: it
  loads the client's state or sets it up, searches, adds and deletes, prints what it finds
  and saves. It is meant to be run again and again against the same server.
\<close>

section \<open>The program\<close>

definition clowns :: bytes where "clowns = bytes_of ''clowns''"
definition bananas :: bytes where "bananas = bytes_of ''bananas''"

definition say :: "string \<Rightarrow> bytes" where
  "say s = bytes_of s @ [10]"

definition smoke_body ::
  "prims \<Rightarrow> wire \<Rightarrow> 'w net \<Rightarrow> (nat \<Rightarrow> nat \<Rightarrow> bytes) \<Rightarrow> client \<Rightarrow> 'w \<Rightarrow> (err + bytes \<times> client \<times> 'w) option" where
  "smoke_body P F net junk s w =
     obind (Client_Search P F net s w (bytes_of ''test'')) (\<lambda>(out1, ids1, s, w).
     obind (Client_Search P F net s w balloons) (\<lambda>(out2, ids2, s, w).
     obind (Client_Add P F net (junk 0) s w 4 [balloons]) (\<lambda>(ok1, s, w).
     obind (Client_Search P F net s w balloons) (\<lambda>(out3, ids3, s, w).
     obind (Client_Add P F net (junk 1) s w 4 [clowns, bananas]) (\<lambda>(ok2, s, w).
     obind (Client_Delete P F net s w 4 [balloons]) (\<lambda>(ok3, s, w).
     obind (Client_Search P F net s w balloons) (\<lambda>(out4, ids4, s, w).
       Some (Inr (say ''searching for \"test\"...'' @ out1 @ id_lines (bytes_of ''test: '') ids1
         @ say ''searchin for \"balloons\"...'' @ out2 @ id_lines (bytes_of ''balloons: '') ids2
         @ say ''adding \"balloons\" to document 4...'' @ (if ok1 then [] else say ''error: add failed'')
         @ say ''searchin for \"balloons\" again...'' @ out3 @ id_lines (bytes_of ''balloons: '') ids3
         @ say ''adding \"clowns\" and \"bananas\" to document 4...'' @ (if ok2 then [] else say ''error: add failed'')
         @ say ''deleting...'' @ (if ok3 then [] else say ''error: delete failed'')
         @ say ''searchin for \"balloons\" again...'' @ out4 @ id_lines (bytes_of ''balloons: '') ids4,
         s, w)))))))))"

text \<open>
  \<open>Load\<close>, or else \<open>Setup\<close> in the form that takes no version. A failed \<open>Load\<close> leaves what it
  read so far; the result of \<open>Setup\<close> is not looked at.
\<close>

definition Setup_basic ::
  "prims \<Rightarrow> wire \<Rightarrow> 'w net \<Rightarrow> urandom \<times> urandom \<times> urandom \<Rightarrow> client \<Rightarrow> 'w \<Rightarrow> bytes list \<Rightarrow> filemap
    \<Rightarrow> (err + bool \<times> client \<times> 'w) option" where
  "Setup_basic P F net devs s w tokens fileids = Client_Setup P F net devs s w Basic tokens fileids"

definition smoke_start ::
  "prims \<Rightarrow> wire \<Rightarrow> 'w net \<Rightarrow> urandom \<times> urandom \<times> urandom \<Rightarrow> disk \<Rightarrow> client \<Rightarrow> 'w
    \<Rightarrow> (err + bytes \<times> client \<times> 'w) option" where
  "smoke_start P F net devs d s w =
     obind (Client_Load s state_dir d) (\<lambda>(ok, s).
       if ok then Some (Inr (say ''loaded client state'', s, w))
       else obind (Setup_basic P F net devs s w bench_tokens bench_fidmap) (\<lambda>(ok, s, w).
         Some (Inr (say ''setup finished'', s, w))))"

definition smoke_main ::
  "prims \<Rightarrow> wire \<Rightarrow> (bytes \<Rightarrow> bool) \<Rightarrow> (int \<Rightarrow> 'w net) \<Rightarrow> urandom \<times> urandom \<times> urandom \<Rightarrow> (nat \<Rightarrow> nat \<Rightarrow> bytes)
    \<Rightarrow> disk \<Rightarrow> 'w \<Rightarrow> bytes list \<Rightarrow> (err + bytes \<times> disk \<times> 'w) option" where
  "smoke_main P F zmq_connect net devs junk d w argv =
     (case (if 1 < length argv then atoi (argv ! 1) else Some DefaultPort) of
        None \<Rightarrow> Some (Inl Undefined)
      | Some port \<Rightarrow>
          (case Connect zmq_connect new_client (bytes_of ''localhost'') port of
             Inl e \<Rightarrow> Some (Inl e)
           | Inr (ok, s) \<Rightarrow>
               obind (smoke_start P F (net port) devs d s w) (\<lambda>(out1, s, w).
               obind (smoke_body P F (net port) junk s w) (\<lambda>(out2, s, w).
                 let (ok, d) = Client_Save s state_dir d in Some (Inr (out1 @ out2, d, w))))))"

section \<open>What it does\<close>

text \<open>The index before run \<open>n\<close> (the runs are counted from 0).\<close>

definition smoke_index :: "nat \<Rightarrow> index" where
  "smoke_index n = bench_index\<lparr>
     ix_added := (\<lambda>w. if w = balloons then (if n = 0 then [] else [4])
                      else if w = clowns \<or> w = bananas then replicate n 4 else []),
     ix_revoked := (if n = 0 then {} else {(balloons, 4)})\<rparr>"

definition smoke_words :: "bytes set" where
  "smoke_words = set bench_tokens \<union> {balloons, clowns, bananas}"

definition smoke_output :: bytes where
  "smoke_output = say ''searching for \"test\"...'' @ got_response @ bytes_of ''test: 1'' @ newline
     @ say ''searchin for \"balloons\"...'' @ got_response
     @ say ''adding \"balloons\" to document 4...''
     @ say ''searchin for \"balloons\" again...'' @ got_response @ bytes_of ''balloons: 4'' @ newline
     @ say ''adding \"clowns\" and \"bananas\" to document 4...'' @ say ''deleting...''
     @ say ''searchin for \"balloons\" again...'' @ got_response"

lemma smoke_words_differ:
  "balloons \<noteq> clowns" "balloons \<noteq> bananas" "clowns \<noteq> bananas" "bytes_of ''test'' \<noteq> balloons"
  "bytes_of ''test'' \<noteq> clowns" "bytes_of ''test'' \<noteq> bananas" "bytes_of ''test'' \<in> set bench_tokens"
  "balloons \<notin> set bench_tokens"
  by (simp_all add: balloons_def clowns_def bananas_def bench_tokens_def bytes_of_def)

lemma smoke_words_in [simp]: "bytes_of ''test'' \<in> smoke_words" "balloons \<in> smoke_words" "clowns \<in> smoke_words"
  "bananas \<in> smoke_words"
  using smoke_words_differ by (simp_all add: smoke_words_def)

lemma smoke_sizes: "length balloons < 2 ^ 47" "length clowns < 2 ^ 47" "length bananas < 2 ^ 47"
  by (simp_all add: balloons_def clowns_def bananas_def bytes_of_def)

lemma smoke_index_ops:
  "index_delete 4 {balloons} (index_add 4 {clowns, bananas} (index_add 4 {balloons} (smoke_index n)))
    = smoke_index (Suc n)"
  using smoke_words_differ
  by (auto simp: smoke_index_def index_add_def index_delete_def fun_eq_iff replicate_append_same [symmetric])

lemma smoke_searches:
  "index_search (smoke_index n) (bytes_of ''test'') = [1]" "index_search (smoke_index n) balloons = []"
  "index_search (index_add 4 {balloons} (smoke_index n)) balloons = [4]"
  using smoke_words_differ
  by (auto simp: smoke_index_def index_add_def index_search_def bench_index_def)

lemma smoke_ran:
  assumes S: "setting P F" and rep: "sys_rep P smoke_words (cl, sv) (smoke_index n)" and n: "n + 1 < 2 ^ 64"
    and junk: "\<And>i j. length (junk i j) < 2 ^ 47"
  shows "\<exists>cl' sv'. smoke_body P F (server_net P F) junk cl sv = Some (Inr (smoke_output, cl', sv'))
    \<and> sys_rep P smoke_words (cl', sv') (smoke_index (Suc n))"
proof -
  have F: "wire_ok F" "wire_total F" "prims_ok P" using S by (auto simp: setting_def)
  note diff = smoke_words_differ
  let ?ix1 = "index_add 4 {balloons} (smoke_index n)" let ?ix2 = "index_add 4 {clowns, bananas} ?ix1"
  obtain sv1 where 1: "Client_Search P F (server_net P F) cl sv (bytes_of ''test'')
      = Some (Inr (got_response, [1], cl, sv1))" "sys_rep P smoke_words (cl, sv1) (smoke_index n)"
    using sys_search [OF F rep, of "bytes_of ''test''"] by (auto simp: smoke_searches)
  obtain sv2 where 2: "Client_Search P F (server_net P F) cl sv1 balloons
      = Some (Inr (got_response, [], cl, sv2))" "sys_rep P smoke_words (cl, sv2) (smoke_index n)"
    using sys_search [OF F 1(2), of balloons] by (auto simp: smoke_searches)
  have "sys_ok smoke_words (SysAdd 4 [balloons] (junk 0)) (smoke_index n)"
    using junk smoke_sizes by (simp add: smoke_index_def)
  from sys_add [OF F 2(2) this] obtain c3 sv3 where
    3: "Client_Add P F (server_net P F) (junk 0) cl sv2 4 [balloons] = Some (Inr (True, cl\<lparr>cl_core := c3\<rparr>, sv3))"
      "sys_rep P smoke_words (cl\<lparr>cl_core := c3\<rparr>, sv3) ?ix1"
    by auto
  obtain sv4 where 4: "Client_Search P F (server_net P F) (cl\<lparr>cl_core := c3\<rparr>) sv3 balloons
      = Some (Inr (got_response, [4], cl\<lparr>cl_core := c3\<rparr>, sv4))" "sys_rep P smoke_words (cl\<lparr>cl_core := c3\<rparr>, sv4) ?ix1"
    using sys_search [OF F 3(2), of balloons] by (auto simp: smoke_searches)
  have "sys_ok smoke_words (SysAdd 4 [clowns, bananas] (junk 1)) ?ix1"
    using junk smoke_sizes diff n by (auto simp: smoke_index_def index_add_def)
  from sys_add [OF F 4(2) this] obtain c5 sv5 where
    5: "Client_Add P F (server_net P F) (junk 1) (cl\<lparr>cl_core := c3\<rparr>) sv4 4 [clowns, bananas]
        = Some (Inr (True, cl\<lparr>cl_core := c5\<rparr>, sv5))"
      "sys_rep P smoke_words (cl\<lparr>cl_core := c5\<rparr>, sv5) ?ix2"
    by auto
  obtain sv6 where 6: "Client_Delete P F (server_net P F) (cl\<lparr>cl_core := c5\<rparr>) sv5 4 [balloons]
      = Some (Inr (True, cl\<lparr>cl_core := c5\<rparr>, sv6))" "sys_rep P smoke_words (cl\<lparr>cl_core := c5\<rparr>, sv6) (smoke_index (Suc n))"
    using sys_delete [OF F 5(2), of "[balloons]" 4] by (auto simp: smoke_index_ops)
  obtain sv7 where 7: "Client_Search P F (server_net P F) (cl\<lparr>cl_core := c5\<rparr>) sv6 balloons
      = Some (Inr (got_response, [], cl\<lparr>cl_core := c5\<rparr>, sv7))"
      "sys_rep P smoke_words (cl\<lparr>cl_core := c5\<rparr>, sv7) (smoke_index (Suc n))"
    using sys_search [OF F 6(2), of balloons] by (auto simp: smoke_searches)
  have "dec 1 = bytes_of ''1''" "dec 4 = bytes_of ''4''" by (simp_all add: dec.simps bytes_of_def)
  then have "smoke_body P F (server_net P F) junk cl sv = Some (Inr (smoke_output, cl\<lparr>cl_core := c5\<rparr>, sv7))"
    by (simp add: smoke_body_def 1(1) 2(1) 3(1) 4(1) 5(1) 6(1) 7(1) id_lines_def smoke_output_def del: One_nat_def)
      (simp add: bytes_of_def)
  with 7(2) show ?thesis by blast
qed

section \<open>Run after run\<close>

text \<open>The program is started once for each element of the list, which is what its Adds find on the stack.\<close>

fun smoke_times ::
  "prims \<Rightarrow> wire \<Rightarrow> (bytes \<Rightarrow> bool) \<Rightarrow> urandom \<times> urandom \<times> urandom \<Rightarrow> (nat \<Rightarrow> nat \<Rightarrow> bytes) list \<Rightarrow> disk \<times> server
    \<Rightarrow> (err + bytes list \<times> disk \<times> server) option" where
  "smoke_times P F conn devs [] s = Some (Inr ([], s))"
| "smoke_times P F conn devs (junk # js) s =
     obind (smoke_main P F conn (\<lambda>port. server_net P F) devs junk (fst s) (snd s) [bytes_of ''client_test''])
       (\<lambda>(out, s). obind (smoke_times P F conn devs js s) (\<lambda>(outs, s). Some (Inr (out # outs, s))))"

definition smoke_stacks :: "(nat \<Rightarrow> nat \<Rightarrow> bytes) list \<Rightarrow> bool" where
  "smoke_stacks js \<longleftrightarrow> (\<forall>junk \<in> set js. \<forall>i j. length (junk i j) < 2 ^ 47)"

lemma smoke_main_ran:
  assumes S: "setting P F" and conn: "\<And>a. conn a"
    and cl: "smoke_start P F (server_net P F) devs d (new_client\<lparr>addr := tcp_addr (bytes_of ''localhost'') DefaultPort\<rparr>) sv
        = Some (Inr (out, cl, sv1))" "sys_rep P smoke_words (cl, sv1) (smoke_index n)"
    and n: "n + 1 < 2 ^ 64" and junk: "\<And>i j. length (junk i j) < 2 ^ 47" and d: "disk_fine state_dir d"
  shows "\<exists>d' sv' bk. smoke_main P F conn (\<lambda>port. server_net P F) devs junk d sv [bytes_of ''client_test'']
      = Some (Inr (out @ smoke_output, d', sv'))
    \<and> prog_rep P smoke_words (d', sv') bk \<and> bk_index bk = smoke_index (Suc n)"
proof -
  obtain cl' sv' where body: "smoke_body P F (server_net P F) junk cl sv1 = Some (Inr (smoke_output, cl', sv'))"
    "sys_rep P smoke_words (cl', sv') (smoke_index (Suc n))"
    using smoke_ran [OF S cl(2) n] junk by blast
  obtain d' where "Client_Save cl' state_dir d = (True, d')"
    "prog_rep P smoke_words (d', sv') \<lparr>bk_index = smoke_index (Suc n), bk_names = fileidMap cl',
       bk_next = lastFileid cl', bk_files = files d\<rparr>"
    using saved_prog_rep [OF d refl body(2)] by blast
  with cl(1) body(1) conn show ?thesis
    by (intro exI [of _ d'] exI [of _ sv'] exI conjI) (assumption | simp add: smoke_main_def Connect_def)+
qed

lemma smoke_again:
  assumes S: "setting P F" and conn: "\<And>a. conn a" and js: "smoke_stacks js"
    and rep: "prog_rep P smoke_words s bk" "bk_index bk = smoke_index n" and n: "n + length js < 2 ^ 64"
  shows "\<exists>s'. smoke_times P F conn devs js s
    = Some (Inr (replicate (length js) (say ''loaded client state'' @ smoke_output), s'))"
  using js rep n
proof (induction js arbitrary: s bk n)
  case (Cons junk js)
  obtain d sv where s: "s = (d, sv)" by fastforce
  obtain cl where cl: "\<And>a. Client_Load (new_client\<lparr>addr := a\<rparr>) state_dir d = Some (Inr (True, cl\<lparr>addr := a\<rparr>))"
    "sys_rep P smoke_words (cl, sv) (smoke_index n)" and d: "disk_fine state_dir d"
    using Cons.prems(2,3) by (auto simp: prog_rep_def s)
  have start: "smoke_start P F (server_net P F) devs d (new_client\<lparr>addr := a\<rparr>) sv
      = Some (Inr (say ''loaded client state'', cl\<lparr>addr := a\<rparr>, sv))"
    "sys_rep P smoke_words (cl\<lparr>addr := a\<rparr>, sv) (smoke_index n)" for a
    using cl by (simp_all add: smoke_start_def)
  obtain d' sv' bk' where run: "smoke_main P F conn (\<lambda>port. server_net P F) devs junk d sv [bytes_of ''client_test'']
      = Some (Inr (say ''loaded client state'' @ smoke_output, d', sv'))"
    "prog_rep P smoke_words (d', sv') bk'" "bk_index bk' = smoke_index (Suc n)"
    using smoke_main_ran [where conn = conn, OF S conn start _ _ d, of junk] Cons.prems(1,4) by (auto simp: smoke_stacks_def)
  have "\<exists>s'. smoke_times P F conn devs js (d', sv')
      = Some (Inr (replicate (length js) (say ''loaded client state'' @ smoke_output), s'))"
    using Cons.prems(1,4) by (intro Cons.IH [OF _ run(2,3)]) (simp_all add: smoke_stacks_def)
  with run(1) show ?case by (auto simp: s)
qed simp

text \<open>The first run, without a saved state and against a fresh server.\<close>

lemma smoke_first:
  assumes S: "setting P F" and conn: "\<And>a. conn a" and junk: "\<And>i j. length (junk i j) < 2 ^ 47"
    and sv: "fresh_server sv" and s: "draw_keys devs new_core = Some (Inr s)" "keys_cf P smoke_words s"
    and d: "disk_fine state_dir d" "files d (state_dir @ ''/version'') = None"
  shows "\<exists>d' sv' bk. smoke_main P F conn (\<lambda>port. server_net P F) devs junk d sv [bytes_of ''client_test'']
      = Some (Inr (say ''setup finished'' @ smoke_output, d', sv'))
    \<and> prog_rep P smoke_words (d', sv') bk \<and> bk_index bk = smoke_index 1"
proof -
  have ix: "smoke_index 0 = bench_index"
    by (cases bench_index) (simp add: smoke_index_def bench_index_def fun_eq_iff)
  have load: "Client_Load (new_client\<lparr>addr := a\<rparr>) state_dir d = Some (Inr (False, new_client\<lparr>addr := a\<rparr>))" for a
    using d(2) by (simp add: Client_Load_def LoadClientFromStorage_def readInt_def load_then_def new_client_def)
  have W: "set bench_tokens \<subseteq> smoke_words" by (auto simp: smoke_words_def)
  let ?cl = "new_client\<lparr>addr := tcp_addr (bytes_of ''localhost'') DefaultPort\<rparr>"
  obtain c sv1 where "Client_Setup P F (server_net P F) devs ?cl sv Basic bench_tokens bench_fidmap
      = Some (Inr (True, ?cl\<lparr>cl_core := c\<rparr>, sv1))" and rep: "sys_rep P smoke_words (?cl\<lparr>cl_core := c\<rparr>, sv1) (smoke_index 0)"
    using bench_setup [OF S sv s W refl] unfolding ix by blast
  then have "smoke_start P F (server_net P F) devs d ?cl sv = Some (Inr (say ''setup finished'', ?cl\<lparr>cl_core := c\<rparr>, sv1))"
    by (simp add: smoke_start_def load Setup_basic_def)
  from smoke_main_ran [where conn = conn, OF S conn this rep _ junk d(1)] show ?thesis by simp
qed

end
