(* ===== verification/Crash.thy ===== *)
theory Crash
  imports Deployment Limits
begin

text \<open>
  Processes that are killed. \<open>ListenAndServe\<close> answers a request before it saves, and saves
  file by file; the client saves when its command is over. This theory says what is on the
  disk when the server is killed on the way, and what the two sides make of it when they go
  on: a Delete is there as a whole or not at all, an Add whose saving was cut off, or whose
  reply was lost, leaves the counts of the two sides apart for good.
\<close>

section \<open>The files of a save, in order\<close>

definition save_writes :: "core \<Rightarrow> string \<Rightarrow> (string \<times> bytes) list" where
  "save_writes s base =
     (base @ ''/version'', dec_int (version s))
     # (if dirtyD s then [(base @ ''/D'', map_bytes (D s)), (base @ ''/A'', blocks_bytes (A s))] else [])
     @ [(base @ ''/Dplus'', map_bytes (Dplus s)), (base @ ''/Srev'', revlist_bytes (Srev s))]"

definition write_all :: "(string \<times> bytes) list \<Rightarrow> disk \<Rightarrow> disk" where
  "write_all ws d = foldl (\<lambda>d (p, bs). d\<lparr>files := (files d)(p \<mapsto> bs)\<rparr>) d ws"

lemma write_all_simps [simp]:
  "write_all [] d = d" "write_all ((p, bs) # ws) d = write_all ws (d\<lparr>files := (files d)(p \<mapsto> bs)\<rparr>)"
  by (simp_all add: write_all_def)

lemma write_all_frame [simp]: "mkdir_ok (write_all ws d) = mkdir_ok d" "wopen (write_all ws d) = wopen d"
  by (induction ws arbitrary: d) auto

text \<open>Where every file opens, saving is writing these files.\<close>

lemma SaveServer_writes:
  assumes "disk_fine base d"
  shows "SaveServerToStorage s base d = (True, s\<lparr>dirtyD := False\<rparr>, write_all (save_writes s base) d)"
proof (cases "dirtyD s")
  case True
  then show ?thesis
    using assms by (simp add: SaveServerToStorage_def save_dirty_def and_then_def writeMap_def writeBlocks_def
        writeInt_def writeRevlist_def write_file_def save_writes_def disk_fine_def)
next
  case False
  then have "s\<lparr>dirtyD := False\<rparr> = s" by (cases s) simp
  with False show ?thesis
    using assms by (simp add: SaveServerToStorage_def save_dirty_def and_then_def writeMap_def
        writeInt_def writeRevlist_def write_file_def save_writes_def disk_fine_def)
qed

text \<open>The disk when the server is killed after \<open>k\<close> of the files.\<close>

definition killed_saving :: "nat \<Rightarrow> core \<Rightarrow> string \<Rightarrow> disk \<Rightarrow> disk" where
  "killed_saving k s base d = write_all (take k (save_writes s base)) d"

lemma disk_fine_killed [simp]: "disk_fine dir (killed_saving k s base d) = disk_fine dir d"
  by (simp add: killed_saving_def disk_fine_def)

text \<open>
  A request that changed neither \<open>D\<close> nor \<open>A\<close> rewrites three files: the version, as it was,
  \<open>Dplus\<close> and \<open>Srev\<close>.
\<close>

definition half_saved :: "nat \<Rightarrow> core \<Rightarrow> core \<Rightarrow> core" where
  "half_saved k s c = s\<lparr>Dplus := (if 2 \<le> k then Dplus c else Dplus s), Srev := (if 3 \<le> k then Srev c else Srev s)\<rparr>"

lemma stored_killed:
  assumes st: "stored base d s" and clean: "\<not> dirtyD c"
    and same: "version c = version s" "D c = D s" "A c = A s"
  shows "stored base (killed_saving k c base d) (half_saved k s c)"
proof -
  have "k = 0 \<or> k = 1 \<or> k = 2 \<or> 3 \<le> k" by arith
  moreover have "take k (save_writes c base) = save_writes c base" if "3 \<le> k"
    using that clean by (simp add: save_writes_def)
  ultimately show ?thesis
    using st clean same
    by (auto simp: killed_saving_def half_saved_def stored_def save_writes_def numeral_2_eq_2)
qed

section \<open>A server that is killed after its reply\<close>

text \<open>
  What is left of a server \<open>t\<close> that is killed while it saves after the request \<open>req\<close>; after a
  search nothing is saved. And what a client sees of a server that comes to its end after
  its reply.
\<close>

definition killed :: "nat \<Rightarrow> request \<Rightarrow> server \<Rightarrow> server" where
  "killed k req t =
     (if saveDir t \<noteq> [] \<and> \<not> has_search req
      then t\<lparr>sv_disk := killed_saving k (sv_core t) (saveDir t) (sv_disk t)\<rparr> else t)"

definition ending_net :: "prims \<Rightarrow> wire \<Rightarrow> (request \<Rightarrow> server \<Rightarrow> server) \<Rightarrow> server net" where
  "ending_net P F after s msg =
     (case rep_recv (sv_sock s) of
        Inl e \<Rightarrow> (s, Silence)
      | Inr j \<Rightarrow>
          (case parse_request F msg of
             None \<Rightarrow> (s, Silence)
           | Some req \<Rightarrow>
               (case HandleMessage P F (s\<lparr>sv_sock := j\<rparr>) req of
                  Some (Inr t) \<Rightarrow>
                    (after req t,
                     if length (outbox (sv_sock s)) < length (outbox (sv_sock t))
                     then Reply (last (outbox (sv_sock t))) else Silence)
                | _ \<Rightarrow> (s, Silence))))"

lemma ending_net_handled:
  assumes "waiting s" "parse_request F msg = Some req"
    and "HandleMessage P F (received s) req = Some (Inr (answered b t))"
    and "outbox (sv_sock t) = outbox (sv_sock s)"
  shows "ending_net P F after s msg = (after req (answered b t), Reply b)"
  using assms by (simp add: ending_net_def loop_defs received_def)

definition killed_net :: "prims \<Rightarrow> wire \<Rightarrow> nat \<Rightarrow> server net" where
  "killed_net P F k = ending_net P F (killed k)"

interpretation dying: answering P F "killed_net P F k" "killed k" for P F k
  by unfold_locales (simp_all add: killed_net_def ending_net_handled, simp add: killed_def)

text \<open>Started again, the server has what was written.\<close>

lemma killed_restarts:
  assumes s: "settled s" and r: "represents P W cl (half_saved k (sv_core s) c) ix"
    and c: "server_sized (half_saved k (sv_core s) c)" "\<not> dirtyD c" "version c = version (sv_core s)"
      "D c = D (sv_core s)" "A c = A (sv_core s)" and req: "\<not> has_search req"
  shows "\<exists>s'. restart_server_process (killed k req (answered b ((received s)\<lparr>sv_core := c\<rparr>))) = Some (Inr (True, s'))
    \<and> settled s' \<and> represents P W cl (sv_core s') ix"
proof -
  let ?t = "answered b ((received s)\<lparr>sv_core := c\<rparr>)" and ?d = "killed_saving k c (saveDir s) (sv_disk s)"
  have "stored (saveDir s) ?d (half_saved k (sv_core s) c)"
    using s c by (intro stored_killed) (auto simp: settled_def)
  from load_stored_represents [OF r c(1) this] obtain c' where
    load: "LoadServerFromStorage new_core (saveDir s) ?d = Some (Inr (True, c'))"
    and c': "represents P W cl c' ix" "stored (saveDir s) ?d c'" "server_sized c'" "\<not> dirtyD c'"
    by blast
  let ?s' = "(new_server (saveDir s) ?d)\<lparr>sv_core := c'\<rparr>"
  have "killed k req ?t = ?t\<lparr>sv_disk := ?d\<rparr>"
    using s req by (simp add: killed_def settled_def)
  then have "restart_server_process (killed k req ?t) = Some (Inr (True, ?s'))"
    using load by (simp add: restart_server_process_def server_load_def new_server_def)
  moreover have "settled ?s'"
    using s c' by (simp add: settled_def new_server_def waiting_def rep_new_def)
  moreover have "sv_core ?s' = c'" by simp
  ultimately show ?thesis using c'(1) by auto
qed

section \<open>Delete\<close>

lemma half_saved_delete: "half_saved k s (DeleteServer s L) = (if 3 \<le> k then DeleteServer s L else s)"
  by (simp add: half_saved_def DeleteServer_eq)

lemma killed_delete:
  assumes F: "wire_ok F" "wire_total F" and P: "prims_ok P"
    and rep: "sys_rep P W (cl, sv) ix" and ws: "set words \<subseteq> W"
  shows "\<exists>dead sv'. Client_Delete P F (killed_net P F k) cl sv fid words = Some (Inr (True, cl, dead))
    \<and> restart_server_process dead = Some (Inr (True, sv'))
    \<and> sys_rep P W (cl, sv') (if 3 \<le> k then index_delete fid (set words) ix else ix)"
proof -
  have r0: "represents P W (cl_core cl) (sv_core sv) ix" "keys_cf P W (cl_core cl)"
    and ready: "cl_sock cl = req_new" "waiting sv" and st: "settled sv"
    using rep by (auto simp: sys_rep_def settled_def)
  let ?L = "DeleteClient P (cl_core cl) fid words"
  let ?c = "DeleteServer (sv_core sv) ?L" and ?req = "request_of (DeleteMsg ?L)"
  obtain b where del: "Client_Delete P F (killed_net P F k) cl sv fid words
      = Some (Inr (True, cl, killed k ?req (answered b ((received sv)\<lparr>sv_core := ?c\<rparr>))))"
    using dying.Client_Delete_net [OF F ready refl] by blast
  have "represents P W (cl_core cl) ?c (index_delete fid (set words) ix)"
    using represents_delete [OF r0 ws] by (simp add: run_delete_def)
  moreover have "server_sized ?c"
    using st DeleteClient_sized [OF P] by (intro server_sized_DeleteServer) (auto simp: settled_def)
  moreover have same: "version ?c = version (sv_core sv)" "D ?c = D (sv_core sv)" "A ?c = A (sv_core sv)"
    "dirtyD ?c = dirtyD (sv_core sv)"
    by (simp_all add: DeleteServer_eq)
  ultimately have "\<exists>s'. restart_server_process (killed k ?req (answered b ((received sv)\<lparr>sv_core := ?c\<rparr>))) = Some (Inr (True, s'))
      \<and> settled s' \<and> represents P W (cl_core cl) (sv_core s') (if 3 \<le> k then index_delete fid (set words) ix else ix)"
    using r0(1) st same by (intro killed_restarts)
      (auto simp: half_saved_delete settled_def has_search_def request_of_def)
  then show ?thesis using del rep by (auto simp: sys_rep_def)
qed

section \<open>Add\<close>

text \<open>
  What is there when the server was killed after \<open>k\<close> files: the ids added, once \<open>Dplus\<close> is
  written; the revocations taken back, once \<open>Srev\<close> is.
\<close>

definition index_half :: "nat \<Rightarrow> u64 \<Rightarrow> bytes set \<Rightarrow> index \<Rightarrow> index" where
  "index_half k fid ws ix =
     ix\<lparr>ix_added := (if 2 \<le> k then ix_added (index_add fid ws ix) else ix_added ix),
        ix_revoked := (if 3 \<le> k then ix_revoked (index_add fid ws ix) else ix_revoked ix)\<rparr>"

lemma half_saved_represents:
  assumes r: "represents P W cl s ix" and r': "represents P W cl' c (index_add fid ws ix)"
    and same: "version c = version s" "D c = D s" "A c = A s" and k: "2 \<le> k"
    and keys: "same_keys cl' cl"
  shows "represents P W cl' (half_saved k s c) (index_half k fid ws ix)"
proof -
  have su: "ix_setup (index_add fid ws ix) = ix_setup ix" by (simp add: index_add_def)
  show ?thesis
    using r r' same k keys su
    unfolding represents_def updates_hold_def half_saved_def index_half_def same_keys_def by auto
qed

lemma core_inv_half: "core_inv s \<Longrightarrow> core_inv c \<Longrightarrow> core_inv (half_saved k s c)"
  by (simp add: core_inv_def half_saved_def)

lemma server_sized_half: "server_sized s \<Longrightarrow> server_sized c \<Longrightarrow> server_sized (half_saved k s c)"
  using core_inv_half [of s c k] by (auto simp: server_sized_def half_saved_def)

lemma half_saved_early: "k < 2 \<Longrightarrow> half_saved k s c = s"
  by (cases s) (simp add: half_saved_def)

text \<open>
  The server is killed while it saves after an Add: the client, which has its answer, counts
  what was added. Once \<open>Dplus\<close> is on the disk the two sides agree; before that, the server
  starts again with the index it had.
\<close>

lemma killed_add:
  assumes F: "wire_ok F" "wire_total F" and P: "prims_ok P"
    and rep: "sys_rep P W (cl, sv) ix" and ok: "sys_ok W (SysAdd fid words junk) ix"
  shows "\<exists>c dead sv'. Client_Add P F (killed_net P F k) junk cl sv fid words = Some (Inr (True, cl\<lparr>cl_core := c\<rparr>, dead))
    \<and> restart_server_process dead = Some (Inr (True, sv')) \<and> settled sv' \<and> same_keys c (cl_core cl)
    \<and> (\<forall>v \<in> W. dcount c v = of_nat (length (ix_added (index_add fid (set words) ix) v)))
    \<and> (if 2 \<le> k then sys_rep P W (cl\<lparr>cl_core := c\<rparr>, sv') (index_half k fid (set words) ix)
       else represents P W (cl_core cl) (sv_core sv') ix)"
proof -
  obtain c L U c' r c2 where run: "AddClient P (cl_core cl) fid junk words = (c, L, U)"
      "AddServer (sv_core sv) L = (c', r)" "AddClient2 c r U = Inr c2"
    and c2: "represents P W c2 c' (index_add fid (set words) ix)" "same_keys c2 (cl_core cl)"
      "server_sized c'" "client_sized c2"
    and same: "version c' = version (sv_core sv)" "D c' = D (sv_core sv)" "A c' = A (sv_core sv)"
      "dirtyD c' = dirtyD (sv_core sv)"
    by (rule add_halves [OF P rep ok])
  have r0: "represents P W (cl_core cl) (sv_core sv) ix" and cf: "keys_cf P W (cl_core cl)"
    and ready: "cl_sock cl = req_new" "waiting sv" and st: "settled sv"
    and names: "names_sized (fileidMap cl)"
    using rep by (auto simp: sys_rep_def settled_def)
  let ?req = "request_of (AddMsg L)"
  obtain b where add: "Client_Add P F (killed_net P F k) junk cl sv fid words
    = Some (Inr (True, cl\<lparr>cl_core := c2\<rparr>, killed k ?req (answered b ((received sv)\<lparr>sv_core := c'\<rparr>))))"
    using dying.Client_Add_net [OF F ready run] by blast
  define base where "base = (if 2 \<le> k then (c2, index_half k fid (set words) ix) else (cl_core cl, ix))"
  have "represents P W (fst base) (half_saved k (sv_core sv) c') (snd base)"
    using half_saved_represents [OF r0 c2(1) same(1-3) _ c2(2)] r0 by (simp add: base_def half_saved_early)
  then obtain sv' where sv': "restart_server_process (killed k ?req (answered b ((received sv)\<lparr>sv_core := c'\<rparr>))) = Some (Inr (True, sv'))"
    "settled sv'" "represents P W (fst base) (sv_core sv') (snd base)"
    using killed_restarts [OF st, of P W "fst base" k c' "snd base" ?req b] st same c2(3)
    by (auto simp: server_sized_half settled_def has_search_def request_of_def)
  then have "if 2 \<le> k then sys_rep P W (cl\<lparr>cl_core := c2\<rparr>, sv') (index_half k fid (set words) ix)
      else represents P W (cl_core cl) (sv_core sv') ix"
    using c2 names keys_cf_same [OF c2(2), of P W] cf ready(1) by (auto simp: base_def sys_rep_def)
  moreover have "\<forall>v \<in> W. dcount c2 v = of_nat (length (ix_added (index_add fid (set words) ix) v))"
    using c2(1) by (simp add: represents_def updates_hold_def)
  ultimately show ?thesis using add sv' c2(2) by (intro exI conjI) auto
qed

section \<open>Counts that went apart\<close>

text \<open>
  The client's count of \<open>w\<close> is beyond the ids the server holds for it: the label in between
  is missing, which is where a search stops. \<open>R\<close> are the revocations.
\<close>

definition severed :: "prims \<Rightarrow> bytes \<Rightarrow> u64 list \<Rightarrow> u64 list \<Rightarrow> bytes oset \<Rightarrow> core \<Rightarrow> core \<Rightarrow> core \<Rightarrow> bool" where
  "severed P w ids added R cl0 cl sv \<longleftrightarrow>
     (version sv = Basic \<or> version sv = Packed \<or> version sv = Pointer) \<and> length (A sv) < 2 ^ 64
     \<and> holds P (version sv) (A sv) (key cl) (D sv) w ids \<and> Srev sv = R \<and> same_keys cl cl0
     \<and> length added < unat (dcount cl w)
     \<and> (\<forall>c < length added. \<exists>rest. om_lookup (Dplus sv) (label P (kplus cl) w (of_nat c))
           = Some (encrypt_long P (token_K2 P (kplus cl) w) (added ! c) @ rest))
     \<and> om_lookup (Dplus sv) (label P (kplus cl) w (of_nat (length added))) = None"

lemma severed_search:
  assumes "severed P w ids added R cl0 cl sv"
  shows "SearchServer P sv (SearchClient P cl w)
    = Some (Inr (filter (\<lambda>i. label P (kminus cl) w i \<notin> set R) (ids @ added)))"
proof -
  have "length added < 2 ^ 64"
    using assms unat_less_u64 [of "dcount cl w"] by (simp add: severed_def)
  then have "holds P Basic (A sv) (kplus cl) (Dplus sv) w added"
    using assms by (intro holds_entries) (auto simp: severed_def)
  then have "SearchServer P sv (SearchClient P cl w)
      = Some (Inr (live_ids P sv (mac_key P (kminus cl) 0x31 w) (ids @ added)))"
    using assms by (intro SearchServer_holds) (auto simp: severed_def)
  then show ?thesis using assms by (simp add: live_ids_def label_def severed_def)
qed

text \<open>One word, not revoked, at both sides: stored under its label, unless that is taken.\<close>

definition add_token :: "prims \<Rightarrow> core \<Rightarrow> bytes \<Rightarrow> bytes" where
  "add_token P cl w = label P (kplus cl) w (dcount cl w)"

lemma run_add_single:
  assumes "\<not> os_count (Srev sv) (label P (kminus cl) w fid)"
  shows "run_add P cl sv fid junk [w] = Inr
    (if om_count (Dplus sv) (add_token P cl w) then (touch_Dcount w cl, sv)
     else (bump_Dcount w (touch_Dcount w cl),
           sv\<lparr>Dplus := om_insert (add_token P cl w)
             (write_prefix (junk 0) (encrypt_long P (token_K2 P (kplus cl) w) fid)) (Dplus sv)\<rparr>))"
  using assms
  by (simp add: run_add_def AddClient_single AddServer_def add_server_step_def AddClient2_def add_token_def)

lemma same_keys_counts [simp]: "same_keys (touch_Dcount w cl) cl0 = same_keys cl cl0"
  "same_keys (bump_Dcount w cl) cl0 = same_keys cl cl0"
  by (simp_all add: same_keys_def)

lemma unat_Suc_u64: "unat (c :: u64) + 1 < 2 ^ 64 \<Longrightarrow> unat (c + 1) = unat c + 1"
  by (simp add: unat_word_ariths)

lemma severed_add:
  assumes s: "severed P w ids added R cl0 cl sv" and cf: "keys_cf P W cl" "w \<in> W"
    and new: "label P (kminus cl) w fid \<notin> set R" and count: "unat (dcount cl w) + 1 < 2 ^ 64"
    and run: "run_add P cl sv fid junk [w] = Inr (cl', sv')"
  shows "severed P w ids added R cl0 cl' sv' \<and> unat (dcount cl' w) \<le> unat (dcount cl w) + 1"
proof (cases "om_count (Dplus sv) (add_token P cl w)")
  case True
  then have "cl' = touch_Dcount w cl" "sv' = sv"
    using run run_add_single [of sv P cl w fid junk] new s by (auto simp: severed_def os_count_def)
  then show ?thesis using s by (simp add: severed_def)
next
  case False
  define d where "d = write_prefix (junk 0) (encrypt_long P (token_K2 P (kplus cl) w) fid)"
  have eq: "cl' = bump_Dcount w (touch_Dcount w cl)" "sv' = sv\<lparr>Dplus := om_insert (add_token P cl w) d (Dplus sv)\<rparr>"
    using False run run_add_single [of sv P cl w fid junk] new s by (auto simp: severed_def os_count_def d_def)
  have "label P (kplus cl) w (of_nat c) \<noteq> add_token P cl w" if "c \<le> length added" for c
  proof -
    have "c < unat (dcount cl w)" using s that by (simp add: severed_def)
    then have "(of_nat c :: u64) \<noteq> dcount cl w"
      using unat_less_u64 [of "dcount cl w"] by (metis less_irrefl order_less_trans unat_of_nat_u64)
    then show ?thesis
      using label_eq_iff [of P "kplus cl" W w w "of_nat c" "dcount cl w"] cf by (auto simp: add_token_def keys_cf_def)
  qed
  then have "om_lookup (Dplus sv') (label P (kplus cl) w (of_nat c)) = om_lookup (Dplus sv) (label P (kplus cl) w (of_nat c))"
    if "c \<le> length added" for c
    using that by (simp add: eq om_lookup_insert)
  then show ?thesis
    using s unat_Suc_u64 [OF count] by (simp add: severed_def eq dcount_bump)
qed

text \<open>The other way round: the label the client would use is taken.\<close>

definition blocked :: "prims \<Rightarrow> bytes \<Rightarrow> bytes set \<Rightarrow> core \<Rightarrow> index \<Rightarrow> core \<Rightarrow> core \<Rightarrow> bool" where
  "blocked P w W cl0 ix cl sv \<longleftrightarrow> represents P W cl0 sv ix \<and> same_keys cl cl0
     \<and> unat (dcount cl w) < length (ix_added ix w)"

lemma same_keys_search: "same_keys cl cl0 \<Longrightarrow> SearchClient P cl w = SearchClient P cl0 w"
  by (simp add: same_keys_def SearchClient_def)

lemma blocked_search:
  "blocked P w W cl0 ix cl sv \<Longrightarrow> w \<in> W \<Longrightarrow>
   SearchServer P sv (SearchClient P cl w) = Some (Inr (index_search ix w))"
  using represents_search [of P W cl0 sv ix w] same_keys_search [of cl cl0] by (auto simp: blocked_def)

lemma blocked_add:
  assumes b: "blocked P w W cl0 ix cl sv" and w: "w \<in> W" and new: "(w, fid) \<notin> ix_revoked ix"
    and run: "run_add P cl sv fid junk [w] = Inr (cl', sv')"
  shows "blocked P w W cl0 ix cl' sv' \<and> sv' = sv"
proof -
  have u: "updates_hold P W (kplus cl0) (kminus cl0) (dcount cl0) sv ix"
    and keys: "kplus cl = kplus cl0" "kminus cl = kminus cl0"
    and c: "unat (dcount cl w) < length (ix_added ix w)"
    using b by (auto simp: blocked_def represents_def same_keys_def)
  have "om_lookup (Dplus sv) (label P (kplus cl0) w (of_nat (unat (dcount cl w)))) \<noteq> None"
    using u w c unfolding updates_hold_def by force
  then have "om_count (Dplus sv) (add_token P cl w)"
    by (simp add: add_token_def keys om_count_def)
  moreover have "\<not> os_count (Srev sv) (label P (kminus cl) w fid)"
    using u w new by (simp add: keys os_count_def updates_hold_def)
  ultimately have "cl' = touch_Dcount w cl" "sv' = sv"
    using run run_add_single [of sv P cl w fid junk] by simp_all
  then show ?thesis using b by (simp add: blocked_def)
qed

section \<open>Going on\<close>

text \<open>
  Adds of one word, one after the other, over the socket. What each of them keeps at the two
  cores holds after all of them; \<open>n\<close> counts those still to come.
\<close>

definition add_ops :: "bytes \<Rightarrow> (u64 \<times> (nat \<Rightarrow> bytes)) list \<Rightarrow> sys_op list" where
  "add_ops w adds = map (\<lambda>(f, junk). SysAdd f [w] junk) adds"

lemma sys_run_adds:
  assumes F: "wire_ok F" "wire_total F"
    and dirty: "\<And>n cl sv. kept n cl sv \<Longrightarrow> kept n cl (sv\<lparr>dirtyD := False\<rparr>)"
    and keep: "\<And>n cl sv f junk cl' sv'. kept (Suc n) cl sv \<Longrightarrow> f \<in> fst ` set adds \<Longrightarrow>
      run_add P cl sv f junk [w] = Inr (cl', sv') \<Longrightarrow> kept n cl' sv'"
    and start: "cl_sock cl = req_new" "waiting sv" "kept (length adds) (cl_core cl) (sv_core sv)"
  shows "\<exists>cl' sv'. sys_run P F (add_ops w adds) (cl, sv) = Some (Inr (cl', sv'))
    \<and> cl_sock cl' = req_new \<and> waiting sv' \<and> kept 0 (cl_core cl') (sv_core sv')"
  using keep start
proof (induction adds arbitrary: cl sv)
  case Nil
  then show ?case by (simp add: add_ops_def)
next
  case (Cons a adds)
  obtain f junk where a: "a = (f, junk)" by fastforce
  obtain c L U where c1: "AddClient P (cl_core cl) f junk [w] = (c, L, U)" by (metis prod_cases3)
  obtain c' r where sv1: "AddServer (sv_core sv) L = (c', r)" by fastforce
  obtain c2 sv2 where run: "run_add P (cl_core cl) (sv_core sv) f junk [w] = Inr (c2, sv2)"
    using run_add_total by blast
  have cl2: "AddClient2 c r U = Inr c2" and sv2: "sv2 = c'"
    using run by (auto simp: run_add_def c1 sv1 rbind_Inr_iff)
  have k: "kept (length adds) c2 c'"
    using Cons.prems(1) [OF _ _ run] Cons.prems(4) by (simp add: a sv2)
  obtain s where s: "Client_Add P F (server_net P F) junk cl sv f [w] = Some (Inr (True, cl\<lparr>cl_core := c2\<rparr>, s))"
    "waiting s" "sv_core s \<in> {c', c'\<lparr>dirtyD := False\<rparr>}"
  proof -
    obtain b where "Client_Add P F (server_net P F) junk cl sv f [w] = Some (Inr (True, cl\<lparr>cl_core := c2\<rparr>,
        save_state (request_of (AddMsg L)) (answered b ((received sv)\<lparr>sv_core := c'\<rparr>))))"
      using live.Client_Add_net [OF F Cons.prems(2,3) c1 sv1 cl2] by blast
    moreover have "sv_core (save_state (request_of (AddMsg L)) (answered b ((received sv)\<lparr>sv_core := c'\<rparr>)))
        \<in> {c', c'\<lparr>dirtyD := False\<rparr>}"
      using save_state_dirty [of "request_of (AddMsg L)" "answered b ((received sv)\<lparr>sv_core := c'\<rparr>)"] by simp
    ultimately show ?thesis using that by (simp add: waiting_def answered_def)
  qed
  have "kept (length adds) c2 (sv_core s)" using k s(3) dirty by auto
  moreover have "kept n cl' sv'" if "kept (Suc n) cl sv" "f \<in> fst ` set adds" "run_add P cl sv f junk [w] = Inr (cl', sv')"
    for n cl sv f junk cl' sv'
    using that(2) by (intro Cons.prems(1) [OF that(1) _ that(3)]) simp
  ultimately have "\<exists>cl' sv'. sys_run P F (add_ops w adds) (cl\<lparr>cl_core := c2\<rparr>, s) = Some (Inr (cl', sv'))
    \<and> cl_sock cl' = req_new \<and> waiting sv' \<and> kept 0 (cl_core cl') (sv_core sv')"
    using Cons.prems(2) s(2) by (intro Cons.IH) simp_all
  then show ?case by (simp add: add_ops_def a s(1))
qed

lemma severed_dirty: "severed P w ids added R cl0 cl (sv\<lparr>dirtyD := x\<rparr>) = severed P w ids added R cl0 cl sv"
  by (simp add: severed_def)

lemma blocked_dirty: "blocked P w W cl0 ix cl (sv\<lparr>dirtyD := x\<rparr>) = blocked P w W cl0 ix cl sv"
  by (simp add: blocked_def represents_dirty)

text \<open>After a cut-off Add of \<open>w\<close> no Add of \<open>w\<close> is found again.\<close>

lemma severed_after:
  assumes r: "represents P W cl0 sv ix" and keys: "same_keys cl cl0" and w: "w \<in> W"
    and c: "dcount cl w = of_nat (length (ix_added ix w) + 1)" "length (ix_added ix w) + 1 < 2 ^ 64"
  shows "severed P w (ix_setup ix w) (ix_added ix w) (Srev sv) cl0 cl sv"
proof -
  have "unat (dcount cl w) = length (ix_added ix w) + 1" using c unat_of_nat_u64 by metis
  then show ?thesis
    using r keys w c(2) unfolding severed_def represents_def updates_hold_def same_keys_def by auto
qed

lemma index_search_labels:
  assumes "represents P W cl sv ix" "w \<in> W"
  shows "filter (\<lambda>i. label P (kminus cl) w i \<notin> set (Srev sv)) (ix_setup ix w @ ix_added ix w) = index_search ix w"
proof -
  have "label P (kminus cl) w i \<in> set (Srev sv) \<longleftrightarrow> (w, i) \<in> ix_revoked ix" for i
    using assms by (simp add: represents_def updates_hold_def)
  then show ?thesis by (simp add: index_search_def)
qed

lemma severed_run:
  assumes S: "setting P F" and r: "represents P W cl0 (sv_core sv) ix" and keys: "same_keys (cl_core cl) cl0"
    and cf: "keys_cf P W cl0" and w: "w \<in> W"
    and c: "dcount (cl_core cl) w = of_nat (length (ix_added ix w) + 1)"
      "length (ix_added ix w) + 1 + length adds < 2 ^ 64"
    and ready: "cl_sock cl = req_new" "waiting sv"
    and new: "\<And>f. f \<in> fst ` set adds \<Longrightarrow> (w, f) \<notin> ix_revoked ix"
  shows "\<exists>cl' sv' sv2. sys_run P F (add_ops w adds) (cl, sv) = Some (Inr (cl', sv'))
    \<and> Client_Search P F (server_net P F) cl' sv' w = Some (Inr (got_response, index_search ix w, cl', sv2))"
proof -
  have F: "wire_ok F" "wire_total F" and P: "prims_ok P" using S by (auto simp: setting_def)
  let ?R = "Srev (sv_core sv)"
  define kept where "kept n cl sv \<longleftrightarrow> severed P w (ix_setup ix w) (ix_added ix w) ?R cl0 cl sv
    \<and> unat (dcount cl w) + n < 2 ^ 64" for n cl sv
  have "unat (dcount (cl_core cl) w) = length (ix_added ix w) + 1"
    using c unat_of_nat_u64 [of "length (ix_added ix w) + 1"] by simp
  then have start: "kept (length adds) (cl_core cl) (sv_core sv)"
    using severed_after [OF r keys w c(1)] c(2) by (simp add: kept_def)
  have keep: "kept n cl' sv'" if k: "kept (Suc n) cl sv" and f: "f \<in> fst ` set adds"
    and run: "run_add P cl sv f junk [w] = Inr (cl', sv')" for n cl sv f junk cl' sv'
  proof -
    have same: "same_keys cl cl0" using k by (simp add: kept_def severed_def)
    then have "label P (kminus cl) w f \<notin> set ?R"
      using r w new [OF f] by (simp add: represents_def updates_hold_def same_keys_def)
    then show ?thesis
      using severed_add [OF _ _ w _ _ run] k keys_cf_same [OF same, of P W] cf unfolding kept_def by fastforce
  qed
  have "\<exists>cl' sv'. sys_run P F (add_ops w adds) (cl, sv) = Some (Inr (cl', sv'))
    \<and> cl_sock cl' = req_new \<and> waiting sv' \<and> kept 0 (cl_core cl') (sv_core sv')"
    by (rule sys_run_adds [OF F _ _ ready, where kept = kept]) (use start keep in \<open>simp_all add: kept_def severed_dirty\<close>)
  then obtain cl' sv' where run: "sys_run P F (add_ops w adds) (cl, sv) = Some (Inr (cl', sv'))"
    "cl_sock cl' = req_new" "waiting sv'" and k: "kept 0 (cl_core cl') (sv_core sv')"
    by blast
  have "kminus (cl_core cl') = kminus cl0" using k by (simp add: kept_def severed_def same_keys_def)
  then have "SearchServer P (sv_core sv') (SearchClient P (cl_core cl') w) = Some (Inr (index_search ix w))"
    using severed_search [of P w _ _ _ cl0] k index_search_labels [OF r w] unfolding kept_def by metis
  from live.Client_Search_net [OF F run(2,3) P this] run(1) show ?thesis by blast
qed

lemma blocked_run:
  assumes S: "setting P F" and b: "blocked P w W cl0 ix (cl_core cl) (sv_core sv)" and w: "w \<in> W"
    and ready: "cl_sock cl = req_new" "waiting sv"
    and new: "\<And>f. f \<in> fst ` set adds \<Longrightarrow> (w, f) \<notin> ix_revoked ix"
  shows "\<exists>cl' sv' sv2. sys_run P F (add_ops w adds) (cl, sv) = Some (Inr (cl', sv'))
    \<and> Client_Search P F (server_net P F) cl' sv' w = Some (Inr (got_response, index_search ix w, cl', sv2))"
proof -
  have F: "wire_ok F" "wire_total F" and P: "prims_ok P" using S by (auto simp: setting_def)
  have "\<exists>cl' sv'. sys_run P F (add_ops w adds) (cl, sv) = Some (Inr (cl', sv'))
    \<and> cl_sock cl' = req_new \<and> waiting sv' \<and> blocked P w W cl0 ix (cl_core cl') (sv_core sv')"
    by (rule sys_run_adds [OF F _ _ ready, where kept = "\<lambda>n. blocked P w W cl0 ix"])
      (use b blocked_add [OF _ w new] in \<open>simp_all add: blocked_dirty\<close>)
  then obtain cl' sv' where run: "sys_run P F (add_ops w adds) (cl, sv) = Some (Inr (cl', sv'))"
    "cl_sock cl' = req_new" "waiting sv'" and k: "blocked P w W cl0 ix (cl_core cl') (sv_core sv')"
    by blast
  from live.Client_Search_net [OF F run(2,3) P blocked_search [OF k w]] run(1) show ?thesis by blast
qed

section \<open>The two ways to lose an Add\<close>

text \<open>
  Killed before \<open>Dplus\<close> is written: the client has counted \<open>fid\<close>, the restarted server does
  not have it.
\<close>

lemma killed_loses_adds:
  assumes S: "setting P F" and rep: "sys_rep P W (cl, sv) ix" and w: "w \<in> W" and k: "k < 2"
    and ok: "sys_ok W (SysAdd fid [w] junk) ix" and len: "length (ix_added ix w) + 1 + length adds < 2 ^ 64"
    and new: "\<And>f. f \<in> insert fid (fst ` set adds) \<Longrightarrow> (w, f) \<notin> ix_revoked ix"
  shows "\<exists>cl1 dead sv1 cl2 sv2 sv3. Client_Add P F (killed_net P F k) junk cl sv fid [w] = Some (Inr (True, cl1, dead))
    \<and> restart_server_process dead = Some (Inr (True, sv1))
    \<and> sys_run P F (add_ops w adds) (cl1, sv1) = Some (Inr (cl2, sv2))
    \<and> Client_Search P F (server_net P F) cl2 sv2 w = Some (Inr (got_response, index_search ix w, cl2, sv3))"
proof -
  have F: "wire_ok F" "wire_total F" and P: "prims_ok P" using S by (auto simp: setting_def)
  obtain c dead sv1 where add: "Client_Add P F (killed_net P F k) junk cl sv fid [w] = Some (Inr (True, cl\<lparr>cl_core := c\<rparr>, dead))"
    and re: "restart_server_process dead = Some (Inr (True, sv1))" "settled sv1" and keys: "same_keys c (cl_core cl)"
    and counts: "\<forall>v \<in> W. dcount c v = of_nat (length (ix_added (index_add fid (set [w]) ix) v))"
    and r: "represents P W (cl_core cl) (sv_core sv1) ix"
    using killed_add [OF F P rep ok, of k] k by (auto simp: not_le [symmetric])
  have "dcount c w = of_nat (length (ix_added ix w) + 1)"
    using counts w new [of fid] by (simp add: index_add_def)
  then have "\<exists>cl' sv' s3. sys_run P F (add_ops w adds) (cl\<lparr>cl_core := c\<rparr>, sv1) = Some (Inr (cl', sv'))
      \<and> Client_Search P F (server_net P F) cl' sv' w = Some (Inr (got_response, index_search ix w, cl', s3))"
    using rep re(2) len w keys new
    by (intro severed_run [OF S r]) (auto simp: sys_rep_def settled_def)
  with add re(1) show ?thesis by blast
qed

text \<open>
  The server did it all, but its reply never reached the client: the client is killed while
  it waits, and the next one starts from the files of before.
\<close>

definition silent_net :: "prims \<Rightarrow> wire \<Rightarrow> server net" where
  "silent_net P F s b = (fst (server_net P F s b), Silence)"

lemma silent_add: 
  assumes F: "wire_ok F" "wire_total F" and ready: "cl_sock cl = req_new"
  shows "Client_Add P F (silent_net P F) junk cl sv fid words = None"
proof -
  obtain c L U where c1: "AddClient P (cl_core cl) fid junk words = (c, L, U)" by (metis prod_cases3)
  obtain m where "ser_request F (request_of (AddMsg L)) = Some m"
    using wire_serializes(1) [OF F request_of_version] by blast
  then show ?thesis
    using ready by (simp add: Client_Add_def c1 exchange_def silent_net_def req_send_def req_new_def)
qed

definition add_request :: "prims \<Rightarrow> wire \<Rightarrow> (nat \<Rightarrow> bytes) \<Rightarrow> client \<Rightarrow> u64 \<Rightarrow> bytes list \<Rightarrow> bytes option" where
  "add_request P F junk cl fid words =
     (case AddClient P (cl_core cl) fid junk words of (c, L, U) \<Rightarrow> ser_request F (request_of (AddMsg L)))"

lemma Client_Add_request:
  assumes "Client_Add P F net junk cl sv fid words = Some (Inr (True, cl', sv'))"
  shows "\<exists>m. add_request P F junk cl fid words = Some m \<and> fst (net sv m) = sv'"
proof -
  obtain c L U where c1: "AddClient P (cl_core cl) fid junk words = (c, L, U)" by (metis prod_cases3)
  show ?thesis
    using assms
    by (auto simp: Client_Add_def add_request_def c1 exchange_def obind_Inr_iff rbind_Inr_iff
        split: option.splits sum.splits prod.splits reply.splits)
qed

lemma silent_loses_adds:
  assumes S: "setting P F" and rep: "sys_rep P W (cl, sv) ix" and w: "w \<in> W"
    and ok: "sys_ok W (SysAdd fid [w] junk) ix" and d: "disk_fine dir d"
    and new: "\<And>f. f \<in> insert fid (fst ` set adds) \<Longrightarrow> (w, f) \<notin> ix_revoked ix"
  shows "\<exists>m sv1 cl1 cl2 sv2 sv3. Client_Add P F (silent_net P F) junk cl sv fid [w] = None
    \<and> add_request P F junk cl fid [w] = Some m \<and> fst (silent_net P F sv m) = sv1
    \<and> restart_client_process cl dir d = Some (Inr (True, cl1))
    \<and> sys_run P F (add_ops w adds) (cl1, sv1) = Some (Inr (cl2, sv2))
    \<and> Client_Search P F (server_net P F) cl2 sv2 w = Some (Inr (got_response, index_search ix w @ [fid], cl2, sv3))"
proof -
  have F: "wire_ok F" "wire_total F" and P: "prims_ok P" using S by (auto simp: setting_def)
  have ready: "cl_sock cl = req_new" using rep by (simp add: sys_rep_def)
  obtain c sv1 where add: "Client_Add P F (server_net P F) junk cl sv fid [w] = Some (Inr (True, cl\<lparr>cl_core := c\<rparr>, sv1))"
    and r1: "sys_rep P W (cl\<lparr>cl_core := c\<rparr>, sv1) (index_add fid (set [w]) ix)"
    and keys: "same_keys c (cl_core cl)"
    using sys_add [OF F P rep ok] by blast
  obtain m where m: "add_request P F junk cl fid [w] = Some m" "fst (server_net P F sv m) = sv1"
    using Client_Add_request [OF add] by blast
  let ?cl = "reloaded cl" and ?ix = "index_add fid (set [w]) ix"
  have start: "restart_client_process cl dir d = Some (Inr (True, ?cl))"
    using rep by (intro client_restart [OF _ _ d]) (auto simp: sys_rep_def)
  have "dcount (cl_core cl) w = of_nat (length (ix_added ix w))" "length (ix_added ix w) < 2 ^ 64"
    using rep w by (auto simp: sys_rep_def represents_def updates_hold_def)
  then have "unat (dcount (cl_core ?cl) w) < length (ix_added ?ix w)"
    using new [of fid] by (simp add: reloaded_def dcount_def index_add_def unat_of_nat_u64)
  moreover have "same_keys (cl_core ?cl) c" using keys by (simp add: reloaded_def same_keys_def)
  ultimately have b: "blocked P w W c ?ix (cl_core ?cl) (sv_core sv1)"
    using r1 by (simp add: blocked_def sys_rep_def)
  have "\<exists>cl' sv' s3. sys_run P F (add_ops w adds) (?cl, sv1) = Some (Inr (cl', sv'))
      \<and> Client_Search P F (server_net P F) cl' sv' w = Some (Inr (got_response, index_search ?ix w, cl', s3))"
    using r1 new by (intro blocked_run [OF S b w]) (auto simp: sys_rep_def settled_def reloaded_def new_client_def index_add_def)
  moreover have "index_search ?ix w = index_search ix w @ [fid]"
    using new [of fid] by (intro index_search_add_fresh) simp_all
  ultimately show ?thesis
    using silent_add [OF F ready] m start by (auto simp: silent_net_def)
qed

end
