(* ===== verification/Prototype.thy ===== *)
theory Prototype
  imports Session Istream
begin

text \<open>
  The prototype the C++ was written after, \<open>src/dsse-prototype.py\<close>: one Python class with both
  sides of the basic variant. Its ids are strings, its counters Python integers written in
  decimal, its encryption the identity. Python 2 is meant, where \<open>str\<close> is a byte string. It
  is compared with \<open>Core\<close> over the plain index.
\<close>

section \<open>State\<close>

text \<open>A \<open>dict\<close> that is only looked up and entered is a map, a \<open>set\<close> is a set.\<close>

datatype py_error = KeyError | AssertionError | ValueError

record proto =
  pr_D :: "bytes \<rightharpoonup> bytes"
  pr_K :: bytes
  pr_Kplus :: bytes
  pr_Dcount :: "bytes \<rightharpoonup> nat"
  pr_Dplus :: "bytes \<rightharpoonup> bytes"
  pr_Kminus :: bytes
  pr_Srev :: "bytes set"

definition py_mac :: "prims \<Rightarrow> bytes \<Rightarrow> bytes \<Rightarrow> bytes" where
  "py_mac P k s = hmac_sha256 P k s"

definition py_enc :: "bytes \<Rightarrow> bytes \<Rightarrow> bytes" where "py_enc k m = m"
definition py_dec :: "bytes \<Rightarrow> bytes \<Rightarrow> bytes" where "py_dec k m = m"

section \<open>Setup\<close>

text \<open>\<open>dict(L)\<close>: of pairs with the same key the last one counts.\<close>

definition py_dict :: "('k \<times> 'v) list \<Rightarrow> 'k \<rightharpoonup> 'v" where
  "py_dict L = foldl (\<lambda>m (l, d). m(l \<mapsto> d)) Map.empty L"

definition py_pairs :: "prims \<Rightarrow> bytes \<Rightarrow> bytes \<Rightarrow> bytes list \<Rightarrow> (bytes \<times> bytes) list" where
  "py_pairs P k w ids =
     (let K1 = py_mac P k ([0x31] @ w); K2 = py_mac P k ([0x32] @ w)
      in map (\<lambda>(c, id). (py_mac P K1 (dec c), py_enc K2 id)) (enumerate 0 ids))"

text \<open>The loop over \<open>tokens\<close>; \<open>db[w]\<close> raises \<open>KeyError\<close> for a token without ids.\<close>

fun py_setup_loop ::
  "prims \<Rightarrow> bytes \<Rightarrow> (bytes \<rightharpoonup> bytes list) \<Rightarrow> bytes list \<Rightarrow> py_error + (bytes \<times> bytes) list" where
  "py_setup_loop P k db [] = Inr []"
| "py_setup_loop P k db (w # tokens) =
     (case db w of None \<Rightarrow> Inl KeyError
      | Some ids \<Rightarrow> rbind (py_setup_loop P k db tokens) (\<lambda>L. Inr (py_pairs P k w ids @ L)))"

text \<open>\<open>os.urandom\<close> gives the three keys. No field keeps what it had before.\<close>

definition py_setup ::
  "prims \<Rightarrow> bytes \<times> bytes \<times> bytes \<Rightarrow> bytes list \<Rightarrow> (bytes \<rightharpoonup> bytes list) \<Rightarrow> py_error + proto" where
  "py_setup P keys tokens db =
     (case keys of (k, kp, km) \<Rightarrow>
        rbind (py_setup_loop P k db tokens) (\<lambda>L.
          Inr \<lparr>pr_D = py_dict (sort L), pr_K = k, pr_Kplus = kp, pr_Dcount = Map.empty,
               pr_Dplus = Map.empty, pr_Kminus = km, pr_Srev = {}\<rparr>))"

section \<open>Search\<close>

text \<open>The \<open>while True\<close> over the counter \<open>c\<close>; \<open>None\<close> when it never ends.\<close>

partial_function (option) py_walk ::
  "(nat \<Rightarrow> bytes option) \<Rightarrow> (bytes \<Rightarrow> bytes) \<Rightarrow> (bytes \<Rightarrow> bool) \<Rightarrow> nat \<Rightarrow> bytes list \<Rightarrow> bytes list option" where
  "py_walk look decr revoked c ids =
     (case look c of
        None \<Rightarrow> Some ids
      | Some d \<Rightarrow> py_walk look decr revoked (Suc c) (if revoked (decr d) then ids else ids @ [decr d]))"

definition py_search_server ::
  "prims \<Rightarrow> proto \<Rightarrow> bytes \<Rightarrow> bytes \<Rightarrow> bytes \<Rightarrow> bytes \<Rightarrow> bytes \<Rightarrow> bytes list option" where
  "py_search_server P s K1 K2 K1plus K2plus K1minus =
     (let revoked = (\<lambda>id. py_mac P K1minus id \<in> pr_Srev s)
      in Option.bind (py_walk (\<lambda>c. pr_D s (py_mac P K1 (dec c))) (py_dec K2) revoked 0 [])
           (py_walk (\<lambda>c. pr_Dplus s (py_mac P K1plus (dec c))) (py_dec K2plus) revoked 0))"

definition py_search_client :: "prims \<Rightarrow> proto \<Rightarrow> bytes \<Rightarrow> bytes list option" where
  "py_search_client P s w =
     py_search_server P s (py_mac P (pr_K s) ([0x31] @ w)) (py_mac P (pr_K s) ([0x32] @ w))
       (py_mac P (pr_Kplus s) ([0x31] @ w)) (py_mac P (pr_Kplus s) ([0x32] @ w))
       (py_mac P (pr_Kminus s) ([0x31] @ w))"

section \<open>Add and Delete\<close>

definition py_count :: "proto \<Rightarrow> bytes \<Rightarrow> nat" where
  "py_count s w = (case pr_Dcount s w of None \<Rightarrow> 0 | Some c \<Rightarrow> c)"

definition py_triple :: "prims \<Rightarrow> proto \<Rightarrow> bytes \<Rightarrow> bytes \<Rightarrow> bytes \<times> bytes \<times> bytes" where
  "py_triple P s i w =
     (py_mac P (py_mac P (pr_Kplus s) ([0x31] @ w)) (dec (py_count s w)),
      py_enc (py_mac P (pr_Kplus s) ([0x32] @ w)) i,
      py_mac P (py_mac P (pr_Kminus s) ([0x31] @ w)) i)"

fun py_add_server :: "(bytes \<times> bytes \<times> bytes) list \<Rightarrow> proto \<Rightarrow> nat list \<Rightarrow> py_error + proto \<times> nat list" where
  "py_add_server [] s r = Inr (s, r)"
| "py_add_server ((l, d, revid) # L) s r =
     (if revid \<in> pr_Srev s then py_add_server L (s\<lparr>pr_Srev := pr_Srev s - {revid}\<rparr>) (r @ [1])
      else if pr_Dplus s l \<noteq> None then Inl AssertionError
      else py_add_server L (s\<lparr>pr_Dplus := (pr_Dplus s)(l \<mapsto> d)\<rparr>) (r @ [0]))"

definition py_bump :: "proto \<Rightarrow> nat \<times> bytes \<Rightarrow> proto" where
  "py_bump s rw =
     (case rw of (ri, w) \<Rightarrow> if ri = 0 then s\<lparr>pr_Dcount := (pr_Dcount s)(w \<mapsto> py_count s w + 1)\<rparr> else s)"

text \<open>
  The list of triples and the list of words are sorted, each by itself; the answers come in
  the order of the triples and are read in the order of the words.
\<close>

definition py_add :: "prims \<Rightarrow> bytes \<Rightarrow> bytes list \<Rightarrow> proto \<Rightarrow> py_error + proto" where
  "py_add P i W s =
     (let L = sort (map (py_triple P s i) W); W_in_order_of_Lrev = sort W
      in rbind (py_add_server L s []) (\<lambda>(s, r). Inr (foldl py_bump s (zip r W_in_order_of_Lrev))))"

definition py_del_server :: "bytes list \<Rightarrow> proto \<Rightarrow> proto" where
  "py_del_server L s = foldl (\<lambda>s revid. s\<lparr>pr_Srev := insert revid (pr_Srev s)\<rparr>) s L"

definition py_del :: "prims \<Rightarrow> bytes \<Rightarrow> bytes list \<Rightarrow> proto \<Rightarrow> proto" where
  "py_del P i W s =
     (let Lrev = sort (map (\<lambda>w. py_mac P (py_mac P (pr_Kminus s) ([0x31] @ w)) i) W)
      in py_del_server Lrev s)"

definition py_update_client :: "prims \<Rightarrow> string \<Rightarrow> bytes \<Rightarrow> bytes list \<Rightarrow> proto \<Rightarrow> py_error + proto" where
  "py_update_client P action i W s =
     (if action = ''add'' \<or> action = ''edit+'' then py_add P i W s
      else if action = ''del'' \<or> action = ''edit-'' then Inr (py_del P i W s)
      else Inl ValueError)"

section \<open>The tie to the plain index\<close>

text \<open>
  \<open>nm\<close> gives the string for a file id. The assumption on HMAC: for the master key \<open>mk\<close> and
  the tokens \<open>W\<close> no two messages of \<open>X\<close> have the same label; as labels have 32 bytes, \<open>X\<close> is
  finite, so \<open>N\<close> bounds the counters.
\<close>

definition py_label :: "prims \<Rightarrow> bytes \<Rightarrow> bytes \<Rightarrow> bytes \<Rightarrow> bytes" where
  "py_label P mk w x = py_mac P (py_mac P mk ([0x31] @ w)) x"

definition py_cf :: "prims \<Rightarrow> bytes \<Rightarrow> bytes set \<Rightarrow> bytes set \<Rightarrow> bool" where
  "py_cf P mk W X \<longleftrightarrow> inj_on (\<lambda>(w, x). py_label P mk w x) (W \<times> X)"

lemma py_label_eq_iff:
  "py_cf P mk W X \<Longrightarrow> w \<in> W \<Longrightarrow> v \<in> W \<Longrightarrow> x \<in> X \<Longrightarrow> y \<in> X \<Longrightarrow>
   py_label P mk w x = py_label P mk v y \<longleftrightarrow> w = v \<and> x = y"
  unfolding py_cf_def inj_on_def by fastforce

lemma dec_inj: "dec m = dec n \<longleftrightarrow> m = n"
  by (metis dec_value_dec)

definition py_keys_cf :: "prims \<Rightarrow> bytes set \<Rightarrow> (u64 \<Rightarrow> bytes) \<Rightarrow> nat \<Rightarrow> bytes \<times> bytes \<times> bytes \<Rightarrow> bool" where
  "py_keys_cf P W nm N keys \<longleftrightarrow> inj nm
     \<and> (case keys of (k, kp, km) \<Rightarrow> py_cf P k W (dec ` {..N}) \<and> py_cf P kp W (dec ` {..N}) \<and> py_cf P km W (range nm))"

text \<open>The entries of \<open>w\<close> in a dictionary: one id under each counter, then none.\<close>

definition py_holds :: "prims \<Rightarrow> bytes \<Rightarrow> (u64 \<Rightarrow> bytes) \<Rightarrow> (bytes \<rightharpoonup> bytes) \<Rightarrow> bytes \<Rightarrow> u64 list \<Rightarrow> nat \<Rightarrow> bool" where
  "py_holds P mk nm m w ids N \<longleftrightarrow> length ids \<le> N
     \<and> (\<forall>c \<le> N. m (py_label P mk w (dec c)) = (if c < length ids then Some (nm (ids ! c)) else None))"

definition py_rep :: "prims \<Rightarrow> bytes set \<Rightarrow> (u64 \<Rightarrow> bytes) \<Rightarrow> nat \<Rightarrow> proto \<Rightarrow> index \<Rightarrow> bool" where
  "py_rep P W nm N s ix \<longleftrightarrow> py_keys_cf P W nm N (pr_K s, pr_Kplus s, pr_Kminus s)
     \<and> (\<forall>w \<in> W. py_holds P (pr_K s) nm (pr_D s) w (ix_setup ix w) N
          \<and> py_holds P (pr_Kplus s) nm (pr_Dplus s) w (ix_added ix w) N
          \<and> py_count s w = length (ix_added ix w)
          \<and> (\<forall>i. py_label P (pr_Kminus s) w (nm i) \<in> pr_Srev s \<longleftrightarrow> (w, i) \<in> ix_revoked ix))"

section \<open>Search\<close>

lemma py_walk_entries:
  assumes "\<And>c. c < n \<Longrightarrow> look (c0 + c) = Some (d c)" "look (c0 + n) = None"
  shows "py_walk look decr gone c0 ids = Some (ids @ filter (\<lambda>x. \<not> gone x) (map (\<lambda>c. decr (d c)) [0..<n]))"
  using assms
proof (induction n arbitrary: c0 ids d)
  case 0
  then show ?case by (subst py_walk.simps) simp
next
  case (Suc n)
  have "py_walk look decr gone (Suc c0) (if gone (decr (d 0)) then ids else ids @ [decr (d 0)])
    = Some ((if gone (decr (d 0)) then ids else ids @ [decr (d 0)])
        @ filter (\<lambda>x. \<not> gone x) (map (\<lambda>c. decr (d (Suc c))) [0..<n]))"
  proof (rule Suc.IH)
    show "look (Suc c0 + c) = Some (d (Suc c))" if "c < n" for c
      using Suc.prems(1) [of "Suc c"] that by simp
    show "look (Suc c0 + n) = None" using Suc.prems(2) by simp
  qed
  moreover have "[0..<Suc n] = 0 # map Suc [0..<n]" by (simp add: map_Suc_upt upt_conv_Cons del: upt_Suc)
  ultimately show ?case
    using Suc.prems(1) [of 0] by (subst py_walk.simps) (simp add: comp_def del: upt_Suc)
qed

lemma py_holds_walk:
  assumes h: "py_holds P mk nm m w ids N" and gone: "\<And>i. gone (nm i) \<longleftrightarrow> (w, i) \<in> R"
  shows "py_walk (\<lambda>c. m (py_mac P (py_mac P mk ([0x31] @ w)) (dec c))) (py_dec k) gone 0 acc
    = Some (acc @ map nm (filter (\<lambda>i. (w, i) \<notin> R) ids))"
proof -
  have len: "length ids \<le> N" using h by (simp add: py_holds_def)
  have "py_walk (\<lambda>c. m (py_label P mk w (dec c))) (py_dec k) gone 0 acc
      = Some (acc @ filter (\<lambda>x. \<not> gone x) (map (\<lambda>c. py_dec k (nm (ids ! c))) [0..<length ids]))"
    using h len by (intro py_walk_entries) (auto simp: py_holds_def)
  also have "map (\<lambda>c. py_dec k (nm (ids ! c))) [0..<length ids] = map nm (map ((!) ids) [0..<length ids])"
    by (simp add: py_dec_def)
  finally show ?thesis by (simp only: map_nth filter_map comp_def gone py_label_def)
qed

lemma py_rep_search:
  assumes "py_rep P W nm N s ix" "w \<in> W"
  shows "py_search_client P s w = Some (map nm (index_search ix w))"
proof -
  have h: "py_holds P (pr_K s) nm (pr_D s) w (ix_setup ix w) N"
      "py_holds P (pr_Kplus s) nm (pr_Dplus s) w (ix_added ix w) N"
    and rev: "\<And>i. py_mac P (py_mac P (pr_Kminus s) ([0x31] @ w)) (nm i) \<in> pr_Srev s \<longleftrightarrow> (w, i) \<in> ix_revoked ix"
    using assms by (auto simp: py_rep_def py_label_def)
  show ?thesis
    unfolding py_search_client_def py_search_server_def Let_def
    by (simp add: py_holds_walk [OF h(1) rev] py_holds_walk [OF h(2) rev] index_search_def
        del: append_Cons append_Nil)
qed

section \<open>Setup\<close>

lemma py_dict_eq: "py_dict L = map_of (rev L)"
proof -
  have "foldl (\<lambda>m (l, d). m(l \<mapsto> d)) m L = m ++ map_of (rev L)" for m :: "'a \<rightharpoonup> 'b"
    by (induction L arbitrary: m) (auto simp: map_add_def fun_eq_iff split: option.splits)
  then show ?thesis by (simp add: py_dict_def)
qed

lemma py_dict_lookup:
  assumes "\<And>d. (l, d) \<in> set L \<longleftrightarrow> x = Some d"
  shows "py_dict L l = x"
proof (cases "map_of (rev L) l")
  case None
  then have "(l, d) \<notin> set L" for d by (auto simp: map_of_eq_None_iff image_iff)
  with None assms show ?thesis by (cases x) (auto simp: py_dict_eq)
next
  case (Some d)
  then have "(l, d) \<in> set L" using map_of_SomeD by fastforce
  with Some assms show ?thesis by (simp add: py_dict_eq)
qed

lemma py_setup_loop_pairs:
  assumes "\<And>w. w \<in> set tokens \<Longrightarrow> db w \<noteq> None"
  shows "\<exists>L. py_setup_loop P k db tokens = Inr L
    \<and> (\<forall>l d. (l, d) \<in> set L \<longleftrightarrow> (\<exists>w \<in> set tokens. \<exists>c < length (the (db w)). l = py_label P k w (dec c) \<and> d = the (db w) ! c))"
  using assms
proof (induction tokens)
  case (Cons w tokens)
  then obtain ids L where ids: "db w = Some ids" and L: "py_setup_loop P k db tokens = Inr L"
    "\<forall>l d. (l, d) \<in> set L \<longleftrightarrow> (\<exists>w \<in> set tokens. \<exists>c < length (the (db w)). l = py_label P k w (dec c) \<and> d = the (db w) ! c)"
    by fastforce
  have "(l, d) \<in> set (py_pairs P k w ids) \<longleftrightarrow> (\<exists>c < length ids. l = py_label P k w (dec c) \<and> d = ids ! c)" for l d
    by (auto simp: py_pairs_def py_label_def py_enc_def in_set_enumerate_eq image_iff Bex_def
        simp del: append_Cons append_Nil)
  with ids L show ?case by auto
qed simp

lemma py_rep_setup:
  assumes db: "\<And>w. w \<in> set tokens \<Longrightarrow> db w = Some (map nm (ix_setup ix w))"
    and none: "\<And>w. w \<notin> set tokens \<Longrightarrow> ix_setup ix w = []" "\<And>w. ix_added ix w = []" "ix_revoked ix = {}"
    and W: "set tokens \<subseteq> W" and len: "\<And>w. w \<in> W \<Longrightarrow> length (ix_setup ix w) \<le> N"
    and cf: "py_keys_cf P W nm N keys"
  shows "\<exists>s. py_setup P keys tokens db = Inr s \<and> py_rep P W nm N s ix"
proof -
  obtain k kp km where keys: "keys = (k, kp, km)" by (metis prod_cases3)
  have kcf: "py_cf P k W (dec ` {..N})" using cf by (simp add: py_keys_cf_def keys)
  obtain L where L: "py_setup_loop P k db tokens = Inr L"
    and mem: "\<And>l d. (l, d) \<in> set L \<longleftrightarrow> (\<exists>w \<in> set tokens. \<exists>c < length (the (db w)). l = py_label P k w (dec c) \<and> d = the (db w) ! c)"
    using py_setup_loop_pairs [of tokens db P k] db by auto
  have "py_dict (sort L) (py_label P k w (dec c)) = (if c < length (ix_setup ix w) then Some (nm (ix_setup ix w ! c)) else None)"
    if w: "w \<in> W" and c: "c \<le> N" for w c
  proof (rule py_dict_lookup)
    fix d
    have "py_label P k w (dec c) = py_label P k v (dec c') \<longleftrightarrow> w = v \<and> c = c'"
      if "v \<in> set tokens" "c' < length (ix_setup ix v)" for v c'
    proof -
      have "v \<in> W" "c' \<le> N" using that W len [of v] by auto
      then show ?thesis using py_label_eq_iff [OF kcf w, of v "dec c" "dec c'"] c by (auto simp: dec_inj)
    qed
    moreover have "(py_label P k w (dec c), d) \<in> set L
        \<longleftrightarrow> (\<exists>v \<in> set tokens. \<exists>c' < length (ix_setup ix v). py_label P k w (dec c) = py_label P k v (dec c')
              \<and> d = nm (ix_setup ix v ! c'))"
      unfolding mem using db by (auto intro!: bex_cong)
    ultimately have "(py_label P k w (dec c), d) \<in> set L \<longleftrightarrow> w \<in> set tokens \<and> c < length (ix_setup ix w) \<and> d = nm (ix_setup ix w ! c)"
      by auto
    then show "(py_label P k w (dec c), d) \<in> set (sort L)
        \<longleftrightarrow> (if c < length (ix_setup ix w) then Some (nm (ix_setup ix w ! c)) else None) = Some d"
      using none(1) [of w] by auto
  qed
  then show ?thesis
    using L cf len none
    by (simp add: py_setup_def keys py_rep_def py_holds_def py_count_def)
qed

section \<open>Add and Delete\<close>

text \<open>None of the pairs revoked: all are stored, and every answer is 0.\<close>

lemma py_add_server_fresh:
  assumes "distinct (map fst L)"
    and "\<And>l d x. (l, d, x) \<in> set L \<Longrightarrow> x \<notin> pr_Srev s \<and> pr_Dplus s l = None"
  shows "py_add_server L s r
    = Inr (s\<lparr>pr_Dplus := pr_Dplus s ++ map_of (map (\<lambda>(l, d, x). (l, d)) L)\<rparr>, r @ replicate (length L) 0)"
  using assms
proof (induction L arbitrary: s r)
  case (Cons t L)
  obtain l d x where t: "t = (l, d, x)" by (metis prod_cases3)
  let ?s = "s\<lparr>pr_Dplus := (pr_Dplus s)(l \<mapsto> d)\<rparr>"
  have notin: "l \<notin> fst ` set L" using Cons.prems(1) by (simp add: t)
  have "py_add_server L ?s (r @ [0])
      = Inr (?s\<lparr>pr_Dplus := pr_Dplus ?s ++ map_of (map (\<lambda>(l, d, x). (l, d)) L)\<rparr>, (r @ [0]) @ replicate (length L) 0)"
    using Cons.prems notin by (intro Cons.IH) (auto simp: t image_iff)
  moreover have "pr_Dplus ?s ++ map_of (map (\<lambda>(l, d, x). (l, d)) L)
      = pr_Dplus s ++ map_of (map (\<lambda>(l, d, x). (l, d)) (t # L))"
  proof -
    have "map_of (map (\<lambda>(l, d, x). (l, d)) L) l = None"
      using notin by (force simp: map_of_eq_None_iff)
    then show ?thesis by (auto simp: t map_add_def fun_eq_iff split: option.splits)
  qed
  ultimately have "py_add_server L ?s (r @ [0])
      = Inr (s\<lparr>pr_Dplus := pr_Dplus s ++ map_of (map (\<lambda>(l, d, x). (l, d)) (t # L))\<rparr>, r @ replicate (length (t # L)) 0)"
    by simp
  moreover have "py_add_server (t # L) s r = py_add_server L ?s (r @ [0])"
    using Cons.prems(2) [of l d x] by (simp add: t)
  ultimately show ?case by (simp only:)
qed simp

text \<open>All of them revoked: all revocations are taken back, and every answer is 1.\<close>

lemma py_add_server_revoked:
  assumes "distinct (map (\<lambda>(l, d, x). x) L)" and "\<And>l d x. (l, d, x) \<in> set L \<Longrightarrow> x \<in> pr_Srev s"
  shows "py_add_server L s r
    = Inr (s\<lparr>pr_Srev := pr_Srev s - set (map (\<lambda>(l, d, x). x) L)\<rparr>, r @ replicate (length L) 1)"
  using assms
proof (induction L arbitrary: s r)
  case (Cons t L)
  obtain l d x where t: "t = (l, d, x)" by (metis prod_cases3)
  let ?s = "s\<lparr>pr_Srev := pr_Srev s - {x}\<rparr>"
  have "x \<notin> set (map (\<lambda>(l, d, x). x) L)" using Cons.prems(1) by (simp add: t)
  then have "y \<noteq> x" if "(a, b, y) \<in> set L" for a b y using that by force
  then have "py_add_server L ?s (r @ [1])
      = Inr (?s\<lparr>pr_Srev := pr_Srev ?s - set (map (\<lambda>(l, d, x). x) L)\<rparr>, (r @ [1]) @ replicate (length L) 1)"
    using Cons.prems by (intro Cons.IH) (auto simp: t)
  moreover have "pr_Srev s - {x} - S = pr_Srev s - insert x S" for S by blast
  ultimately show ?case using Cons.prems(2) [of l d x] by (simp add: t)
qed simp

lemma py_bump_all:
  "distinct W \<Longrightarrow> length W = n \<Longrightarrow>
   (\<forall>w. py_count (foldl py_bump s (zip (replicate n 0) W)) w = (if w \<in> set W then py_count s w + 1 else py_count s w))
   \<and> (\<exists>m. foldl py_bump s (zip (replicate n 0) W) = s\<lparr>pr_Dcount := m\<rparr>)"
proof (induction W arbitrary: n s)
  case Nil
  then show ?case by (cases s) (auto simp: py_count_def)
next
  case (Cons w W)
  then obtain n' where n: "n = Suc n'" "length W = n'" by auto
  let ?s = "py_bump s (0, w)"
  have c: "py_count ?s v = (if v = w then py_count s w + 1 else py_count s v)" for v
    by (simp add: py_bump_def py_count_def)
  have "\<exists>m. ?s = s\<lparr>pr_Dcount := m\<rparr>" by (auto simp: py_bump_def)
  with Cons.IH [of n' ?s] Cons.prems(1) n show ?case by (auto simp: c)
qed

lemma py_bump_none: "foldl py_bump s (zip (replicate n 1) W) = s"
proof (induction n arbitrary: W)
  case (Suc n)
  then show ?case by (cases W) (simp_all add: py_bump_def)
qed simp

text \<open>
  What an operation has to satisfy on top of \<open>op_ok\<close>: the counters stay within \<open>N\<close>, and of
  the pairs an Add names either all are revoked or none is. Otherwise the answers are given
  to the wrong words (below).
\<close>

fun py_ok :: "bytes set \<Rightarrow> nat \<Rightarrow> op \<Rightarrow> index \<Rightarrow> bool" where
  "py_ok W N (DoAdd i words junk) ix \<longleftrightarrow> op_ok W (DoAdd i words junk) ix
     \<and> (\<forall>w \<in> set words. length (ix_added ix w) + 1 \<le> N)
     \<and> ((\<forall>w \<in> set words. (w, i) \<in> ix_revoked ix) \<or> (\<forall>w \<in> set words. (w, i) \<notin> ix_revoked ix))"
| "py_ok W N (DoDelete i words) ix \<longleftrightarrow> op_ok W (DoDelete i words) ix"

fun py_op :: "prims \<Rightarrow> (u64 \<Rightarrow> bytes) \<Rightarrow> op \<Rightarrow> proto \<Rightarrow> py_error + proto" where
  "py_op P nm (DoAdd i words junk) s = py_update_client P ''add'' (nm i) words s"
| "py_op P nm (DoDelete i words) s = py_update_client P ''del'' (nm i) words s"

lemma py_del_Srev: "py_del P i W s = s\<lparr>pr_Srev := pr_Srev s \<union> {py_label P (pr_Kminus s) w i | w. w \<in> set W}\<rparr>"
proof -
  have "foldl (\<lambda>s x. s\<lparr>pr_Srev := insert x (pr_Srev s)\<rparr>) t xs = t\<lparr>pr_Srev := pr_Srev t \<union> set xs\<rparr>" for t :: proto and xs
    by (induction xs arbitrary: t) simp_all
  then show ?thesis by (auto simp: py_del_def py_del_server_def py_label_def simp del: append_Cons append_Nil intro!: arg_cong2 [where f = pr_Srev_update])
qed

lemma py_rep_del:
  assumes r: "py_rep P W nm N s ix" and ws: "set words \<subseteq> W"
  shows "py_rep P W nm N (py_del P (nm i) words s) (index_delete i (set words) ix)"
proof -
  have cf: "py_cf P (pr_Kminus s) W (range nm)" and inj: "inj nm"
    using r by (auto simp: py_rep_def py_keys_cf_def)
  have "py_label P (pr_Kminus s) w (nm j) \<in> {py_label P (pr_Kminus s) v (nm i) | v. v \<in> set words} \<longleftrightarrow> w \<in> set words \<and> j = i"
    if w: "w \<in> W" for w j
  proof -
    have "py_label P (pr_Kminus s) w (nm j) = py_label P (pr_Kminus s) v (nm i) \<longleftrightarrow> w = v \<and> j = i" if "v \<in> set words" for v
      using py_label_eq_iff [OF cf w, of v "nm j" "nm i"] that ws inj by (auto simp: inj_eq)
    then show ?thesis by blast
  qed
  then show ?thesis
    using r by (auto simp: py_rep_def py_del_Srev index_delete_def py_count_def)
qed

lemma distinct_map_sort: "distinct (map f (sort xs)) = distinct (map f xs)"
  by (simp add: distinct_map)

lemma py_rep_add_revoked:
  assumes r: "py_rep P W nm N s ix" and ws: "set words \<subseteq> W" "distinct words"
    and all: "\<forall>w \<in> set words. (w, i) \<in> ix_revoked ix"
  shows "\<exists>s'. py_add P (nm i) words s = Inr s' \<and> py_rep P W nm N s' (index_add i (set words) ix)"
proof -
  have cf: "py_cf P (pr_Kminus s) W (range nm)" and inj: "inj nm"
    using r by (auto simp: py_rep_def py_keys_cf_def)
  have eq: "py_label P (pr_Kminus s) w (nm j) = py_label P (pr_Kminus s) v (nm i) \<longleftrightarrow> w = v \<and> j = i"
    if "w \<in> W" "v \<in> set words" for w v j
    using py_label_eq_iff [OF cf that(1), of v "nm j" "nm i"] that ws inj by (auto simp: inj_eq)
  let ?L = "sort (map (py_triple P s (nm i)) words)"
  have revs: "map (\<lambda>(l, d, x). x) (map (py_triple P s (nm i)) words) = map (\<lambda>w. py_label P (pr_Kminus s) w (nm i)) words"
    by (simp add: py_triple_def py_label_def comp_def del: append_Cons append_Nil)
  have set_revs: "set (map (\<lambda>(l, d, x). x) ?L) = (\<lambda>w. py_label P (pr_Kminus s) w (nm i)) ` set words"
    using arg_cong [OF revs, of set] by (simp only: set_map set_sort)
  have "distinct (map (\<lambda>w. py_label P (pr_Kminus s) w (nm i)) words)"
    using ws eq by (auto simp: distinct_map inj_on_def)
  then have dist: "distinct (map (\<lambda>(l, d, x). x) ?L)"
    unfolding revs [symmetric] by (simp only: distinct_map_sort)
  have in_Srev: "x \<in> pr_Srev s" if "(l, d, x) \<in> set ?L" for l d x
  proof -
    have "x \<in> set (map (\<lambda>(l, d, x). x) ?L)" using that by force
    then obtain w where "w \<in> set words" "x = py_label P (pr_Kminus s) w (nm i)" unfolding set_revs by blast
    then show ?thesis using r all ws by (auto simp: py_rep_def)
  qed
  have run: "py_add P (nm i) words s = Inr (s\<lparr>pr_Srev := pr_Srev s - (\<lambda>w. py_label P (pr_Kminus s) w (nm i)) ` set words\<rparr>)"
    using py_add_server_revoked [OF dist in_Srev, where r = "[]"] py_bump_none
    by (simp only: py_add_def Let_def set_revs rbind.simps prod.case append_Nil)
  have "py_label P (pr_Kminus s) w (nm j) \<in> (\<lambda>w. py_label P (pr_Kminus s) w (nm i)) ` set words
      \<longleftrightarrow> (w, j) \<in> {(w, i) | w. w \<in> set words}" if "w \<in> W" for w j
    using eq [OF that] by (auto simp: image_iff)
  moreover have "ix_added (index_add i (set words) ix) = ix_added ix"
    using all by (auto simp: index_add_def fun_eq_iff)
  moreover have "ix_setup (index_add i (set words) ix) = ix_setup ix"
    "ix_revoked (index_add i (set words) ix) = ix_revoked ix - {(w, i) | w. w \<in> set words}"
    by (simp_all add: index_add_def)
  ultimately have "py_rep P W nm N (s\<lparr>pr_Srev := pr_Srev s - (\<lambda>w. py_label P (pr_Kminus s) w (nm i)) ` set words\<rparr>)
      (index_add i (set words) ix)"
    using r unfolding py_rep_def by (simp add: py_count_def)
  with run show ?thesis by blast
qed

lemma py_rep_add_fresh:
  assumes r: "py_rep P W nm N s ix" and ws: "set words \<subseteq> W" "distinct words"
    and len: "\<forall>w \<in> set words. length (ix_added ix w) + 1 \<le> N"
    and all: "\<forall>w \<in> set words. (w, i) \<notin> ix_revoked ix"
  shows "\<exists>s'. py_add P (nm i) words s = Inr s' \<and> py_rep P W nm N s' (index_add i (set words) ix)"
proof -
  let ?n = "\<lambda>w. length (ix_added ix w)" and ?mk = "pr_Kplus s"
  let ?tok = "\<lambda>w. py_label P (pr_Kplus s) w (dec (length (ix_added ix w)))"
  have cf: "py_cf P ?mk W (dec ` {..N})" using r by (simp add: py_rep_def py_keys_cf_def)
  have n: "?n w \<le> N" "py_count s w = ?n w" if "w \<in> W" for w
    using r that by (auto simp: py_rep_def py_holds_def)
  have eq: "py_label P ?mk w (dec c) = ?tok v \<longleftrightarrow> w = v \<and> c = ?n v" if "w \<in> W" "c \<le> N" "v \<in> W" for w c v
    using py_label_eq_iff [OF cf that(1,3), of "dec c" "dec (?n v)"] that n(1) by (auto simp: dec_inj)
  let ?L = "sort (map (py_triple P s (nm i)) words)"
  have triple: "py_triple P s (nm i) w = (?tok w, nm i, py_label P (pr_Kminus s) w (nm i))" if "w \<in> set words" for w
    using n(2) [of w] that ws(1) by (auto simp: py_triple_def py_label_def py_enc_def simp del: append_Cons append_Nil)
  have map_fst: "map fst (map (py_triple P s (nm i)) words) = map ?tok words" by (simp add: triple)
  have "distinct (map ?tok words)"
    using ws n(1) eq [OF _ n(1)] by (auto simp: distinct_map inj_on_def subset_iff)
  then have dist: "distinct (map fst ?L)" unfolding map_fst [symmetric] by (simp only: distinct_map_sort)
  have mem: "(l, d, x) \<in> set ?L \<longleftrightarrow> (\<exists>w \<in> set words. l = ?tok w \<and> d = nm i \<and> x = py_label P (pr_Kminus s) w (nm i))" for l d x
    by (auto simp: triple image_iff)
  have free: "x \<notin> pr_Srev s \<and> pr_Dplus s l = None" if "(l, d, x) \<in> set ?L" for l d x
  proof -
    obtain w where w: "w \<in> set words" "l = ?tok w" "x = py_label P (pr_Kminus s) w (nm i)"
      using \<open>(l, d, x) \<in> set ?L\<close> mem by blast
    then have "w \<in> W" using ws(1) by blast
    then show ?thesis using r all w n(1) [of w] by (simp add: py_rep_def py_holds_def)
  qed
  let ?m = "pr_Dplus s ++ map_of (map (\<lambda>(l, d, x). (l, d)) ?L)"
  have entry: "map_of (map (\<lambda>(l, d, x). (l, d)) ?L) (py_label P ?mk w (dec c)) = (if w \<in> set words \<and> c = ?n w then Some (nm i) else None)"
    if w: "w \<in> W" and c: "c \<le> N" for w c
  proof -
    have fst': "map fst (map (\<lambda>(l, d, x). (l, d)) ?L) = map fst ?L" by (simp add: comp_def case_prod_beta)
    have in_L: "(py_label P ?mk w (dec c), d) \<in> set (map (\<lambda>(l, d, x). (l, d)) ?L) \<longleftrightarrow> w \<in> set words \<and> c = ?n w \<and> d = nm i" for d
    proof -
      have "(py_label P ?mk w (dec c), d) \<in> set (map (\<lambda>(l, d, x). (l, d)) ?L) \<longleftrightarrow> (\<exists>x. (py_label P ?mk w (dec c), d, x) \<in> set ?L)"
        by force
      also have "\<dots> \<longleftrightarrow> (\<exists>v \<in> set words. py_label P ?mk w (dec c) = ?tok v \<and> d = nm i)"
        unfolding mem by blast
      also have "\<dots> \<longleftrightarrow> w \<in> set words \<and> c = ?n w \<and> d = nm i"
        using eq [OF w c] ws(1) by blast
      finally show ?thesis .
    qed
    show ?thesis
    proof (cases "w \<in> set words \<and> c = ?n w")
      case True
      then have "(py_label P ?mk w (dec c), nm i) \<in> set (map (\<lambda>(l, d, x). (l, d)) ?L)" using in_L by blast
      with True dist fst' show ?thesis by (metis map_of_is_SomeI)
    next
      case False
      then have "map_of (map (\<lambda>(l, d, x). (l, d)) ?L) (py_label P ?mk w (dec c)) = None"
        using in_L map_of_SomeD by (metis option.exhaust)
      with False show ?thesis by simp
    qed
  qed
  obtain t where t: "foldl py_bump (s\<lparr>pr_Dplus := ?m\<rparr>) (zip (replicate (length words) 0) (sort words)) = (s\<lparr>pr_Dplus := ?m\<rparr>)\<lparr>pr_Dcount := t\<rparr>"
    and counts: "\<And>w. py_count ((s\<lparr>pr_Dplus := ?m\<rparr>)\<lparr>pr_Dcount := t\<rparr>) w = (if w \<in> set words then py_count s w + 1 else py_count s w)"
    using py_bump_all [of "sort words" "length words" "s\<lparr>pr_Dplus := ?m\<rparr>"] ws(2) by (auto simp: py_count_def)
  let ?s = "(s\<lparr>pr_Dplus := ?m\<rparr>)\<lparr>pr_Dcount := t\<rparr>"
  have run: "py_add P (nm i) words s = Inr ?s"
    using py_add_server_fresh [OF dist free, where r = "[]"] t
    by (simp only: py_add_def Let_def rbind.simps prod.case append_Nil length_sort length_map)
  have added: "ix_added (index_add i (set words) ix) w = (if w \<in> set words then ix_added ix w @ [i] else ix_added ix w)" for w
    using all by (simp add: index_add_def)
  have rest: "ix_setup (index_add i (set words) ix) = ix_setup ix" "ix_revoked (index_add i (set words) ix) = ix_revoked ix"
    using all by (auto simp: index_add_def)
  have "py_holds P ?mk nm ?m w (ix_added (index_add i (set words) ix) w) N" if w: "w \<in> W" for w
  proof -
    have h: "py_holds P ?mk nm (pr_Dplus s) w (ix_added ix w) N" using r w by (simp add: py_rep_def)
    have "?m (py_label P ?mk w (dec c)) = (if w \<in> set words \<and> c = ?n w then Some (nm i) else pr_Dplus s (py_label P ?mk w (dec c)))"
      if "c \<le> N" for c
      using entry [OF w that] by (simp add: map_add_def)
    then show ?thesis
      using h len by (auto simp: py_holds_def added nth_append)
  qed
  then have "py_rep P W nm N ?s (index_add i (set words) ix)"
    using r counts n(2) by (simp add: py_rep_def rest added py_count_def)
  with run show ?thesis by blast
qed

lemma py_op_rep:
  assumes r: "py_rep P W nm N s ix" and ok: "py_ok W N x ix"
  shows "\<exists>s'. py_op P nm x s = Inr s' \<and> py_rep P W nm N s' (index_op x ix)"
proof (cases x)
  case (DoAdd i words junk)
  then have "set words \<subseteq> W" "distinct words" "\<forall>w \<in> set words. length (ix_added ix w) + 1 \<le> N" using ok by auto
  with py_rep_add_fresh [OF r, of words i] py_rep_add_revoked [OF r, of words i] ok show ?thesis
    by (auto simp: DoAdd py_update_client_def)
next
  case (DoDelete i words)
  with py_rep_del [OF r, of words i] ok show ?thesis by (simp add: py_update_client_def)
qed

interpretation py: simulation "py_rep P W nm N" "\<lambda>x s s'. py_op P nm x s = Inr s'" index_op "py_ok W N" for P W nm N
proof (unfold_locales, goal_cases)
  case (1 s ix x)
  then show ?case using py_op_rep by blast
next
  case (2 s ix x s')
  then show ?case using py_op_rep [of P W nm N s ix x] by auto
qed

fun py_ops :: "prims \<Rightarrow> (u64 \<Rightarrow> bytes) \<Rightarrow> op list \<Rightarrow> proto \<Rightarrow> py_error + proto" where
  "py_ops P nm [] s = Inr s"
| "py_ops P nm (x # xs) s = rbind (py_op P nm x s) (py_ops P nm xs)"

lemma runs_py_ops: "py.runs P nm xs s s' \<longleftrightarrow> py_ops P nm xs s = Inr s'"
  by (induction xs arbitrary: s) (auto simp: py.runs_simps rbind_Inr_iff)

definition py_all_ok :: "bytes set \<Rightarrow> nat \<Rightarrow> op list \<Rightarrow> index \<Rightarrow> bool" where
  "py_all_ok W N xs ix \<longleftrightarrow> py.all_ok W N xs ix"

lemma py_all_ok_simps [simp]:
  "py_all_ok W N [] ix = True" "py_all_ok W N (x # xs) ix = (py_ok W N x ix \<and> py_all_ok W N xs (index_op x ix))"
  by (simp_all add: py_all_ok_def)

lemma py_ops_ok: "py_all_ok W N xs ix \<Longrightarrow> ops_ok W xs ix"
proof (induction xs arbitrary: ix)
  case (Cons x xs)
  then show ?case by (cases x) auto
qed simp

lemma py_ops_rep:
  assumes r: "py_rep P W nm N s ix" and ok: "py_all_ok W N xs ix"
  shows "\<exists>s'. py_ops P nm xs s = Inr s' \<and> py_rep P W nm N s' (fold index_op xs ix)"
proof -
  have ok': "py.all_ok W N xs ix" using ok by (simp add: py_all_ok_def)
  obtain s' where s': "py.runs P nm xs s s'" using py.runs_total [OF r ok'] by blast
  have "py_rep P W nm N s' (fold index_op xs ix)" by (rule py.runs_rep [OF s' r ok'])
  with s' show ?thesis by (auto simp: runs_py_ops)
qed

section \<open>Answers given to the wrong words\<close>

text \<open>
  The triples are sorted by label, the words by name. When one of two words is revoked and
  the orders differ, the word that was stored is not counted; its next Add finds the label
  taken and the assertion fails.
\<close>

lemma py_answers_misread:
  assumes r: "py_rep P W nm N s ix" and W: "w \<in> W" "v \<in> W" and wv: "w < v"
    and swapped: "py_label P (pr_Kplus s) v (dec (length (ix_added ix v))) < py_label P (pr_Kplus s) w (dec (length (ix_added ix w)))"
    and rev: "(w, i) \<in> ix_revoked ix" "(v, i) \<notin> ix_revoked ix" "(v, j) \<notin> ix_revoked ix"
  shows "\<exists>s'. py_add P (nm i) [w, v] s = Inr s' \<and> py_add P (nm j) [v] s' = Inl AssertionError"
proof -
  let ?l = "\<lambda>w. py_label P (pr_Kplus s) w (dec (length (ix_added ix w)))"
  have n: "py_count s u = length (ix_added ix u)" "length (ix_added ix u) \<le> N" if "u \<in> W" for u
    using r that by (auto simp: py_rep_def py_holds_def)
  have triple: "py_triple P s (nm k) u = (?l u, nm k, py_label P (pr_Kminus s) u (nm k))" if "u \<in> W" for u k
    using n(1) [OF that] by (simp add: py_triple_def py_label_def py_enc_def del: append_Cons append_Nil)
  have srev: "py_label P (pr_Kminus s) u (nm k) \<in> pr_Srev s \<longleftrightarrow> (u, k) \<in> ix_revoked ix" if "u \<in> W" for u k
    using r that by (simp add: py_rep_def)
  have none: "pr_Dplus s (?l v) = None"
    using r n(2) [OF W(2)] W(2) by (simp add: py_rep_def py_holds_def)
  have order: "sort (map (py_triple P s (nm i)) [w, v]) = [py_triple P s (nm i) v, py_triple P s (nm i) w]"
    using swapped W less_le_not_le [of "?l v" "?l w"] by (auto simp: triple)
  let ?s = "s\<lparr>pr_Dplus := (pr_Dplus s)(?l v \<mapsto> nm i), pr_Srev := pr_Srev s - {py_label P (pr_Kminus s) w (nm i)}\<rparr>"
  have "py_add_server [py_triple P s (nm i) v, py_triple P s (nm i) w] s [] = Inr (?s, [0, 1])"
    using W rev none by (simp add: triple srev)
  moreover have "sort [w, v] = [w, v]" using less_imp_le [OF wv] by simp
  ultimately have run: "py_add P (nm i) [w, v] s = Inr (py_bump ?s (0, w))"
    by (simp only: py_add_def Let_def order) (simp add: py_bump_def)
  have "py_count (py_bump ?s (0, w)) v = length (ix_added ix v)"
    using n(1) [OF W(2)] less_imp_neq [OF wv] by (simp add: py_bump_def py_count_def)
  then have "py_triple P (py_bump ?s (0, w)) (nm j) v = (?l v, nm j, py_label P (pr_Kminus s) v (nm j))"
    by (simp add: py_triple_def py_label_def py_enc_def py_bump_def del: append_Cons append_Nil)
  then have "py_add P (nm j) [v] (py_bump ?s (0, w)) = Inl AssertionError"
    using srev [OF W(2), of j] rev(3) by (simp add: py_add_def py_bump_def)
  with run show ?thesis by blast
qed

end
