(* ===== verification/Toywire.thy ===== *)
theory Toywire
  imports Toy Smoketest Crash Prototype
begin

text \<open>
  A concrete wire format, disk and server for the witnesses: messages are lists of byte
  strings, every byte marked with a 1 and every string closed with a 0; numbers are written
  in unary. It serializes every message and reads back what it wrote.
\<close>

section \<open>Lists of byte strings\<close>

definition flat1 :: "bytes \<Rightarrow> bytes" where
  "flat1 s = concat (map (\<lambda>b. [1, b]) s) @ [0]"

definition flat :: "bytes list \<Rightarrow> bytes" where
  "flat ss = concat (map flat1 ss)"

fun unflat :: "bytes \<Rightarrow> bytes \<Rightarrow> bytes list" where
  "unflat acc [] = []"
| "unflat acc (t # bs) =
     (if t = 0 then acc # unflat [] bs
      else case bs of [] \<Rightarrow> [] | b # bs \<Rightarrow> unflat (acc @ [b]) bs)"

lemma unflat_flat1: "unflat acc (flat1 s @ bs) = (acc @ s) # unflat [] bs"
  by (induction s arbitrary: acc) (simp_all add: flat1_def)

lemma unflat_flat [simp]: "unflat [] (flat ss) = ss"
  by (induction ss) (simp_all add: flat_def unflat_flat1)

definition unary :: "nat \<Rightarrow> bytes" where
  "unary n = replicate n 0"

lemma length_unary [simp]: "length (unary n) = n"
  by (simp add: unary_def)

definition int_string :: "int \<Rightarrow> bytes" where
  "int_string v = (if v < 0 then 1 else 0) # unary (nat \<bar>v\<bar>)"

definition string_int :: "bytes \<Rightarrow> int" where
  "string_int s = (if hd s = 1 then - int (length (tl s)) else int (length (tl s)))"

lemma string_int [simp]: "string_int (int_string v) = v"
  by (simp add: string_int_def int_string_def)

section \<open>Messages\<close>

definition body_strings :: "request_body \<Rightarrow> bytes list" where
  "body_strings b =
     (case b of
        SetupMsg L M \<Rightarrow> [0] # unary (length L) # map sp_Token L @ map sp_FileID L @ M
      | SearchMsg m \<Rightarrow> [[1], k1 m, k2 m, k1plus m, k2plus m, k1minus m]
      | AddMsg L \<Rightarrow> [2] # unary (length L) # map ap_Token L @ map ap_FileID L @ map ap_RevID L
      | DeleteMsg L \<Rightarrow> [3] # L
      | NoMsg \<Rightarrow> [[4]])"

definition strings_body :: "bytes list \<Rightarrow> request_body option" where
  "strings_body ss =
     (case ss of
        [] \<Rightarrow> None
      | tag # ss \<Rightarrow>
          if tag = [0] then
            (case ss of [] \<Rightarrow> None | n # ss \<Rightarrow> let n = length n in
               Some (SetupMsg (map2 (\<lambda>l d. \<lparr>sp_Token = l, sp_FileID = d\<rparr>) (take n ss) (take n (drop n ss)))
                 (drop (2 * n) ss)))
          else if tag = [1] then
            (case ss of [a, b, c, d, e] \<Rightarrow>
               Some (SearchMsg \<lparr>k1 = a, k2 = b, k1plus = c, k2plus = d, k1minus = e\<rparr>)
             | _ \<Rightarrow> None)
          else if tag = [2] then
            (case ss of [] \<Rightarrow> None | n # ss \<Rightarrow> let n = length n in
               Some (AddMsg (map (\<lambda>(l, d, r). \<lparr>ap_Token = l, ap_FileID = d, ap_RevID = r\<rparr>)
                 (zip (take n ss) (zip (take n (drop n ss)) (take n (drop (2 * n) ss)))))))
          else if tag = [3] then Some (DeleteMsg ss)
          else if tag = [4] then Some NoMsg
          else None)"

lemma setup_pairs_back:
  "map2 (\<lambda>l d. \<lparr>sp_Token = l, sp_FileID = d\<rparr>) (map sp_Token L) (map sp_FileID L) = (L :: setup_pair list)"
  by (induction L) simp_all

lemma add_pairs_back:
  "map (\<lambda>(l, d, r). \<lparr>ap_Token = l, ap_FileID = d, ap_RevID = r\<rparr>)
     (zip (map ap_Token L) (zip (map ap_FileID L) (map ap_RevID L))) = (L :: add_pair list)"
  by (induction L) simp_all

lemma strings_body [simp]: "strings_body (body_strings b) = Some b"
proof (cases b)
  case (SetupMsg L M)
  then show ?thesis by (simp add: strings_body_def body_strings_def Let_def setup_pairs_back)
next
  case (SearchMsg m)
  then show ?thesis by (simp add: strings_body_def body_strings_def)
next
  case (AddMsg L)
  then show ?thesis by (simp add: strings_body_def body_strings_def Let_def add_pairs_back)
qed (simp_all add: strings_body_def body_strings_def)

definition result_strings :: "reply_msg \<Rightarrow> bytes list" where
  "result_strings r =
     (case r of SetupResult \<Rightarrow> [[0]] | SearchResult \<Rightarrow> [[1]]
      | AddResult rs \<Rightarrow> [2] # map (\<lambda>b. if b then [1] else []) rs
      | DeleteResult \<Rightarrow> [[3]] | NoResult \<Rightarrow> [[4]])"

definition strings_result :: "bytes list \<Rightarrow> reply_msg option" where
  "strings_result ss =
     (case ss of [] \<Rightarrow> None
      | tag # ss \<Rightarrow>
          if tag = [0] then Some SetupResult else if tag = [1] then Some SearchResult
          else if tag = [2] then Some (AddResult (map (\<lambda>s. s \<noteq> []) ss))
          else if tag = [3] then Some DeleteResult else if tag = [4] then Some NoResult else None)"

lemma strings_result [simp]: "strings_result (result_strings r) = Some r"
  by (cases r) (auto simp: strings_result_def result_strings_def comp_def intro!: map_idI)

definition toy_wire :: wire where
  "toy_wire = \<lparr>
     ser_request = (\<lambda>r. Some (flat (int_string (rq_version r) # body_strings (body r)))),
     parse_request = (\<lambda>bs. case unflat [] bs of [] \<Rightarrow> None
        | v # ss \<Rightarrow> map_option (\<lambda>b. \<lparr>body = b, rq_version = string_int v\<rparr>) (strings_body ss)),
     ser_search = (\<lambda>ids. Some (flat (map (\<lambda>i. unary (unat i)) ids))),
     parse_search = (\<lambda>bs. Some (map (\<lambda>s. of_nat (length s)) (unflat [] bs))),
     ser_result = (\<lambda>r. Some (flat (result_strings r))),
     parse_result = (\<lambda>bs. strings_result (unflat [] bs))\<rparr>"

lemma wire_ok_toy: "wire_ok toy_wire"
  by (auto simp: wire_ok_def toy_wire_def comp_def)

lemma wire_total_toy: "wire_total toy_wire"
  by (simp add: wire_total_def toy_wire_def)

lemma setting_toy: "setting toy toy_wire"
  by (simp add: setting_def prims_ok_toy wire_ok_toy wire_total_toy)

lemma toy_empty_request: "parse_request toy_wire [] = None"
  by (simp add: toy_wire_def)

section \<open>Disk and server\<close>

definition toy_disk :: disk where
  "toy_disk = \<lparr>files = Map.empty, mkdir_ok = (\<lambda>p. True), wopen = (\<lambda>p. True)\<rparr>"

lemma disk_fine_toy [simp]: "disk_fine dir (toy_disk\<lparr>files := fs\<rparr>)" "disk_fine dir toy_disk"
  by (simp_all add: disk_fine_def toy_disk_def)

definition toy_server :: server where
  "toy_server = new_server ''server-state'' toy_disk"

lemma new_core_sized: "server_sized new_core" "Dcount new_core = []" "Srev new_core = []"
  by (simp_all add: server_sized_def new_core_def versions core_inv_def om_inv_empty os_inv_empty map_sized_def)

lemma listening_toy: "listening toy_server"
  by (simp add: listening_def toy_server_def new_server_def waiting_def rep_new_def new_core_sized)

lemma names_sized_empty [simp]: "names_sized []"
  by (simp add: names_sized_def om_inv_empty)

lemma new_client_simps [simp]:
  "cl_core new_client = new_core" "cl_sock new_client = req_new" "fileidMap new_client = []"
  "lastFileid new_client = 0"
  by (simp_all add: new_client_def)

section \<open>Files and shell\<close>

text \<open>Three files on the client's disk.\<close>

definition cats :: bytes where "cats = [0x61]"
definition pets :: bytes where "pets = [0x62]"
definition dogs :: bytes where "dogs = [0x63]"

definition toy_library :: disk where
  "toy_library = toy_disk\<lparr>files := [path_of cats \<mapsto> cat @ [10], path_of pets \<mapsto> cat @ 32 # dog @ [10],
     path_of dogs \<mapsto> dog @ [10]]\<rparr>"

definition toy_shell :: shell where
  "toy_shell = \<lparr>sh_getopt = (\<lambda>argv. ([], tl argv)), sh_connect = (\<lambda>a. True), sh_devs = toy_devs\<rparr>"

lemma shell_ok_toy: "shell_ok toy_shell"
  by (simp add: shell_ok_def toy_shell_def)

lemma fresh_server_toy: "fresh_server toy_server"
  by (simp add: fresh_server_def listening_toy) (simp add: toy_server_def new_server_def new_core_sized)

lemma fresh_keys_toy:
  assumes "\<And>w. w \<in> W \<Longrightarrow> nul_free w \<and> length w \<le> 14"
  shows "fresh_keys toy toy_shell W"
  using draw_keys_toy toy_keys_cf [OF assms, of W toy_keys] by (auto simp: fresh_keys_def toy_shell_def)

lemma toy_names: "cats \<noteq> pets" "cats \<noteq> dogs" "pets \<noteq> dogs" "cats \<noteq> []" "pets \<noteq> []" "dogs \<noteq> []"
  "length cats = 1" "length pets = 1" "length dogs = 1"
  "path_of cats \<noteq> path_of pets" "path_of cats \<noteq> path_of dogs" "path_of pets \<noteq> path_of dogs"
  by (simp_all add: cats_def pets_def dogs_def path_of_def)

lemma toy_library_files:
  "files toy_library (path_of cats) = Some (cat @ [10])"
  "files toy_library (path_of pets) = Some (cat @ 32 # dog @ [10])"
  "files toy_library (path_of dogs) = Some (dog @ [10])"
  using toy_names by (simp_all add: toy_library_def)

lemma toy_spelling: "\<forall>b \<in> set cat. \<not> is_space b" "\<forall>b \<in> set dog. \<not> is_space b" "cat \<noteq> []" "dog \<noteq> []"
  by (simp_all add: cat_def dog_def is_space_def)

lemma toy_words_of: "words_of (cat @ [10]) = [cat]" "words_of (cat @ 32 # dog @ [10]) = [cat, dog]"
  "words_of (dog @ [10]) = [dog]"
  using toy_spelling by (simp_all add: words_of_word is_space_def)

lemma cat_less_dog: "cat < dog" "\<not> dog < cat" "cat \<noteq> dog" "dog \<noteq> cat"
  by (simp_all add: cat_def dog_def)

lemma toy_tokenize:
  "tokenize toy_library cats [] = (True, [cat])" "tokenize toy_library pets [] = (True, [cat, dog])"
  "tokenize toy_library dogs [] = (True, [dog])"
  using cat_less_dog by (simp_all add: tokenize_def toy_library_files toy_words_of)

lemma toy_file_words:
  "file_words toy_library cats = {cat}" "file_words toy_library pets = {cat, dog}"
  "file_words toy_library dogs = {dog}"
  by (simp_all add: file_words_def toy_tokenize)

lemma toy_readable:
  "readable_file toy_library cats" "readable_file toy_library pets" "readable_file toy_library dogs"
  by (simp_all add: readable_file_def toy_library_files)

lemma toy_index_ids:
  "index_inv (index_files toy_library [cats, pets])"
  "ids_of (index_files toy_library [cats, pets]) w = files_with toy_library [cats, pets] w"
  using index_files_ids [of "[cats, pets]" toy_library] toy_readable toy_names by auto

lemma toy_files_with:
  "files_with toy_library [cats, pets] cat = [1, 2]" "files_with toy_library [cats, pets] dog = [2]"
  using cat_less_dog by (simp_all add: files_with_def toy_file_words upt_rec numeral_2_eq_2)

lemma toy_all_tokens: "all_tokens (index_files toy_library [cats, pets]) = [cat, dog]"
  using toy_names cat_less_dog
  by (simp add: index_files_def index_file_def toy_tokenize alloc_fileid_def new_index_def index_word_def
      om_count_def Let_def)

lemma files_ok_toy: "files_ok toy_library {cat, dog} [cats, pets]"
proof -
  have "total_ids (all_tokens (index_files toy_library [cats, pets])) (fi_fileids (index_files toy_library [cats, pets])) = 3"
    using setup_ids_of [OF toy_index_ids(1)]
    by (simp add: total_ids_def toy_all_tokens toy_index_ids(2) toy_files_with)
  then show ?thesis
    using toy_names toy_readable
    by (simp add: files_ok_def toy_file_words)
qed

lemma plain_toy: "plain [cats, pets]" "plain [dogs]" "plain [cat]" "plain [dog]" "plain [dogs, dog]"
  by (simp_all add: plain_def cats_def pets_def dogs_def cat_def dog_def)

section \<open>A deployment and a prototype\<close>

definition toy_index :: index where
  "toy_index = \<lparr>ix_setup = setup_ids toy_tokens toy_files, ix_added = (\<lambda>w. []), ix_revoked = {}\<rparr>"

lemma toy_setup_index: "setup_index toy (toy_keys\<lparr>version := ver\<rparr>) (sv_core toy_server) toy_tokens toy_files = toy_index"
  "setup_index toy (toy_keys\<lparr>version := ver\<rparr>) new_core toy_tokens toy_files = toy_index"
  by (simp_all add: setup_index_def toy_index_def toy_server_def new_server_def)

lemma toy_index_search: "index_search toy_index cat = [1, 2, 3, 4, 5, 6, 7]" "index_search toy_index dog = [2]"
  by (simp_all add: toy_index_def index_search_def toy_ids)

lemma toy_sys_rep:
  "\<exists>sv. sys_rep toy {cat, dog} (new_client\<lparr>cl_core := toy_keys\<lparr>version := Basic\<rparr>\<rparr>, sv) toy_index"
proof -
  obtain L M where run: "SetupClient toy toy_devs (cl_core new_client) Basic toy_tokens toy_files
      = Some (Inr (toy_keys\<lparr>version := Basic\<rparr>, L, M))"
    using toy_setup [of Basic] by auto
  have W: "set toy_tokens \<subseteq> {cat, dog}" by (simp add: toy_tokens_def)
  have "\<exists>sv'. Client_Setup toy toy_wire (server_net toy toy_wire) toy_devs new_client toy_server Basic toy_tokens toy_files
      = Some (Inr (True, new_client\<lparr>cl_core := toy_keys\<lparr>version := Basic\<rparr>\<rparr>, sv'))
    \<and> sys_rep toy {cat, dog} (new_client\<lparr>cl_core := toy_keys\<lparr>version := Basic\<rparr>\<rparr>, sv')
        (setup_index toy (toy_keys\<lparr>version := Basic\<rparr>) (sv_core toy_server) toy_tokens toy_files)"
    using toy_total by (intro sys_setup [OF setting_toy _ listening_toy _ _ _ run W toy_keys_version_cf])
      (simp_all add: new_core_sized om_inv_empty)
  then show ?thesis by (auto simp: toy_setup_index)
qed

lemma toy_label_inj:
  assumes "length w \<le> 14" "length v \<le> 14" "length x < 16" "length y < 16"
    and eq: "py_label toy mk w x = py_label toy mk v y"
  shows "w = v \<and> x = y"
proof -
  have both: "front (of_nat (length x) # x) = front (of_nat (length y) # y)
      \<and> front (toy_mac mk ([0x31] @ w)) = front (toy_mac mk ([0x31] @ v))"
    using eq unfolding py_label_def py_mac_def hmac_toy toy_mac_eq_iff [of _ x _ y] .
  note k = conjunct2 [OF both]
  have "x = y" by (rule toy_mac_message [OF conjunct1 [OF both] assms(3,4)])
  moreover have "[0x31 :: byte] @ w = [0x31] @ v"
    by (rule toy_mac_message [OF k [unfolded front_toy_mac]]) (use assms(1,2) in simp_all)
  ultimately show ?thesis by simp
qed

lemma toy_py_cf:
  assumes "\<And>w. w \<in> W \<Longrightarrow> length w \<le> 14" "\<And>x. x \<in> X \<Longrightarrow> length x < 16"
  shows "py_cf toy mk W X"
  unfolding py_cf_def
proof (rule inj_onI)
  fix p q assume "p \<in> W \<times> X" "q \<in> W \<times> X"
    and "(\<lambda>(w, x). py_label toy mk w x) p = (\<lambda>(w, x). py_label toy mk w x) q"
  then show "p = q"
    using assms toy_label_inj [of "fst p" "fst q" "snd p" "snd q" mk] by (cases p; cases q) simp
qed

lemma toy_py_keys: "py_keys_cf toy {cat, dog} putu64 99 (k, kp, km)"
proof -
  have "length (dec c) < 16" if "c \<le> 99" for c
  proof -
    have "length (dec d) = 1" if "d < 10" for d by (subst dec.simps) (simp add: that)
    then show ?thesis using that by (subst dec.simps) simp
  qed
  then show ?thesis
    using toy_words putu64_inj
    by (auto simp: py_keys_cf_def inj_def intro!: toy_py_cf)
qed

definition toy_py_keys_of :: "bytes \<times> bytes \<times> bytes" where
  "toy_py_keys_of = (replicate KEYLEN 0x21, replicate KEYLEN 0x22, replicate KEYLEN 0x23)"

lemma toy_py_setup:
  "\<exists>s. py_setup toy toy_py_keys_of toy_tokens (\<lambda>w. map_option (map putu64) (om_lookup toy_files w)) = Inr s
    \<and> py_rep toy {cat, dog} putu64 99 s toy_index"
  using toy_py_keys toy_ids
  by (intro py_rep_setup) (auto simp: toy_py_keys_of_def toy_index_def toy_tokens_def setup_ids_def toy_at)

end
