(* ===== verification/Shared.thy ===== *)
theory Shared
  imports Startup
begin

text \<open>
  Several clients, each with its own keys, at one server. The server does not tell them
  apart: it has one \<open>D\<close>, one \<open>Dplus\<close>, one \<open>Srev\<close>. Requests are served one after the other,
  in any order. What one client adds and deletes does not disturb another, as their labels
  differ; the Setup of one takes away what the others were set up with.
\<close>

section \<open>Keys of different clients\<close>

text \<open>
  The assumption on HMAC for two clients: their master keys differ, and no collision among
  the calls that both make.
\<close>

definition key_apart :: "prims \<Rightarrow> bytes set \<Rightarrow> bytes \<Rightarrow> bytes set \<Rightarrow> bytes \<Rightarrow> bool" where
  "key_apart P W m V n \<longleftrightarrow> m \<noteq> n
     \<and> inj_on (\<lambda>(k, x). hmac_sha256 P k x) (mac_calls m (hmac_sha256 P) W \<union> mac_calls n (hmac_sha256 P) V)"

definition apart :: "prims \<Rightarrow> bytes set \<Rightarrow> core \<Rightarrow> bytes set \<Rightarrow> core \<Rightarrow> bool" where
  "apart P W a V b \<longleftrightarrow> key_apart P W (key a) V (key b) \<and> key_apart P W (kplus a) V (kplus b)
     \<and> key_apart P W (kminus a) V (kminus b)"

lemma key_apart_sym: "key_apart P W m V n \<Longrightarrow> key_apart P V n W m"
  by (auto simp: key_apart_def Un_commute)

lemma apart_sym: "apart P W a V b \<Longrightarrow> apart P V b W a"
  by (auto simp: apart_def key_apart_sym)

lemma apart_same: "same_keys a' a \<Longrightarrow> same_keys b' b \<Longrightarrow> apart P W a' V b' = apart P W a V b"
  by (simp add: apart_def same_keys_def)

lemma label_apart:
  assumes a: "key_apart P W m V n" and w: "w \<in> W" and v: "v \<in> V"
  shows "label P m w c \<noteq> label P n v d"
proof
  let ?h = "hmac_sha256 P" and ?calls = "mac_calls m (hmac_sha256 P) W \<union> mac_calls n (hmac_sha256 P) V"
  let ?k = "?h m ([0x31] @ c_str w)" and ?k' = "?h n ([0x31] @ c_str v)"
  have inj: "p = q" if "p \<in> ?calls" "q \<in> ?calls" "(\<lambda>(k, x). ?h k x) p = (\<lambda>(k, x). ?h k x) q" for p q
    using a that unfolding key_apart_def by (meson inj_onD)
  assume "label P m w c = label P n v d"
  then have "(?k, putu64 c) = (?k', putu64 d)"
    using w v by (intro inj) (auto simp: mac_calls_def label_def mac_long_def mac_key_def)
  then have "?k = ?k'" by simp
  then have "(m, [0x31] @ c_str w) = (n, [0x31] @ c_str v)"
    using w v by (intro inj) (auto simp: mac_calls_def)
  with a show False by (simp add: key_apart_def)
qed

section \<open>What does not disturb a client\<close>

definition undisturbed :: "prims \<Rightarrow> bytes set \<Rightarrow> core \<Rightarrow> core \<Rightarrow> core \<Rightarrow> bool" where
  "undisturbed P W cl sv sv' \<longleftrightarrow> version sv' = version sv \<and> D sv' = D sv \<and> A sv' = A sv
     \<and> (os_inv (Srev sv) \<longrightarrow> os_inv (Srev sv'))
     \<and> (\<forall>w \<in> W. \<forall>c. om_lookup (Dplus sv') (label P (kplus cl) w c) = om_lookup (Dplus sv) (label P (kplus cl) w c))
     \<and> (os_inv (Srev sv) \<longrightarrow> (\<forall>w \<in> W. \<forall>i. label P (kminus cl) w i \<in> set (Srev sv') \<longleftrightarrow> label P (kminus cl) w i \<in> set (Srev sv)))"

lemma undisturbed_represents:
  "undisturbed P W cl sv sv' \<Longrightarrow> represents P W cl sv ix \<Longrightarrow> represents P W cl sv' ix"
  unfolding undisturbed_def represents_def updates_hold_def by auto

lemma undisturbed_refl [simp]: "undisturbed P W cl sv sv"
  by (simp add: undisturbed_def)

lemma undisturbed_trans:
  "undisturbed P W cl sv sv1 \<Longrightarrow> undisturbed P W cl sv1 sv2 \<Longrightarrow> undisturbed P W cl sv sv2"
  by (simp add: undisturbed_def)

text \<open>One pair of another client, a list of them, and its Deletes.\<close>

lemma add_step_undisturbed:
  assumes "\<And>w c. w \<in> W \<Longrightarrow> label P (kplus cl) w c \<noteq> ap_Token p"
    and "\<And>w c. w \<in> W \<Longrightarrow> label P (kminus cl) w c \<noteq> ap_RevID p"
  shows "undisturbed P W cl sv (fst (add_server_step (sv, r) p))"
  using assms by (auto simp: undisturbed_def add_server_step_def om_lookup_insert set_os_erase os_inv_erase)

lemma AddServer_undisturbed:
  assumes "\<And>p w c. p \<in> set L \<Longrightarrow> w \<in> W \<Longrightarrow> label P (kplus cl) w c \<noteq> ap_Token p"
    and "\<And>p w c. p \<in> set L \<Longrightarrow> w \<in> W \<Longrightarrow> label P (kminus cl) w c \<noteq> ap_RevID p"
  shows "undisturbed P W cl sv (fst (AddServer sv L))"
proof -
  have "undisturbed P W cl (fst sr) (fst (foldl add_server_step sr L))" for sr
    using assms
  proof (induction L arbitrary: sr)
    case (Cons p L)
    have "undisturbed P W cl (fst sr) (fst (add_server_step sr p))"
      using add_step_undisturbed [of W P cl p "fst sr" "snd sr"] Cons.prems by simp
    moreover have "undisturbed P W cl (fst (add_server_step sr p)) (fst (foldl add_server_step (add_server_step sr p) L))"
      using Cons.prems by (intro Cons.IH) auto
    ultimately show ?case using undisturbed_trans by simp
  qed simp
  from this [of "(sv, [])"] show ?thesis by (simp add: AddServer_def)
qed

lemma add_undisturbed:
  assumes a: "apart P W a V b" and ws: "set words \<subseteq> W" and run: "AddClient P a fid junk words = (c, L, U)"
  shows "undisturbed P V b sv (fst (AddServer sv L))"
proof -
  have "\<exists>w \<in> W. ap_Token p = label P (kplus a) w (dcount a w) \<and> ap_RevID p = label P (kminus a) w fid"
    if p: "p \<in> set L" for p
  proof -
    note pairs = AddClient_pairs [OF run]
    obtain n where n: "n < length L" "L ! n = p" using p by (auto simp: in_set_conv_nth)
    then have "add_pair_for P a fid (U ! n) p" "U ! n \<in> set U"
      using pairs(1) by (auto simp: list_all2_conv_all_nth)
    moreover have "set U = set words" using pairs(2) by (metis set_mset_mset)
    ultimately show ?thesis using ws by (auto simp: add_pair_for_def)
  qed
  with label_apart apart_sym [OF a] show ?thesis
    unfolding apart_def by (intro AddServer_undisturbed) metis+
qed

lemma delete_undisturbed:
  assumes a: "apart P W a V b" and ws: "set words \<subseteq> W"
  shows "undisturbed P V b sv (DeleteServer sv (DeleteClient P a fid words))"
proof -
  have "label P (kminus b) v i \<notin> set (DeleteClient P a fid words)" if "v \<in> V" for v i
    using label_apart apart_sym [OF a] that ws by (fastforce simp: apart_def set_DeleteClient)
  then show ?thesis
    by (auto simp: undisturbed_def DeleteServer_eq os.elems_ins_all os.inv_ins_all)
qed

section \<open>A step of another client\<close>

lemma settled_of_rep: "sys_rep P W (cl, sv) ix \<Longrightarrow> settled sv"
  by (simp add: sys_rep_def)

lemma sys_rep_moved:
  "sys_rep P V (b, sv) ix \<Longrightarrow> settled sv' \<Longrightarrow> represents P V (cl_core b) (sv_core sv') ix \<Longrightarrow> sys_rep P V (b, sv') ix"
  by (simp add: sys_rep_def)

text \<open>A step keeps the keys of the client that takes it, and the tie of every other client.\<close>

lemma step_keys:
  assumes S: "setting P F" and rep: "sys_rep P W (a, sv) ix" and ok: "sys_ok W x ix"
    and step: "sys_step P F x (a, sv) = Some (Inr (True, a', sv'))"
  shows "same_keys (cl_core a') (cl_core a)"
proof -
  have F: "wire_ok F" "wire_total F" "prims_ok P" using S by (auto simp: setting_def)
  show ?thesis
  proof (cases x)
    case (SysAdd fid words junk)
    with sys_add [OF F rep, of fid words junk] ok step show ?thesis by auto
  next
    case (SysDelete fid words)
    with sys_delete [OF F rep, of words fid] ok step show ?thesis by auto
  next
    case (SysSearch w)
    with sys_search [OF F rep, of w] ok step show ?thesis by auto
  next
    case SysRestartServer
    with step show ?thesis by (auto simp: obind_Inr_iff)
  next
    case (SysRestartClient dir d)
    then have "restart_client_process a dir d = Some (Inr (True, reloaded a))"
      using rep ok by (intro client_restart) (auto simp: sys_rep_def)
    with step SysRestartClient show ?thesis by (auto simp: reloaded_def same_keys_def)
  qed
qed

lemma step_others:
  assumes S: "setting P F" and rep: "sys_rep P W (a, sv) ix" and other: "sys_rep P V (b, sv) ix'"
    and a: "apart P W (cl_core a) V (cl_core b)" and ok: "sys_ok W x ix"
    and step: "sys_step P F x (a, sv) = Some (Inr (True, a', sv'))"
  shows "sys_rep P V (b, sv') ix'"
proof -
  have F: "wire_ok F" "wire_total F" "prims_ok P" using S by (auto simp: setting_def)
  have ready: "cl_sock a = req_new" "waiting sv" and st: "settled sv"
    using rep by (auto simp: sys_rep_def settled_def)
  have rb: "represents P V (cl_core b) (sv_core sv) ix'" using other by (simp add: sys_rep_def)
  show ?thesis
  proof (cases x)
    case (SysAdd fid words junk)
    then have ok': "sys_ok W (SysAdd fid words junk) ix" using ok by simp
    obtain c L U c' r c2 where run: "AddClient P (cl_core a) fid junk words = (c, L, U)"
        "AddServer (sv_core sv) L = (c', r)" "AddClient2 c r U = Inr c2" and sized: "server_sized c'"
      and same: "D c' = D (sv_core sv)" "A c' = A (sv_core sv)" "dirtyD c' = dirtyD (sv_core sv)"
      by (rule add_halves [OF F(3) rep ok'])
    have "undisturbed P V (cl_core b) (sv_core sv) c'"
      using add_undisturbed [OF a _ run(1), of "sv_core sv"] ok' by (simp add: run(2))
    then have r': "represents P V (cl_core b) c' ix'" by (rule undisturbed_represents [OF _ rb])
    obtain z where sv': "sv' = save_state (request_of (AddMsg L)) (answered z ((received sv)\<lparr>sv_core := c'\<rparr>))"
      using live.Client_Add_net [OF F(1,2) ready run] step SysAdd by auto
    have "settled sv' \<and> represents P V (cl_core b) (sv_core sv') ix'"
      unfolding sv' using same sized r'
      by (intro settle_represents [OF st refl]) (simp_all add: has_search_def request_of_def)
    with other show ?thesis by (simp add: sys_rep_moved)
  next
    case (SysDelete fid words)
    then have ws: "set words \<subseteq> W" using ok by simp
    let ?L = "DeleteClient P (cl_core a) fid words" let ?c = "DeleteServer (sv_core sv) ?L"
    have r': "represents P V (cl_core b) ?c ix'"
      by (rule undisturbed_represents [OF delete_undisturbed [OF a ws] rb])
    have "server_sized ?c"
      using st DeleteClient_sized [OF F(3)] by (intro server_sized_DeleteServer) (auto simp: settled_def)
    moreover obtain z where sv': "sv' = save_state (request_of (DeleteMsg ?L)) (answered z ((received sv)\<lparr>sv_core := ?c\<rparr>))"
      using live.Client_Delete_net [OF F(1,2) ready refl, of P fid words] step SysDelete by auto
    ultimately have "settled sv' \<and> represents P V (cl_core b) (sv_core sv') ix'"
      unfolding sv' using r'
      by (intro settle_represents [OF st refl]) (simp_all add: DeleteServer_eq has_search_def request_of_def)
    with other show ?thesis by (simp add: sys_rep_moved)
  next
    case (SysSearch w)
    then have "w \<in> W" using ok by simp
    then have "SearchServer P (sv_core sv) (SearchClient P (cl_core a) w) = Some (Inr (index_search ix w))"
      using rep by (intro represents_search) (auto simp: sys_rep_def)
    from live.Client_Search_net [OF F(1,2) ready F(3) this] step SysSearch
    obtain z where sv': "sv' = answered z (received sv)" by auto
    have "settled sv'" using st by (simp add: sv' settled_def)
    with other rb show ?thesis by (simp add: sys_rep_moved sv')
  next
    case SysRestartServer
    with step sys_restart_server [OF other] show ?thesis by (auto simp: obind_Inr_iff)
  next
    case (SysRestartClient dir d)
    with step other show ?thesis by (auto simp: obind_Inr_iff)
  qed
qed

section \<open>Interleaved runs\<close>

text \<open>Client \<open>i\<close> takes the step \<open>x\<close>; a restart of the server may stand with any of them.\<close>

definition many_step ::
  "prims \<Rightarrow> wire \<Rightarrow> nat \<times> sys_op \<Rightarrow> (nat \<Rightarrow> client) \<times> server \<Rightarrow> (err + bool \<times> (nat \<Rightarrow> client) \<times> server) option" where
  "many_step P F = (\<lambda>(i, x) (cls, sv).
     obind (sys_step P F x (cls i, sv)) (\<lambda>(ok, cl, sv). Some (Inr (ok, cls(i := cl), sv))))"

fun many_run ::
  "prims \<Rightarrow> wire \<Rightarrow> (nat \<times> sys_op) list \<Rightarrow> (nat \<Rightarrow> client) \<times> server \<Rightarrow> (err + (nat \<Rightarrow> client) \<times> server) option" where
  "many_run P F [] s = Some (Inr s)"
| "many_run P F (x # xs) s =
     obind (many_step P F x s) (\<lambda>(ok, s). if ok then many_run P F xs s else Some (Inl (Exit 1)))"

definition many_rep ::
  "prims \<Rightarrow> nat set \<Rightarrow> (nat \<Rightarrow> bytes set) \<Rightarrow> (nat \<Rightarrow> client) \<times> server \<Rightarrow> (nat \<Rightarrow> index) \<Rightarrow> bool" where
  "many_rep P I W s ixs \<longleftrightarrow> (case s of (cls, sv) \<Rightarrow>
     (\<forall>i \<in> I. sys_rep P (W i) (cls i, sv) (ixs i))
     \<and> (\<forall>i \<in> I. \<forall>j \<in> I. i \<noteq> j \<longrightarrow> apart P (W i) (cl_core (cls i)) (W j) (cl_core (cls j))))"

definition many_index :: "nat \<times> sys_op \<Rightarrow> (nat \<Rightarrow> index) \<Rightarrow> nat \<Rightarrow> index" where
  "many_index = (\<lambda>(i, x) ixs. ixs(i := index_sys x (ixs i)))"

definition many_ok :: "nat set \<Rightarrow> (nat \<Rightarrow> bytes set) \<Rightarrow> nat \<times> sys_op \<Rightarrow> (nat \<Rightarrow> index) \<Rightarrow> bool" where
  "many_ok I W = (\<lambda>(i, x) ixs. i \<in> I \<and> sys_ok (W i) x (ixs i))"

lemma many_step_rep:
  assumes S: "setting P F" and rep: "many_rep P I W (cls, sv) ixs" and ok: "many_ok I W (i, x) ixs"
  shows "\<exists>s'. many_step P F (i, x) (cls, sv) = Some (Inr (True, s')) \<and> many_rep P I W s' (many_index (i, x) ixs)"
proof -
  have F: "wire_ok F" "wire_total F" "prims_ok P" using S by (auto simp: setting_def)
  have i: "i \<in> I" "sys_ok (W i) x (ixs i)" using ok by (simp_all add: many_ok_def)
  have r: "sys_rep P (W j) (cls j, sv) (ixs j)" if "j \<in> I" for j using rep that by (simp add: many_rep_def)
  obtain cl sv' where step: "sys_step P F x (cls i, sv) = Some (Inr (True, cl, sv'))"
    "sys_rep P (W i) (cl, sv') (index_sys x (ixs i))"
    using sys_step_rep [OF F r [OF i(1)] i(2)] by auto
  have ap: "apart P (W j) (cl_core (cls j)) (W k) (cl_core (cls k))" if "j \<in> I" "k \<in> I" "j \<noteq> k" for j k
    using rep that by (simp add: many_rep_def)
  have keys: "same_keys (cl_core cl) (cl_core (cls i))" by (rule step_keys [OF S r [OF i(1)] i(2) step(1)])
  have "sys_rep P (W j) (cls j, sv') (ixs j)" if "j \<in> I" "j \<noteq> i" for j
    using step_others [OF S r [OF i(1)] r [OF that(1)] _ i(2) step(1)] ap i(1) that by auto
  moreover have "apart P (W j) (cl_core ((cls(i := cl)) j)) (W k) (cl_core ((cls(i := cl)) k))"
    if "j \<in> I" "k \<in> I" "j \<noteq> k" for j k
    using ap [OF that] apart_same keys by (metis fun_upd_apply same_keys_refl)
  ultimately have "many_rep P I W (cls(i := cl), sv') (many_index (i, x) ixs)"
    using step(2) by (simp add: many_rep_def many_index_def)
  with step(1) show ?thesis by (simp add: many_step_def)
qed

definition many_tie :: "prims \<Rightarrow> wire \<Rightarrow> nat set \<Rightarrow> (nat \<Rightarrow> bytes set) \<Rightarrow> (nat \<Rightarrow> client) \<times> server \<Rightarrow> (nat \<Rightarrow> index) \<Rightarrow> bool" where
  "many_tie P F I W s ixs \<longleftrightarrow> setting P F \<and> many_rep P I W s ixs"

interpretation shared: simulation "many_tie P F I W" "\<lambda>x s s'. many_step P F x s = Some (Inr (True, s'))"
  many_index "many_ok I W" for P F I W
proof (unfold_locales, goal_cases)
  case (1 s ixs x)
  then show ?case using many_step_rep [of P F I W "fst s" "snd s" ixs "fst x" "snd x"] by (auto simp: many_tie_def)
next
  case (2 s ixs x s')
  then show ?case using many_step_rep [of P F I W "fst s" "snd s" ixs "fst x" "snd x"] by (auto simp: many_tie_def)
qed

lemma runs_many_run: "shared.runs P F xs s s' \<Longrightarrow> many_run P F xs s = Some (Inr s')"
  by (induction rule: shared.runs.induct) simp_all

text \<open>The steps of client \<open>i\<close> alone, and that they are all that its index sees.\<close>

definition own :: "nat \<Rightarrow> (nat \<times> sys_op) list \<Rightarrow> sys_op list" where
  "own i xs = map snd (filter (\<lambda>x. fst x = i) xs)"

lemma own_simps [simp]: "own i [] = []" "own i ((j, x) # xs) = (if j = i then x # own i xs else own i xs)"
  by (simp_all add: own_def)

lemma fold_many_index: "fold many_index xs ixs i = fold index_sys (own i xs) (ixs i)"
  by (induction xs arbitrary: ixs) (auto simp: many_index_def)

lemma many_all_ok:
  "shared.all_ok I W xs ixs \<longleftrightarrow> fst ` set xs \<subseteq> I \<and> (\<forall>i \<in> I. sys_all_ok (W i) (own i xs) (ixs i))"
proof (induction xs arbitrary: ixs)
  case (Cons x xs)
  obtain i y where x: "x = (i, y)" by fastforce
  have "shared.all_ok I W (x # xs) ixs \<longleftrightarrow> many_ok I W x ixs \<and> fst ` set xs \<subseteq> I
      \<and> (\<forall>j \<in> I. sys_all_ok (W j) (own j xs) (many_index x ixs j))"
    by (simp only: shared.all_ok.simps Cons.IH)
  then show ?case by (auto simp: x many_ok_def many_index_def)
qed (simp add: own_def)

lemma many_run_tie:
  assumes S: "setting P F" and rep: "many_rep P I W s ixs" and xs: "fst ` set xs \<subseteq> I"
    and ok: "\<And>i. i \<in> I \<Longrightarrow> sys_all_ok (W i) (own i xs) (ixs i)"
  shows "\<exists>s'. many_run P F xs s = Some (Inr s') \<and> many_rep P I W s' (\<lambda>i. fold index_sys (own i xs) (ixs i))"
proof -
  have r: "many_tie P F I W s ixs" and all: "shared.all_ok I W xs ixs"
    using S rep xs ok by (simp_all add: many_tie_def many_all_ok)
  obtain s' where s': "shared.runs P F xs s s'" using shared.runs_total [OF r all] by blast
  have "fold many_index xs ixs = (\<lambda>i. fold index_sys (own i xs) (ixs i))" by (rule ext) (rule fold_many_index)
  with shared.runs_rep [OF s' r all] runs_many_run [OF s'] show ?thesis by (auto simp: many_tie_def)
qed

section \<open>The Setup of one client\<close>

text \<open>What the others are left with: what they added is gone too, so nothing may have been added.\<close>

definition without_setup :: "index \<Rightarrow> index" where
  "without_setup ix = ix\<lparr>ix_setup := (\<lambda>w. [])\<rparr>"

lemma setup_others:
  assumes r: "represents P V b sv ix" and a: "key_apart P W (key c) V (key b)"
    and pairs: "pairs_hold P ver M (key c) W ids L" and M: "length M < 2 ^ 64"
    and ver: "version sv = ver" and none: "\<And>v. v \<in> V \<Longrightarrow> ix_added ix v = []"
  shows "represents P V b (SetupServer sv ver L M) (without_setup ix)"
proof -
  let ?sv = "SetupServer sv ver L M"
  have "om_lookup (D ?sv) (label P (key b) v n) = None" if v: "v \<in> V" for v n
  proof (rule ccontr)
    assume "om_lookup (D ?sv) (label P (key b) v n) \<noteq> None"
    then obtain p where p: "p \<in> set L" "sp_Token p = label P (key b) v n"
      using setup_lookup_Some by blast
    then obtain w k where "w \<in> W" "sp_Token p = label P (key c) w k"
      using pairs unfolding pairs_hold_def by blast
    with p label_apart [OF a] v show False by metis
  qed
  then have "holds P ver (A ?sv) (key b) (D ?sv) v []" if "v \<in> V" for v
    using that unfolding holds_def by (intro exI [of _ "[]"]) simp
  moreover have "version ?sv = ver" "A ?sv = M" "Dplus ?sv = []" "Srev ?sv = Srev sv"
    by (simp_all add: SetupServer_eq)
  ultimately show ?thesis
    using r ver M none unfolding represents_def updates_hold_def without_setup_def by auto
qed

lemma many_setup:
  assumes S: "setting P F" and rep: "many_rep P I W (cls, sv) ixs" and j: "j \<notin> I"
    and ready: "cl_sock (cls j) = req_new" "listening sv"
    and cl: "om_inv (Dcount (cl_core (cls j)))" "\<forall>(w, c) \<in> set (Dcount (cl_core (cls j))). length w < 2 ^ 47"
      "names_sized (fileidMap (cls j))"
    and run: "SetupClient P devs (cl_core (cls j)) ver tokens fileids = Some (Inr (c, L, M))"
    and W: "set tokens \<subseteq> W j" and cf: "keys_cf P (W j) c"
    and valid: "ver = Basic \<or> (\<forall>w \<in> set tokens. INVALID \<notin> set (setup_ids tokens fileids w))"
    and len: "total_ids tokens fileids + 1 < 2 ^ 64"
    and fresh: "\<And>w. w \<in> W j \<Longrightarrow> dcount (cl_core (cls j)) w = 0"
    and ap: "\<And>i. i \<in> I \<Longrightarrow> apart P (W j) c (W i) (cl_core (cls i))"
    and ver: "version (sv_core sv) = ver" and none: "\<And>i v. i \<in> I \<Longrightarrow> v \<in> W i \<Longrightarrow> ix_added (ixs i) v = []"
  shows "\<exists>sv'. Client_Setup P F (server_net P F) devs (cls j) sv ver tokens fileids
      = Some (Inr (True, (cls j)\<lparr>cl_core := c\<rparr>, sv'))
    \<and> many_rep P (insert j I) W (cls(j := (cls j)\<lparr>cl_core := c\<rparr>), sv')
        ((\<lambda>i. without_setup (ixs i))(j := setup_index P c (sv_core sv) tokens fileids))"
proof -
  obtain sv' where sv': "Client_Setup P F (server_net P F) devs (cls j) sv ver tokens fileids
      = Some (Inr (True, (cls j)\<lparr>cl_core := c\<rparr>, sv'))"
    "sys_rep P (W j) ((cls j)\<lparr>cl_core := c\<rparr>, sv') (setup_index P c (sv_core sv) tokens fileids)"
    and core: "sv_core sv' = (SetupServer (sv_core sv) ver L M)\<lparr>dirtyD := False\<rparr>"
    using sys_setup_core [OF S ready cl run W cf valid len fresh] by blast
  have M: "length M < 2 ^ 64" using SetupClient_returned [OF run] len by simp
  have pairs: "pairs_hold P ver M (key c) (W j) (setup_ids tokens fileids) L"
    using SetupClient_pairs_hold [OF run W valid M] by simp
  have "sys_rep P (W i) (cls i, sv') (without_setup (ixs i))" if i: "i \<in> I" for i
  proof -
    have r: "sys_rep P (W i) (cls i, sv) (ixs i)" using rep i by (simp add: many_rep_def)
    have "represents P (W i) (cl_core (cls i)) (sv_core sv) (ixs i)" using r by (simp add: sys_rep_def)
    then have "represents P (W i) (cl_core (cls i)) (sv_core sv') (without_setup (ixs i))"
      using ap [OF i] none [OF i] unfolding core represents_dirty
      by (intro setup_others [OF _ _ pairs M ver]) (simp_all add: apart_def)
    with r settled_of_rep [OF sv'(2)] show ?thesis by (simp add: sys_rep_def)
  qed
  then have "many_rep P (insert j I) W (cls(j := (cls j)\<lparr>cl_core := c\<rparr>), sv')
      ((\<lambda>i. without_setup (ixs i))(j := setup_index P c (sv_core sv) tokens fileids))"
    using rep sv'(2) ap apart_sym [OF ap] j by (auto simp: many_rep_def)
  with sv'(1) show ?thesis by blast
qed

text \<open>A first client, at a server with nobody.\<close>

lemma many_rep_single: "sys_rep P (W i) (cls i, sv) (ixs i) \<Longrightarrow> many_rep P {i} W (cls, sv) ixs"
  by (simp add: many_rep_def)

lemma many_rep_search:
  assumes S: "setting P F" and rep: "many_rep P I W (cls, sv) ixs" and i: "i \<in> I" "w \<in> W i"
  shows "\<exists>sv'. Client_Search P F (server_net P F) (cls i) sv w = Some (Inr (got_response, index_search (ixs i) w, cls i, sv'))"
proof -
  have F: "wire_ok F" "wire_total F" "prims_ok P" using S by (auto simp: setting_def)
  have "sys_rep P (W i) (cls i, sv) (ixs i)" using rep i by (simp add: many_rep_def)
  from sys_search [OF F this i(2)] show ?thesis by blast
qed

section \<open>Two clients\<close>

text \<open>
  The first client sets itself up, then the second, then both go on in any order. The
  second has its index; the first has lost its own, and finds what it adds from then on.
\<close>

lemma two_clients:
  assumes S: "setting P F" and sv: "listening sv"
    and run0: "SetupClient P devs0 new_core ver toks0 files0 = Some (Inr (c0, L0, M0))"
    and run1: "SetupClient P devs1 new_core ver toks1 files1 = Some (Inr (c1, L1, M1))"
    and W: "set toks0 \<subseteq> W 0" "set toks1 \<subseteq> W 1" and cf: "keys_cf P (W 0) c0" "keys_cf P (W 1) c1"
    and valid0: "ver = Basic \<or> (\<forall>w \<in> set toks0. INVALID \<notin> set (setup_ids toks0 files0 w))"
    and valid1: "ver = Basic \<or> (\<forall>w \<in> set toks1. INVALID \<notin> set (setup_ids toks1 files1 w))"
    and len: "total_ids toks0 files0 + 1 < 2 ^ 64" "total_ids toks1 files1 + 1 < 2 ^ 64"
    and ap: "apart P (W 1) c1 (W 0) c0"
    and ixs: "ixs 0 = without_setup (setup_index P c0 (sv_core sv) toks0 files0)"
      "ixs 1 = setup_index P c1 (sv_core sv) toks1 files1"
    and xs: "fst ` set xs \<subseteq> {0, 1}" and ok: "\<And>i. i \<in> {0, 1} \<Longrightarrow> sys_all_ok (W i) (own i xs) (ixs i)"
  shows "\<exists>cl0 sv0 cl1 sv1 cls' sv'.
      Client_Setup P F (server_net P F) devs0 new_client sv ver toks0 files0 = Some (Inr (True, cl0, sv0))
    \<and> Client_Setup P F (server_net P F) devs1 new_client sv0 ver toks1 files1 = Some (Inr (True, cl1, sv1))
    \<and> many_run P F xs (\<lambda>i. if i = 0 then cl0 else cl1, sv1) = Some (Inr (cls', sv'))
    \<and> many_rep P {0, 1} W (cls', sv') (\<lambda>i. fold index_sys (own i xs) (ixs i))"
proof -
  let ?cl0 = "new_client\<lparr>cl_core := c0\<rparr>" and ?cl1 = "new_client\<lparr>cl_core := c1\<rparr>"
  have new: "cl_core new_client = new_core" "cl_sock new_client = req_new" "fileidMap new_client = []"
    "Dcount new_core = []"
    by (simp_all add: new_client_def new_core_def)
  then have fresh: "om_inv (Dcount (cl_core new_client))" "\<forall>(w, c) \<in> set (Dcount (cl_core new_client)). length w < 2 ^ 47"
    "names_sized (fileidMap new_client)" "dcount (cl_core new_client) w = 0" for w
    by (simp_all add: om_inv_empty names_sized_def dcount_def)
  have run0': "SetupClient P devs0 (cl_core new_client) ver toks0 files0 = Some (Inr (c0, L0, M0))"
    and run1': "SetupClient P devs1 (cl_core new_client) ver toks1 files1 = Some (Inr (c1, L1, M1))"
    using run0 run1 by (simp_all add: new)
  let ?ix0 = "setup_index P c0 (sv_core sv) toks0 files0"
  obtain sv0 where sv0: "Client_Setup P F (server_net P F) devs0 new_client sv ver toks0 files0 = Some (Inr (True, ?cl0, sv0))"
    "sys_rep P (W 0) (?cl0, sv0) ?ix0" and core: "sv_core sv0 = (SetupServer (sv_core sv) ver L0 M0)\<lparr>dirtyD := False\<rparr>"
    using sys_setup_core [OF S new(2) sv fresh(1-3) run0' W(1) cf(1) valid0 len(1) fresh(4)] by blast
  let ?cls = "\<lambda>i :: nat. if i = 0 then ?cl0 else new_client"
  have rep0: "many_rep P {0} W (?cls, sv0) (\<lambda>i. ?ix0)" using sv0(2) by (intro many_rep_single) simp
  have sv0': "listening sv0" "version (sv_core sv0) = ver" "Srev (sv_core sv0) = Srev (sv_core sv)"
    using settled_of_rep [OF sv0(2)] core by (simp_all add: listening_def settled_def SetupServer_eq)
  have ix1: "setup_index P c1 (sv_core sv0) toks1 files1 = setup_index P c1 (sv_core sv) toks1 files1"
    by (simp add: setup_index_def sv0'(3))
  have "\<exists>sv'. Client_Setup P F (server_net P F) devs1 (?cls 1) sv0 ver toks1 files1
      = Some (Inr (True, (?cls 1)\<lparr>cl_core := c1\<rparr>, sv'))
    \<and> many_rep P (insert 1 {0}) W (?cls(1 := (?cls 1)\<lparr>cl_core := c1\<rparr>), sv')
        ((\<lambda>i. without_setup ?ix0)(1 := setup_index P c1 (sv_core sv0) toks1 files1))"
    by (rule many_setup [OF S rep0 _ _ sv0'(1) _ _ _ _ W(2) cf(2) valid1 len(2) _ _ sv0'(2)])
      (use fresh new run1 ap in \<open>auto simp: setup_index_def\<close>)
  then obtain sv1 where sv1: "Client_Setup P F (server_net P F) devs1 new_client sv0 ver toks1 files1 = Some (Inr (True, ?cl1, sv1))"
    and rep1: "many_rep P {0, 1} W (?cls(1 := ?cl1), sv1) ((\<lambda>i. without_setup ?ix0)(1 := ixs 1))"
    by (auto simp: ix1 ixs(2) [unfolded One_nat_def] insert_commute)
  have "many_rep P {0, 1} W (\<lambda>i. if i = 0 then ?cl0 else ?cl1, sv1) ixs"
    using rep1 by (simp add: many_rep_def ixs(1))
  then obtain s' where s': "many_run P F xs (\<lambda>i. if i = 0 then ?cl0 else ?cl1, sv1) = Some (Inr s')"
    "many_rep P {0, 1} W s' (\<lambda>i. fold index_sys (own i xs) (ixs i))"
    using many_run_tie [OF S _ xs ok] by blast
  obtain cls' sv' where "s' = (cls', sv')" by fastforce
  with s' show ?thesis
    by (intro exI conjI) (rule sv0(1), rule sv1, simp_all)
qed

end
