(* ===== verification/Tornfiles.thy ===== *)
theory Tornfiles
  imports Restart
begin

text \<open>
  Files that were cut off. A process that is killed while it writes a file leaves the first
  bytes of what it meant to write. For each kind of file that is rewritten while the program
  runs this theory says what reading such a file gives. The locale \<open>torn_file\<close> extends the
  contract \<open>record_file\<close> between writer and reader with what a cut record does.
\<close>

section \<open>Cut records\<close>

locale torn_file = record_file step valid enc sep add fin
  for step :: "'m body" and valid :: "'r \<Rightarrow> bool" and enc :: "'r \<Rightarrow> bytes" and sep :: bytes
    and add :: "'r \<Rightarrow> 'm \<Rightarrow> 'm" and fin :: "'m \<Rightarrow> 'm" +
  fixes cut :: "'r \<Rightarrow> nat \<Rightarrow> 'm \<Rightarrow> bool \<times> 'm"
  assumes read_cut: "valid r \<Longrightarrow> ws \<in> {[], sep} \<Longrightarrow> k < length (enc r @ sep) \<Longrightarrow>
      read_loop step (istream_on (ws @ take k (enc r @ sep))) m = Some (Inr (cut r k m))"
begin

text \<open>
  The first \<open>n\<close> bytes of a file: the records that are there as a whole, and then the end of
  the file or a cut record.
\<close>

lemma read_torn_from:
  "(\<forall>r \<in> set rs. valid r) \<Longrightarrow> ws \<in> {[], sep} \<Longrightarrow>
   (\<exists>j k. j < length rs \<and> k < length (enc (rs ! j) @ sep)
      \<and> n = length (concat (map (\<lambda>r. enc r @ sep) (take j rs))) + k
      \<and> read_loop step (istream_on (ws @ take n (concat (map (\<lambda>r. enc r @ sep) rs)))) m
        = Some (Inr (cut (rs ! j) k (foldl (\<lambda>m r. add r m) m (take j rs)))))
   \<or> (length (concat (map (\<lambda>r. enc r @ sep) rs)) \<le> n
      \<and> read_loop step (istream_on (ws @ take n (concat (map (\<lambda>r. enc r @ sep) rs)))) m
        = Some (Inr (True, fin (foldl (\<lambda>m r. add r m) m rs))))"
proof (induction rs arbitrary: ws m n)
  case Nil
  then obtain i where "step (istream_on ws) m = Inr (Some True, fin m, i)" using step_end by blast
  then have "read_loop step (istream_on ws) m = Some (Inr (True, fin m))" by (subst read_loop.simps) simp
  then show ?case by simp
next
  case (Cons r rs)
  let ?file = "\<lambda>rs. concat (map (\<lambda>r. enc r @ sep) rs)" and ?r = "enc r @ sep"
  show ?case
  proof (cases "n < length ?r")
    case True
    then have "take n (?file (r # rs)) = take n ?r" by simp
    moreover have "read_loop step (istream_on (ws @ take n ?r)) m = Some (Inr (cut r n m))"
      using Cons.prems True by (intro read_cut) simp_all
    ultimately have "read_loop step (istream_on (ws @ take n (?file (r # rs)))) m = Some (Inr (cut r n m))" by (simp only:)
    then show ?thesis using True by (intro disjI1 exI [of _ 0] exI [of _ n]) simp
  next
    case False
    let ?n = "n - length ?r" and ?rest = "take (n - length ?r) (?file rs)"
    have split: "take n (?file (r # rs)) = enc r @ sep @ ?rest" using False by simp
    have "step (istream_on (ws @ enc r @ sep @ ?rest)) m = Inr (None, add r m, istream_on (sep @ ?rest))"
      using Cons.prems by (intro step_record) simp_all
    then have first: "read_loop step (istream_on (ws @ take n (?file (r # rs)))) m
        = read_loop step (istream_on (sep @ ?rest)) (add r m)"
      unfolding split by (subst read_loop.simps) simp
    have "(\<exists>j k. j < length rs \<and> k < length (enc (rs ! j) @ sep) \<and> ?n = length (?file (take j rs)) + k
          \<and> read_loop step (istream_on (sep @ ?rest)) (add r m)
            = Some (Inr (cut (rs ! j) k (foldl (\<lambda>m r. add r m) (add r m) (take j rs)))))
        \<or> (length (?file rs) \<le> ?n
          \<and> read_loop step (istream_on (sep @ ?rest)) (add r m)
            = Some (Inr (True, fin (foldl (\<lambda>m r. add r m) (add r m) rs))))"
      using Cons.prems by (intro Cons.IH) simp_all
    then show ?thesis
    proof (elim disjE exE conjE)
      fix j k assume "j < length rs" "k < length (enc (rs ! j) @ sep)" "?n = length (?file (take j rs)) + k"
        "read_loop step (istream_on (sep @ ?rest)) (add r m)
            = Some (Inr (cut (rs ! j) k (foldl (\<lambda>m r. add r m) (add r m) (take j rs))))"
      then show ?thesis using False first by (intro disjI1 exI [of _ "Suc j"] exI [of _ k]) simp
    next
      assume "length (?file rs) \<le> ?n" "read_loop step (istream_on (sep @ ?rest)) (add r m)
            = Some (Inr (True, fin (foldl (\<lambda>m r. add r m) (add r m) rs)))"
      then show ?thesis using False first by (intro disjI2) simp
    qed
  qed
qed

lemma read_torn:
  assumes "\<forall>r \<in> set rs. valid r"
  obtains (cut) j k where "j < length rs" "k < length (enc (rs ! j) @ sep)"
      "n = length (concat (map (\<lambda>r. enc r @ sep) (take j rs))) + k"
      "read_loop step (istream_on (take n (concat (map (\<lambda>r. enc r @ sep) rs)))) m
        = Some (Inr (cut (rs ! j) k (foldl (\<lambda>m r. add r m) m (take j rs))))"
    | (all) "length (concat (map (\<lambda>r. enc r @ sep) rs)) \<le> n"
      "read_loop step (istream_on (take n (concat (map (\<lambda>r. enc r @ sep) rs)))) m
        = Some (Inr (True, fin (foldl (\<lambda>m r. add r m) m rs)))"
  using read_torn_from [OF assms, of "[]" n m] by auto

end

section \<open>Netstrings that were cut off\<close>

lemma read_u64_digits:
  assumes "\<forall>b \<in> set ws. is_space b" "\<forall>b \<in> set ds. is_digit b" "ds \<noteq> []" "dec_value ds < 2 ^ 64"
  shows "read_u64 (istream_on (ws @ ds)) = (Some (of_nat (dec_value ds)), \<lparr>buf = [], eofbit = True, failbit = False\<rparr>)"
proof -
  have hd: "is_digit (hd ds)" using assms(2,3) by simp
  have "skip_ws (istream_on (ws @ ds)) = istream_on ds"
    using assms(3) digit_not_space [OF hd] by (intro skip_ws_spaces [OF assms(1)]) simp_all
  moreover have "takeWhile is_digit ds = ds" "dropWhile is_digit ds = []"
    using assms(2) by (simp_all add: takeWhile_eq_all_conv dropWhile_eq_Nil_conv)
  then have "scan_number ds = (False, ds, [])"
    using digit_not_sign [OF hd] assms(3) by (cases ds) (auto simp: scan_number_def)
  ultimately show ?thesis using assms(3,4) by (simp add: read_u64_def)
qed

lemma read_u64_digits_eof:
  assumes "\<forall>b \<in> set ws. is_space b" "\<forall>b \<in> set ds. is_digit b"
  shows "\<exists>v i. read_u64 (istream_on (ws @ ds)) = (v, i) \<and> eofbit i"
proof (cases "ds = []")
  case True
  then show ?thesis using skip_ws_end [OF assms(1)] by (simp add: read_u64_def good_def)
next
  case False
  have hd: "is_digit (hd ds)" using assms(2) False by simp
  have "skip_ws (istream_on (ws @ ds)) = istream_on ds"
    using False digit_not_space [OF hd] by (intro skip_ws_spaces [OF assms(1)]) simp_all
  moreover have "takeWhile is_digit ds = ds" "dropWhile is_digit ds = []"
    using assms(2) by (simp_all add: takeWhile_eq_all_conv dropWhile_eq_Nil_conv)
  then have "scan_number ds = (False, ds, [])"
    using digit_not_sign [OF hd] False by (cases ds) (auto simp: scan_number_def)
  ultimately show ?thesis by (auto simp: read_u64_def Let_def)
qed

lemma read_failed: "\<not> good i \<Longrightarrow> read_char i = (None, i\<lparr>failbit := True\<rparr>)"
  by (simp add: read_char_def skip_ws_def) (simp add: good_def)

text \<open>A netstring that is cut in its number ends the file; one that is cut behind it is refused.\<close>

lemma readString_cut:
  assumes ws: "\<forall>b \<in> set ws. is_space b" and len: "length s < 2 ^ 47" and k: "k < length (writeString s)"
  shows "if k \<le> length (dec (length s))
    then \<exists>i. readString (istream_on (ws @ take k (writeString s))) [] = Inr (True, [], i) \<and> eofbit i
    else \<exists>v i. readString (istream_on (ws @ take k (writeString s))) [] = Inr (False, v, i)"
proof (cases "k \<le> length (dec (length s))")
  case True
  then have take: "take k (writeString s) = take k (dec (length s))" by (simp add: writeString_def)
  have "\<forall>b \<in> set (take k (dec (length s))). is_digit b" using dec_digits by (auto dest: in_set_takeD)
  from read_u64_digits_eof [OF ws this] True show ?thesis by (auto simp: take readString_def)
next
  case False
  define t where "t = take (k - length (dec (length s)) - 1) (s @ [0x2C])"
  have "k - length (dec (length s)) = Suc (k - length (dec (length s)) - 1)" using False by simp
  then have take: "take k (writeString s) = dec (length s) @ 0x3A # t"
    using False by (simp add: writeString_def take_Cons' t_def)
  have t: "length t \<le> length s" using k by (simp add: writeString_def t_def)
  have colon: "ends_number (0x3A # t)" by (simp add: ends_number_def is_digit_def word_le_nat_alt)
  have num: "read_u64 (istream_on (ws @ take k (writeString s))) = (Some (of_nat (length s)), istream_on (0x3A # t))"
    using read_u64_dec [OF ws _ colon, of "length s"] len by (simp add: take)
  have c0: "read_char (istream_on (0x3A # t)) = (Some 0x3A, istream_on t)"
    by (simp add: read_char_here is_space_def word_le_nat_alt)
  obtain got i where got: "in_read (length s) (istream_on t) = (got, i)" by fastforce
  have "failbit (snd (read_char i))"
  proof (cases "length t = length s")
    case True
    then have "i = istream_on []" using in_read_exact [OF True, of "[]"] got by simp
    then show ?thesis by (simp add: read_char_def skip_ws_end [of "[]", simplified] good_def)
  next
    case False
    then have "length t < length s" using t by simp
    then have "\<not> good i" using got by (auto simp: in_read_def good_def)
    then show ?thesis by (simp add: read_failed)
  qed
  then obtain c1 i' where "read_char i = (c1, i')" "failbit i'" by (metis prod.collapse)
  then show ?thesis
    using False len by (auto simp: readString_def num c0 got unat_of_nat_u64)
qed

section \<open>D and Dplus\<close>

text \<open>Cut inside a key the map counts as complete, cut behind it as damaged.\<close>

lemma readMap_cut_loop:
  assumes "length k = KEYLEN" "length v < 2 ^ 47" "n < length (k @ writeString v)"
  shows "read_loop readMap_body (istream_on (take n (k @ writeString v))) m = Some (Inr (n < KEYLEN, m))"
proof (cases "n < KEYLEN")
  case True
  then have "take n (k @ writeString v) = take n k" "length (take n k) < KEYLEN" using assms(1) by simp_all
  moreover have "read_loop readMap_body (istream_on bs) m = Some (Inr (True, m))" if "length bs < KEYLEN" for bs
    using that by (subst read_loop.simps) (simp add: readMap_body_def in_read_def)
  ultimately show ?thesis using True by simp
next
  case False
  let ?t = "take (n - KEYLEN) (writeString v)"
  have take: "take n (k @ writeString v) = k @ ?t" using False assms(1) by simp
  have n: "n - KEYLEN < length (writeString v)" using False assms(1,3) by simp
  have "in_read KEYLEN (istream_on (k @ ?t)) = (k, istream_on ?t)" using assms(1) by (rule in_read_exact)
  moreover have "\<exists>ok v i. readString (istream_on ?t) [] = Inr (ok, v, i) \<and> (\<not> ok \<or> eofbit i)"
    using readString_cut [of "[]" v, OF _ assms(2) n] by (auto split: if_splits)
  ultimately show ?thesis
    using False assms(1) by (subst read_loop.simps) (auto simp: take readMap_body_def)
qed

interpretation map_torn: torn_file readMap_body
  "\<lambda>(k, v). length k = KEYLEN \<and> length v < 2 ^ 47" "\<lambda>(k, v). k @ writeString v" "[]"
  "\<lambda>(k, v). om_insert k v" "\<lambda>m. m" "\<lambda>r n m. (n < KEYLEN, m)"
proof (unfold_locales, goal_cases)
  case (1 r ws k m)
  then show ?case
    using readMap_cut_loop [of "fst r" "snd r" k m] by (cases r) (auto simp del: take_append)
qed

lemma om_inv_take: "om_inv m \<Longrightarrow> om_inv (take n m)"
  by (simp add: om_inv_def sorted_wrt_take flip: take_map)

lemma read_map_torn:
  assumes m: "om_inv m" "map_sized m"
  shows "\<exists>ok j. read_loop readMap_body (istream_on (take n (map_bytes m))) [] = Some (Inr (ok, take j m))"
proof -
  have eq: "map_bytes m = concat (map (\<lambda>r. (case r of (k, v) \<Rightarrow> k @ writeString v) @ []) m)"
    unfolding map_bytes_def using m(2)
    by (intro arg_cong [where f = concat] map_cong refl) (auto simp: map_sized_def)
  have rebuilt: "foldl (\<lambda>m r. (case r of (k, v) \<Rightarrow> om_insert k v) m) [] (take j m) = take j m" for j
    by (rule omap_rebuild [OF om_inv_take [OF m(1)]])
  have valid: "\<forall>r \<in> set m. case r of (k, v) \<Rightarrow> length k = KEYLEN \<and> length v < 2 ^ 47"
    using m(2) by (simp add: map_sized_def)
  show ?thesis
  proof (rule map_torn.read_torn [OF valid, of n "[]"])
    fix j k assume "read_loop readMap_body (istream_on (take n (concat (map (\<lambda>r. (case r of (k, v) \<Rightarrow> k @ writeString v) @ []) m)))) []
        = Some (Inr (k < KEYLEN, foldl (\<lambda>m r. (case r of (k, v) \<Rightarrow> om_insert k v) m) [] (take j m)))"
    then show ?thesis unfolding eq rebuilt by blast
  next
    assume "read_loop readMap_body (istream_on (take n (concat (map (\<lambda>r. (case r of (k, v) \<Rightarrow> k @ writeString v) @ []) m)))) []
        = Some (Inr (True, foldl (\<lambda>m r. (case r of (k, v) \<Rightarrow> om_insert k v) m) [] m))"
    then show ?thesis unfolding eq omap_rebuild [OF m(1)] by (metis take_all_iff le_refl)
  qed
qed

text \<open>Cut right behind the first key.\<close>

lemma read_map_first_key:
  assumes "m \<noteq> []" "map_sized m"
  shows "read_loop readMap_body (istream_on (take KEYLEN (map_bytes m))) [] = Some (Inr (False, []))"
proof -
  obtain k v m' where m: "m = (k, v) # m'" using assms(1) by (cases m) auto
  then have k: "length k = KEYLEN" "length v < 2 ^ 47" using assms(2) by (simp_all add: map_sized_def)
  have "take KEYLEN (map_bytes m) = take KEYLEN (k @ writeString v)"
    using k(1) by (simp add: m map_bytes_def)
  then show ?thesis
    using readMap_cut_loop [OF k, of KEYLEN "[]"] k(1) by (simp add: writeString_def)
qed

section \<open>Srev\<close>

interpretation revlist_torn: torn_file readRevlist_body
  "\<lambda>v. length v = KEYLEN" "\<lambda>v. v" "[]" os_insert "\<lambda>m. m" "\<lambda>r n m. (True, m)"
proof (unfold_locales, goal_cases)
  case (1 r ws k m)
  then show ?case by (subst read_loop.simps) (auto simp: readRevlist_body_def in_read_def)
qed

lemma os_inv_take: "os_inv m \<Longrightarrow> os_inv (take n m)"
  by (simp add: os_inv_def sorted_wrt_take)

lemma read_revlist_torn:
  assumes m: "os_inv m" "\<forall>v \<in> set m. length v = KEYLEN"
  shows "\<exists>j. read_loop readRevlist_body (istream_on (take n (revlist_bytes m))) [] = Some (Inr (True, take j m))"
proof -
  have eq: "revlist_bytes m = concat (map (\<lambda>v. v @ []) m)"
    unfolding revlist_bytes_def using m(2) by (intro arg_cong [where f = concat] map_cong) simp_all
  have rebuilt: "foldl (\<lambda>m r. os_insert r m) [] (take j m) = take j m" for j
    by (rule oset_rebuild [OF os_inv_take [OF m(1)]])
  show ?thesis
  proof (rule revlist_torn.read_torn [OF m(2), of n "[]"])
    fix j k assume "read_loop readRevlist_body (istream_on (take n (concat (map (\<lambda>v. v @ []) m)))) []
        = Some (Inr (True, foldl (\<lambda>m r. os_insert r m) [] (take j m)))"
    then show ?thesis unfolding eq rebuilt by blast
  next
    assume "read_loop readRevlist_body (istream_on (take n (concat (map (\<lambda>v. v @ []) m)))) []
        = Some (Inr (True, foldl (\<lambda>m r. os_insert r m) [] m))"
    then show ?thesis unfolding eq oset_rebuild [OF m(1)] by (metis take_all_iff le_refl)
  qed
qed

section \<open>Dcount\<close>

text \<open>
  Cut in the length of a token, or between two records, the file counts as complete; cut in
  the token it is damaged; cut in the count, a count with fewer digits is read.
\<close>

definition count_cut :: "bytes \<times> u64 \<Rightarrow> nat \<Rightarrow> (bytes, u64) omap \<Rightarrow> bool \<times> (bytes, u64) omap" where
  "count_cut = (\<lambda>(w, c) n m.
     if n \<le> length (dec (length w)) then (True, m)
     else if n \<le> length (writeString w) then (False, m)
     else (True, om_insert w (of_nat (dec_value (take (n - length (writeString w)) (dec (unat c))))) m))"

lemma dec_value_take_le: "dec_value (take n ds) \<le> dec_value ds"
proof -
  have "dec_value xs \<le> dec_value (xs @ ys)" for xs ys
    by (induction ys rule: rev_induct) (simp_all add: dec_value_snoc flip: append_assoc)
  then show ?thesis by (metis append_take_drop_id)
qed

lemma readMapCount_end:
  "eofbit i \<Longrightarrow> read_loop readMapCount_body i m = Some (Inr (True, m))"
  by (subst read_loop.simps) (simp add: readMapCount_body_def readString_def read_u64_def skip_ws_def good_def)

lemma readMapCount_cut_loop:
  assumes len: "length w < 2 ^ 47" and ws: "ws \<in> {[], [10]}"
    and n: "n < length ((writeString w @ dec (unat c)) @ [10])"
  shows "read_loop readMapCount_body (istream_on (ws @ take n ((writeString w @ dec (unat c)) @ [10]))) m
    = Some (Inr (count_cut (w, c) n m))"
proof -
  have sp: "\<forall>b \<in> set ws. is_space b" using ws by (auto simp: is_space_def)
  show ?thesis
  proof (cases "n < length (writeString w)")
    case True
    then have take: "take n ((writeString w @ dec (unat c)) @ [10]) = take n (writeString w)" by simp
    show ?thesis
      using readString_cut [OF sp len True] True
      by (subst read_loop.simps) (auto simp: take readMapCount_body_def count_cut_def split: if_splits)
  next
    case False
    let ?ds = "take (n - length (writeString w)) (dec (unat c))"
    have take: "take n ((writeString w @ dec (unat c)) @ [10]) = writeString w @ ?ds"
      using False n by simp
    have str: "readString (istream_on (ws @ writeString w @ ?ds)) [] = Inr (True, w, istream_on ?ds)"
      by (rule readString_writeString [OF sp len])
    show ?thesis
    proof (cases "n = length (writeString w)")
      case True
      have "read_u64 (istream_on []) = (None, \<lparr>buf = [], eofbit = True, failbit = True\<rparr>)"
        using skip_ws_end [of "[]"] by (simp add: read_u64_def good_def)
      moreover have "readString (istream_on (ws @ writeString w)) [] = Inr (True, w, istream_on [])"
        using str True by simp
      moreover have "length (dec (length w)) < length (writeString w)" by (simp add: writeString_def)
      ultimately show ?thesis
        using True by (subst read_loop.simps) (simp add: readMapCount_body_def count_cut_def)
    next
      case more: False
      have ds: "\<forall>b \<in> set ?ds. is_digit b" "?ds \<noteq> []"
        using False more dec_digits by (auto dest: in_set_takeD)
      have "dec_value ?ds < 2 ^ 64"
        using dec_value_take_le [of "n - length (writeString w)" "dec (unat c)"] unat_less_u64 [of c]
        by (simp add: dec_value_dec)
      from read_u64_digits [of "[]", OF _ ds this]
      have "read_u64 (istream_on ?ds) = (Some (of_nat (dec_value ?ds)), \<lparr>buf = [], eofbit = True, failbit = False\<rparr>)"
        by simp
      moreover have "length (dec (length w)) < length (writeString w)" by (simp add: writeString_def)
      ultimately show ?thesis
        using False more str unfolding take
        by (subst read_loop.simps) (simp add: readMapCount_body_def count_cut_def readMapCount_end)
    qed
  qed
qed

interpretation count_torn: torn_file readMapCount_body
  "\<lambda>(k, v). length k < 2 ^ 47" "\<lambda>(k, v). writeString k @ dec (unat v)" "[10]"
  "\<lambda>(k, v). om_insert k v" "\<lambda>m. m" count_cut
proof (unfold_locales, goal_cases)
  case (1 r ws k m)
  then show ?case using readMapCount_cut_loop [of "fst r" ws k "snd r" m] by (auto simp: case_prod_beta)
qed

text \<open>However the file was cut: if it is read at all, no count in it is too high.\<close>

lemma read_count_torn:
  assumes m: "om_inv m" "\<forall>(k, v) \<in> set m. length k < 2 ^ 47"
  shows "\<exists>ok m'. read_loop readMapCount_body (istream_on (take n (count_bytes m))) [] = Some (Inr (ok, m'))
    \<and> om_inv m' \<and> (\<forall>w c. om_lookup m' w = Some c \<longrightarrow> (\<exists>d. om_lookup m w = Some d \<and> unat c \<le> unat d))
    \<and> fst ` set m' \<subseteq> fst ` set m"
proof -
  let ?enc = "\<lambda>r. (case r of (k, v) \<Rightarrow> writeString k @ dec (unat v)) @ [10]"
  have eq: "count_bytes m = concat (map ?enc m)"
    by (auto simp: count_bytes_def intro!: arg_cong [where f = concat])
  have rebuilt: "foldl (\<lambda>m r. (case r of (k, v) \<Rightarrow> om_insert k v) m) [] (take j m) = take j m" for j
    by (rule omap_rebuild [OF om_inv_take [OF m(1)]])
  have sub: "om_lookup (take j m) w = Some c \<Longrightarrow> om_lookup m w = Some c" for j w c
    using om_inv_distinct [OF m(1)] unfolding om_lookup_eq_map_of
    by (metis append_take_drop_id map_of_append map_add_Some_iff)
  have keys: "fst ` set (take j m) \<subseteq> fst ` set m" for j by (auto dest: in_set_takeD)
  show ?thesis
  proof (rule count_torn.read_torn [OF m(2), of n "[]"])
    fix j k assume j: "j < length m"
      and run: "read_loop readMapCount_body (istream_on (take n (concat (map ?enc m)))) []
        = Some (Inr (count_cut (m ! j) k (foldl (\<lambda>m r. (case r of (k, v) \<Rightarrow> om_insert k v) m) [] (take j m))))"
    obtain w c where w: "m ! j = (w, c)" by fastforce
    have at: "om_lookup m w = Some c"
      using om_inv_distinct [OF m(1)] j w unfolding om_lookup_eq_map_of by (metis map_of_is_SomeI nth_mem)
    let ?ds = "take (k - length (writeString w)) (dec (unat c))"
    have "dec_value ?ds \<le> unat c" using dec_value_take_le [of _ "dec (unat c)"] by (simp add: dec_value_dec)
    then have "unat (of_nat (dec_value ?ds) :: u64) \<le> unat c"
      using unat_less_u64 [of c] unat_of_nat_u64 [of "dec_value ?ds"] by simp
    then show ?thesis
      using run at keys [of j] om_inv_take [OF m(1), of j] w j nth_mem [OF j]
      unfolding eq rebuilt
      by (auto simp: count_cut_def om_lookup_insert om_inv_insert set_om_insert_keys split: if_splits dest: sub
          intro: rev_image_eqI)
  next
    assume "read_loop readMapCount_body (istream_on (take n (concat (map ?enc m)))) []
        = Some (Inr (True, foldl (\<lambda>m r. (case r of (k, v) \<Rightarrow> om_insert k v) m) [] m))"
    then show ?thesis unfolding eq omap_rebuild [OF m(1)] using m(1) by auto
  qed
qed

end
