(* ===== verification/Torn.thy ===== *)
theory Torn
  imports Crash Commands Tornfiles "HOL-Library.Sublist"
begin

text \<open>
  Processes that are killed in the middle of a file: the server after its reply, the client
  at the end of a command. \<open>Crash\<close> has the kills between two files. Here a file may be cut
  anywhere, and neither program notices on its way back: \<open>server.cpp\<close> goes on with what it
  could load, and \<open>readMapCount\<close> takes the start of a number for the number.
\<close>

section \<open>A write that was cut\<close>

text \<open>The first \<open>k\<close> files as a whole, and \<open>n\<close> bytes of the next, which was opened, and emptied.\<close>

definition torn :: "nat \<Rightarrow> nat \<Rightarrow> (string \<times> bytes) list \<Rightarrow> disk \<Rightarrow> disk" where
  "torn k n ws d = write_all
     (take k ws @ (if k < length ws then [(fst (ws ! k), take n (snd (ws ! k)))] else [])) d"

lemma disk_fine_torn [simp]: "disk_fine dir (torn k n ws d) = disk_fine dir d"
  by (simp add: torn_def disk_fine_def)

definition cut_down :: "nat \<Rightarrow> nat \<Rightarrow> request \<Rightarrow> server \<Rightarrow> server" where
  "cut_down k n req t =
     (if saveDir t \<noteq> [] \<and> \<not> has_search req
      then t\<lparr>sv_disk := torn k n (save_writes (sv_core t) (saveDir t)) (sv_disk t)\<rparr> else t)"

definition torn_net :: "prims \<Rightarrow> wire \<Rightarrow> nat \<Rightarrow> nat \<Rightarrow> server net" where
  "torn_net P F k n = ending_net P F (cut_down k n)"

interpretation tearing: answering P F "torn_net P F k n" "cut_down k n" for P F k n
  by unfold_locales (simp_all add: torn_net_def ending_net_handled, simp add: cut_down_def)

section \<open>What the server finds\<close>

definition part_of :: "(bytes, bytes) omap \<Rightarrow> (bytes, bytes) omap \<Rightarrow> bool" where
  "part_of m m' \<longleftrightarrow> (\<forall>l v. om_lookup m l = Some v \<longrightarrow> om_lookup m' l = Some v)"

lemma part_of_refl [simp]: "part_of m m"
  by (simp add: part_of_def)

lemma part_of_trans: "part_of a b \<Longrightarrow> part_of b c \<Longrightarrow> part_of a c"
  by (simp add: part_of_def)

lemma part_of_take: "om_inv m \<Longrightarrow> part_of (take j m) m"
  using om_inv_distinct [of m] unfolding part_of_def om_lookup_eq_map_of
  by (metis append_take_drop_id map_of_append map_add_Some_iff)

lemma AddServer_grows: "part_of (Dplus s) (Dplus (fst (AddServer s L)))"
proof -
  have step: "part_of (Dplus (fst sr)) (Dplus (fst (add_server_step sr p)))" for sr p
    by (cases sr) (auto simp: part_of_def add_server_step_def om_lookup_insert om_count_def)
  have "part_of (Dplus (fst sr)) (Dplus (fst (foldl add_server_step sr L)))" for sr
  proof (induction L arbitrary: sr)
    case (Cons p L)
    from part_of_trans [OF step Cons.IH] show ?case by simp
  qed simp
  from this [of "(s, [])"] show ?thesis by (simp add: AddServer_def)
qed

text \<open>
  Reading a stored file, or one that was cut, of a map \<open>m\<close> or of the map \<open>m'\<close> before it.
\<close>

lemma readInt_empty: "files d p = Some [] \<Longrightarrow> readInt p old d = (False, old)"
  using skip_ws_end [of "[]"] by (simp add: readInt_def read_int_def good_def)

lemma dec_int_version: "ver \<in> {Basic, Packed, Pointer} \<Longrightarrow> length (dec_int ver) = 1"
proof -
  have "length (dec n) = 1" if "n < 10" for n using that by (subst dec.simps) simp
  then show "ver \<in> {Basic, Packed, Pointer} \<Longrightarrow> length (dec_int ver) = 1" by (auto simp: versions dec_int_def)
qed

lemma take_1_or: "length xs = 1 \<Longrightarrow> take n xs = [] \<or> take n xs = xs"
  by (cases n) auto

text \<open>The disk after a cut-off save of a core in which only \<open>Dplus\<close> and \<open>Srev\<close> are new.\<close>

lemma torn_disk:
  fixes k n :: nat
  assumes st: "stored base d s" and c: "\<not> dirtyD c" "version c = version s" "D c = D s" "A c = A s"
    and ver: "version s \<in> {Basic, Packed, Pointer}"
  defines "d' \<equiv> torn k n (save_writes c base) d"
  shows "files d' (base @ ''/version'') \<in> {Some [], Some (dec_int (version s))}"
    and "files d' (base @ ''/D'') = Some (map_bytes (D s))"
    and "\<exists>m i. m \<in> {Dplus s, Dplus c} \<and> files d' (base @ ''/Dplus'') = Some (take i (map_bytes m))"
    and "\<exists>m i. m \<in> {Srev s, Srev c} \<and> files d' (base @ ''/Srev'') = Some (take i (revlist_bytes m))"
    and "\<exists>M. files d' (base @ ''/A'') = Some (blocks_bytes M) \<and> A s \<in> {M, M @ [[]]} \<and> length M + 1 < 2 ^ 64"
proof -
  have ws: "save_writes c base = [(base @ ''/version'', dec_int (version s)),
      (base @ ''/Dplus'', map_bytes (Dplus c)), (base @ ''/Srev'', revlist_bytes (Srev c))]"
    using c by (simp add: save_writes_def)
  have k: "k = 0 \<or> k = 1 \<or> k = 2 \<or> 3 \<le> k" by arith
  have old: "files d (base @ ''/version'') = Some (dec_int (version s))"
    "files d (base @ ''/D'') = Some (map_bytes (D s))"
    "files d (base @ ''/Dplus'') = Some (map_bytes (Dplus s))"
    "files d (base @ ''/Srev'') = Some (revlist_bytes (Srev s))"
    "\<exists>M. files d (base @ ''/A'') = Some (blocks_bytes M) \<and> A s \<in> {M, M @ [[]]} \<and> length M + 1 < 2 ^ 64"
    using st by (auto simp: stored_def)
  have v: "take n (dec_int (version s)) = [] \<or> take n (dec_int (version s)) = dec_int (version s)"
    by (intro take_1_or dec_int_version ver)
  have all: "take (length xs) xs = xs" for xs :: bytes by simp
  note files = d'_def torn_def ws
  show "files d' (base @ ''/version'') \<in> {Some [], Some (dec_int (version s))}"
    using k v old(1) by (elim disjE) (simp_all add: files)
  show "files d' (base @ ''/D'') = Some (map_bytes (D s))"
    using k old(2) by (elim disjE) (simp_all add: files numeral_2_eq_2)
  show "\<exists>M. files d' (base @ ''/A'') = Some (blocks_bytes M) \<and> A s \<in> {M, M @ [[]]} \<and> length M + 1 < 2 ^ 64"
    using k old(5) by (elim disjE) (simp_all add: files numeral_2_eq_2)
  have "files d' (base @ ''/Dplus'') \<in> {Some (map_bytes (Dplus s)), Some (take n (map_bytes (Dplus c))), Some (map_bytes (Dplus c))}"
    using k old(3) by (elim disjE) (simp_all add: files numeral_2_eq_2)
  then show "\<exists>m i. m \<in> {Dplus s, Dplus c} \<and> files d' (base @ ''/Dplus'') = Some (take i (map_bytes m))"
    by (metis all insert_iff singletonD)
  have "files d' (base @ ''/Srev'') \<in> {Some (revlist_bytes (Srev s)), Some (take n (revlist_bytes (Srev c))), Some (revlist_bytes (Srev c))}"
    using k old(4) by (elim disjE) (simp_all add: files numeral_2_eq_2)
  then show "\<exists>m i. m \<in> {Srev s, Srev c} \<and> files d' (base @ ''/Srev'') = Some (take i (revlist_bytes m))"
    by (metis all insert_iff singletonD)
qed

text \<open>
  What is loaded from it: nothing at all when the version is missing; otherwise \<open>D\<close>, a part
  of \<open>Dplus\<close>, and some revocations, or none and no blocks when \<open>Dplus\<close> is damaged.
\<close>

lemma torn_loaded:
  assumes st: "stored base d s" and c: "\<not> dirtyD c" "version c = version s" "D c = D s" "A c = A s"
    and sized: "server_sized s" "server_sized c" and ver: "version s \<in> {Basic, Packed, Pointer}"
    and grows: "part_of (Dplus s) (Dplus c)"
  shows "\<exists>ok t. LoadServerFromStorage new_core base (torn k n (save_writes c base) d) = Some (Inr (ok, t))
    \<and> (t = new_core \<or> version t = version s \<and> D t = D s \<and> part_of (Dplus t) (Dplus c) \<and> length (A t) < 2 ^ 64)"
proof -
  let ?d = "torn k n (save_writes c base) d"
  note disk = torn_disk [OF st c ver, of k n]
  obtain m i where m: "m \<in> {Dplus s, Dplus c}" "files ?d (base @ ''/Dplus'') = Some (take i (map_bytes m))"
    using disk(3) by blast
  have "om_inv m" "map_sized m" "part_of m (Dplus c)"
    using m(1) sized grows by (auto simp: server_sized_def core_inv_def)
  then obtain ok1 j where "read_loop readMap_body (istream_on (take i (map_bytes m))) [] = Some (Inr (ok1, take j m))"
    and part: "part_of (take j m) (Dplus c)"
    using read_map_torn [of m i] part_of_take [of m] part_of_trans by blast
  then have dplus: "readMap (base @ ''/Dplus'') [] ?d = Some (Inr (ok1, take j m))" by (simp add: readMap_def m(2))
  obtain r i where r: "r \<in> {Srev s, Srev c}" "files ?d (base @ ''/Srev'') = Some (take i (revlist_bytes r))"
    using disk(4) by blast
  have "os_inv r" "\<forall>v \<in> set r. length v = KEYLEN" using r(1) sized by (auto simp: server_sized_def core_inv_def)
  then obtain j' where srev: "readRevlist (base @ ''/Srev'') x ?d = Some (Inr (True, take j' r))" for x
    using read_revlist_torn [of r i] by (auto simp: readRevlist_def r(2))
  obtain M where M: "files ?d (base @ ''/A'') = Some (blocks_bytes M)" "A s \<in> {M, M @ [[]]}" "length M + 1 < 2 ^ 64"
    using disk(5) by blast
  have "\<forall>b \<in> set M. length b < 2 ^ 47" using sized(1) M(2) by (auto simp: server_sized_def)
  then have blocks: "readBlocks (base @ ''/A'') [] ?d = Some (Inr (True, M @ [[]]))"
    by (simp add: readBlocks_def M read_blocks_bytes)
  have D: "readMap (base @ ''/D'') [] ?d = Some (Inr (True, D s))"
    using sized(1) disk(2) by (simp add: readMap_def read_map_bytes server_sized_def core_inv_def)
  have new: "D new_core = []" "Dplus new_core = []" "A new_core = []" by (simp_all add: new_core_def)
  consider "files ?d (base @ ''/version'') = Some []" | "files ?d (base @ ''/version'') = Some (dec_int (version s))"
    using disk(1) by blast
  then show ?thesis
  proof cases
    case 1
    then have "LoadServerFromStorage new_core base ?d = Some (Inr (False, new_core))"
      by (simp add: LoadServerFromStorage_def readInt_empty)
    then show ?thesis by blast
  next
    case 2
    then have "readInt (base @ ''/version'') x ?d = (True, version s)" for x
      using ver by (intro readInt_written) (auto simp: versions)
    then have "\<exists>ok t. LoadServerFromStorage new_core base ?d = Some (Inr (ok, t))
        \<and> version t = version s \<and> D t = D s \<and> Dplus t = take j m \<and> length (A t) \<le> length M + 1"
      by (cases ok1, intro exI [of _ True], simp add: LoadServerFromStorage_def new D dplus srev blocks)
        (intro exI [of _ False], simp add: LoadServerFromStorage_def new D dplus srev blocks)
    then obtain ok t where "LoadServerFromStorage new_core base ?d = Some (Inr (ok, t))" "version t = version s"
      "D t = D s" "Dplus t = take j m" "length (A t) \<le> length M + 1" by blast
    then show ?thesis using part M(3) by (intro exI [of _ ok] exI [of _ t]) auto
  qed
qed

section \<open>What a search finds then\<close>

text \<open>Basic and Packed entries do not lead to blocks.\<close>

lemma live_ids_blocks: "live_ids P (s\<lparr>A := X\<rparr>) k ids = live_ids P s k ids"
  by (simp add: live_ids_def)

lemma entry_of_blocks:
  assumes "ver \<in> {Basic, Packed}"
  shows "entry_of ver P (s\<lparr>A := X\<rparr>) K2 k d = entry_of ver P s K2 k d"
proof -
  have push: "push_unless_revoked P (s\<lparr>A := X\<rparr>) k = push_unless_revoked P s k"
    by (simp add: push_unless_revoked_def fun_eq_iff)
  have "entry_basic P (s\<lparr>A := X\<rparr>) K2 k d = entry_basic P s K2 k d" by (simp only: entry_basic_def push)
  moreover have "entry_packed P (s\<lparr>A := X\<rparr>) K2 k d = entry_packed P s K2 k d" by (simp only: entry_packed_def push)
  ultimately show ?thesis using assms by (auto simp: entry_of_def versions)
qed

lemma holds_blocks:
  assumes h: "holds P ver blocks mk m w ids" and ver: "ver \<in> {Basic, Packed}" and len: "length blocks < 2 ^ 64"
  shows "holds P ver blocks' mk m w ids"
proof -
  have "entry_holds P ver blocks' K2 d is" if e: "entry_holds P ver blocks K2 d is" for K2 d "is"
    unfolding entry_holds_def
  proof (intro allI impI)
    fix s k Z
    have "entry_of ver P (s\<lparr>A := blocks\<rparr>) K2 k d = Inr (live_ids P (s\<lparr>A := blocks\<rparr>) k is)"
      using e len by (intro entry_holdsD) simp_all
    then show "entry_of ver P s K2 k d = Inr (live_ids P s k is)"
      by (simp add: entry_of_blocks [OF ver] live_ids_blocks)
  qed
  then show ?thesis using h unfolding holds_def by (elim exE conjE, intro exI conjI) blast+
qed

lemma search_part:
  assumes r: "represents P W cl c ix" and w: "w \<in> W" and ver: "version c \<in> {Basic, Packed}"
    and t: "version t = version c" "D t = D c" "part_of (Dplus t) (Dplus c)" "length (A t) < 2 ^ 64"
  shows "\<exists>m. (Dplus t = [] \<longrightarrow> m = 0) \<and> SearchServer P t (SearchClient P cl w)
    = Some (Inr (filter (\<lambda>i. label P (kminus cl) w i \<notin> set (Srev t)) (ix_setup ix w @ take m (ix_added ix w))))"
proof -
  let ?l = "\<lambda>c. label P (kplus cl) w (of_nat c)" let ?n = "length (ix_added ix w)"
  have u: "updates_hold P W (kplus cl) (kminus cl) (dcount cl) c ix"
    and D: "holds P (version c) (A c) (key cl) (D c) w (ix_setup ix w)" and len: "length (A c) < 2 ^ 64"
    using r w by (auto simp: represents_def)
  have n: "?n < 2 ^ 64" and none: "om_lookup (Dplus c) (?l ?n) = None"
    and some: "\<And>i. i < ?n \<Longrightarrow> \<exists>rest. om_lookup (Dplus c) (?l i)
        = Some (encrypt_long P (token_K2 P (kplus cl) w) (ix_added ix w ! i) @ rest)"
    using u w by (auto simp: updates_hold_def)
  define m where "m = (LEAST i. om_lookup (Dplus t) (?l i) = None)"
  have stop: "om_lookup (Dplus t) (?l ?n) = None"
    using none t(3) by (cases "om_lookup (Dplus t) (?l ?n)") (auto simp: part_of_def)
  have m: "om_lookup (Dplus t) (?l m) = None" "m \<le> ?n"
    unfolding m_def using stop by (rule LeastI, rule Least_le)
  have below: "om_lookup (Dplus t) (?l i) \<noteq> None" if "i < m" for i
    using not_less_Least [of i "\<lambda>i. om_lookup (Dplus t) (?l i) = None"] that by (simp add: m_def)
  have "\<exists>rest. om_lookup (Dplus t) (?l i)
      = Some (encrypt_long P (token_K2 P (kplus cl) w) (take m (ix_added ix w) ! i) @ rest)"
    if i: "i < length (take m (ix_added ix w))" for i
  proof -
    have im: "i < m" "i < ?n" using i by simp_all
    obtain x where x: "om_lookup (Dplus t) (?l i) = Some x" using below [OF im(1)] by blast
    then have "om_lookup (Dplus c) (?l i) = Some x" using t(3) by (simp add: part_of_def)
    with some [OF im(2)] x im show ?thesis by auto
  qed
  then have "holds P Basic (A t) (kplus cl) (Dplus t) w (take m (ix_added ix w))"
    using n m by (intro holds_entries) (simp_all add: min_absorb2)
  moreover have "holds P (version t) (A t) (key cl) (D t) w (ix_setup ix w)"
    using holds_blocks [OF D ver len] t by simp
  ultimately have "SearchServer P t (SearchClient P cl w)
      = Some (Inr (live_ids P t (mac_key P (kminus cl) 0x31 w) (ix_setup ix w @ take m (ix_added ix w))))"
    using ver t by (intro SearchServer_holds) auto
  moreover have "m = 0" if "Dplus t = []" using below [of 0] that by fastforce
  ultimately show ?thesis by (intro exI [of _ m]) (simp add: live_ids_def label_def)
qed

lemma search_new_core: "SearchServer P new_core ks = Some (Inr [])"
  by (simp add: SearchServer_def SearchServerBasic_def scan_Dplus_def new_core_def scan.simps)

lemma subseq_of_part: "subseq (filter Q (xs @ take m ys)) (xs @ ys)"
proof -
  have "prefix (xs @ take m ys) (xs @ ys)" by (simp add: take_is_prefix)
  then have "subseq (xs @ take m ys) (xs @ ys)" by (rule prefix_imp_subseq)
  with subseq_filter_left show ?thesis by (rule subseq_order.order_trans)
qed

section \<open>After the restart\<close>

text \<open>
  An Add or a Delete over a connection of any kind. The server is killed inside one of the
  files it saves after it, and started again.
\<close>

definition update_over :: "prims \<Rightarrow> wire \<Rightarrow> server net \<Rightarrow> sys_op \<Rightarrow> client \<times> server \<Rightarrow> (err + bool \<times> client \<times> server) option" where
  "update_over P F net x s =
     (case x of
        SysAdd fid words junk \<Rightarrow> Client_Add P F net junk (fst s) (snd s) fid words
      | SysDelete fid words \<Rightarrow> Client_Delete P F net (fst s) (snd s) fid words
      | _ \<Rightarrow> None)"

definition is_update :: "sys_op \<Rightarrow> bool" where
  "is_update x \<longleftrightarrow> (case x of SysAdd fid words junk \<Rightarrow> True | SysDelete fid words \<Rightarrow> True | _ \<Rightarrow> False)"

lemma update_torn:
  assumes S: "setting P F" and rep: "sys_rep P W (cl, sv) ix" and x: "is_update x" "sys_ok W x ix"
  obtains cl' c req b where "update_over P F (torn_net P F k n) x (cl, sv)
      = Some (Inr (True, cl', cut_down k n req (answered b ((received sv)\<lparr>sv_core := c\<rparr>))))"
    "\<not> has_search req" "cl_sock cl' = req_new" "represents P W (cl_core cl') c (index_sys x ix)" "server_sized c"
    "version c = version (sv_core sv)" "D c = D (sv_core sv)" "A c = A (sv_core sv)" "dirtyD c = dirtyD (sv_core sv)"
    "part_of (Dplus (sv_core sv)) (Dplus c)"
    "\<forall>fid words. x = SysDelete fid words \<longrightarrow> Dplus c = Dplus (sv_core sv)"
proof -
  have F: "wire_ok F" "wire_total F" and P: "prims_ok P" using S by (auto simp: setting_def)
  have r0: "represents P W (cl_core cl) (sv_core sv) ix" "keys_cf P W (cl_core cl)"
    and ready: "cl_sock cl = req_new" "waiting sv" and st: "settled sv"
    using rep by (auto simp: sys_rep_def settled_def)
  show ?thesis
  proof (cases x)
    case (SysAdd fid words junk)
    then have ok: "sys_ok W (SysAdd fid words junk) ix" using x(2) by simp
    obtain c L U c' r c2 where run: "AddClient P (cl_core cl) fid junk words = (c, L, U)"
      "AddServer (sv_core sv) L = (c', r)" "AddClient2 c r U = Inr c2"
      and c2: "represents P W c2 c' (index_add fid (set words) ix)" "server_sized c'"
      and same: "version c' = version (sv_core sv)" "D c' = D (sv_core sv)" "A c' = A (sv_core sv)"
        "dirtyD c' = dirtyD (sv_core sv)"
      by (rule add_halves [OF P rep ok])
    obtain b where add: "Client_Add P F (torn_net P F k n) junk cl sv fid words
      = Some (Inr (True, cl\<lparr>cl_core := c2\<rparr>, cut_down k n (request_of (AddMsg L)) (answered b ((received sv)\<lparr>sv_core := c'\<rparr>))))"
      using tearing.Client_Add_net [OF F ready run] by blast
    show ?thesis
    proof (rule that [OF _ _ _ _ c2(2) same])
      show "update_over P F (torn_net P F k n) x (cl, sv) = Some (Inr (True, cl\<lparr>cl_core := c2\<rparr>,
          cut_down k n (request_of (AddMsg L)) (answered b ((received sv)\<lparr>sv_core := c'\<rparr>))))"
        by (simp add: SysAdd update_over_def add)
      show "part_of (Dplus (sv_core sv)) (Dplus c')" using AddServer_grows [of "sv_core sv" L] run(2) by simp
    qed (use ready(1) c2(1) in \<open>simp_all add: SysAdd has_search_def request_of_def\<close>)
  next
    case (SysDelete fid words)
    let ?L = "DeleteClient P (cl_core cl) fid words"
    let ?c = "DeleteServer (sv_core sv) ?L"
    have ws: "set words \<subseteq> W" using x(2) SysDelete by simp
    obtain b where del: "Client_Delete P F (torn_net P F k n) cl sv fid words
      = Some (Inr (True, cl, cut_down k n (request_of (DeleteMsg ?L)) (answered b ((received sv)\<lparr>sv_core := ?c\<rparr>))))"
      using tearing.Client_Delete_net [OF F ready refl] by blast
    have c: "represents P W (cl_core cl) ?c (index_delete fid (set words) ix)"
      using represents_delete [OF r0 ws] by (simp add: run_delete_def)
    have sized: "server_sized ?c"
      using st DeleteClient_sized [OF P] by (intro server_sized_DeleteServer) (auto simp: settled_def)
    show ?thesis
    proof (rule that [OF _ _ _ _ sized])
      show "update_over P F (torn_net P F k n) x (cl, sv) = Some (Inr (True, cl,
          cut_down k n (request_of (DeleteMsg ?L)) (answered b ((received sv)\<lparr>sv_core := ?c\<rparr>))))"
        by (simp add: SysDelete update_over_def del)
    qed (use ready(1) c in \<open>simp_all add: SysDelete has_search_def request_of_def DeleteServer_eq\<close>)
  qed (use x(1) in \<open>simp_all add: is_update_def\<close>)
qed

lemma cut_down_restarts:
  assumes "settled s" "\<not> has_search req"
    and "LoadServerFromStorage new_core (saveDir s) (torn k n (save_writes c (saveDir s)) (sv_disk s)) = Some (Inr (ok, t))"
  shows "\<exists>s'. restart_server_process (cut_down k n req (answered b ((received s)\<lparr>sv_core := c\<rparr>))) = Some (Inr (ok, s'))
    \<and> waiting s' \<and> sv_core s' = t"
  using assms
  by (simp add: cut_down_def restart_server_process_def server_load_def new_server_def settled_def waiting_def rep_new_def)

text \<open>
  Whatever was left of the save: the server loads something and goes on, and in the layouts
  without blocks a search returns, in their order, some of the ids that were ever put in.
\<close>

lemma torn_save:
  assumes S: "setting P F" and rep: "sys_rep P W (cl, sv) ix" and x: "is_update x" "sys_ok W x ix"
    and ver: "version (sv_core sv) \<in> {Basic, Packed}"
  shows "\<exists>cl1 dead ok sv1. update_over P F (torn_net P F k n) x (cl, sv) = Some (Inr (True, cl1, dead))
    \<and> restart_server_process dead = Some (Inr (ok, sv1))
    \<and> (\<forall>w \<in> W. \<exists>ids sv2. Client_Search P F (server_net P F) cl1 sv1 w = Some (Inr (got_response, ids, cl1, sv2))
          \<and> subseq ids (ix_setup ix w @ ix_added (index_sys x ix) w))"
proof -
  have F: "wire_ok F" "wire_total F" and P: "prims_ok P" using S by (auto simp: setting_def)
  have st: "settled sv" using rep by (simp add: sys_rep_def)
  obtain cl' c req b where upd: "update_over P F (torn_net P F k n) x (cl, sv)
      = Some (Inr (True, cl', cut_down k n req (answered b ((received sv)\<lparr>sv_core := c\<rparr>))))"
    and req: "\<not> has_search req" and cl': "cl_sock cl' = req_new" "represents P W (cl_core cl') c (index_sys x ix)"
    and c: "server_sized c" "version c = version (sv_core sv)" "D c = D (sv_core sv)" "A c = A (sv_core sv)"
      "dirtyD c = dirtyD (sv_core sv)" "part_of (Dplus (sv_core sv)) (Dplus c)"
    by (rule update_torn [OF S rep x])
  have "\<exists>ok t. LoadServerFromStorage new_core (saveDir sv) (torn k n (save_writes c (saveDir sv)) (sv_disk sv)) = Some (Inr (ok, t))
    \<and> (t = new_core \<or> version t = version (sv_core sv) \<and> D t = D (sv_core sv) \<and> part_of (Dplus t) (Dplus c)
        \<and> length (A t) < 2 ^ 64)"
    using st c ver by (intro torn_loaded) (auto simp: settled_def)
  then obtain ok t where load: "LoadServerFromStorage new_core (saveDir sv)
      (torn k n (save_writes c (saveDir sv)) (sv_disk sv)) = Some (Inr (ok, t))"
    and t: "t = new_core \<or> version t = version c \<and> D t = D c \<and> part_of (Dplus t) (Dplus c) \<and> length (A t) < 2 ^ 64"
    using c by auto
  obtain sv1 where sv1: "restart_server_process (cut_down k n req (answered b ((received sv)\<lparr>sv_core := c\<rparr>))) = Some (Inr (ok, sv1))"
    "waiting sv1" "sv_core sv1 = t"
    using cut_down_restarts [OF st req load] by blast
  have su: "ix_setup (index_sys x ix) = ix_setup ix" using x(1) by (cases x) (simp_all add: index_add_def index_delete_def)
  have "\<exists>ids sv2. Client_Search P F (server_net P F) cl' sv1 w = Some (Inr (got_response, ids, cl', sv2))
      \<and> subseq ids (ix_setup ix w @ ix_added (index_sys x ix) w)" if w: "w \<in> W" for w
  proof -
    have "\<exists>ids. SearchServer P t (SearchClient P (cl_core cl') w) = Some (Inr ids)
        \<and> subseq ids (ix_setup ix w @ ix_added (index_sys x ix) w)"
    proof (cases "t = new_core")
      case True
      then show ?thesis by (simp add: search_new_core)
    next
      case False
      with t have t': "version t = version c" "D t = D c" "part_of (Dplus t) (Dplus c)" "length (A t) < 2 ^ 64" by auto
      have "version c \<in> {Basic, Packed}" using c(2) ver by simp
      from search_part [OF cl'(2) w this t'] show ?thesis unfolding su using subseq_of_part by blast
    qed
    then obtain ids where found: "SearchServer P (sv_core sv1) (SearchClient P (cl_core cl') w) = Some (Inr ids)"
      and sub: "subseq ids (ix_setup ix w @ ix_added (index_sys x ix) w)"
      using sv1(3) by blast
    from live.Client_Search_net [OF F cl'(1) sv1(2) P found] sub show ?thesis by blast
  qed
  then show ?thesis using upd sv1(1) by blast
qed

text \<open>
  Killed right behind the first key of \<open>Dplus\<close>, after a Delete: loading reports the damage, the
  server serves all the same, without \<open>Dplus\<close> and without any revocation.
\<close>

lemma represents_Dplus: "represents P W cl s ix \<Longrightarrow> w \<in> W \<Longrightarrow> ix_added ix w \<noteq> [] \<Longrightarrow> Dplus s \<noteq> []"
  unfolding represents_def updates_hold_def by (metis length_greater_0_conv om_lookup.simps(1) option.distinct(1))

lemma torn_Dplus_loaded:
  assumes st: "stored base d s" and c: "\<not> dirtyD c" "version c = version s" "D c = D s" "A c = A s" "Dplus c \<noteq> []"
    and sized: "server_sized s" "server_sized c" and ver: "version s \<in> {Basic, Packed, Pointer}"
  shows "LoadServerFromStorage new_core base (torn 1 KEYLEN (save_writes c base) d)
    = Some (Inr (False, new_core\<lparr>version := version s, D := D s\<rparr>))"
proof -
  let ?d = "torn 1 KEYLEN (save_writes c base) d"
  have ws: "save_writes c base = [(base @ ''/version'', dec_int (version s)),
      (base @ ''/Dplus'', map_bytes (Dplus c)), (base @ ''/Srev'', revlist_bytes (Srev c))]"
    using c by (simp add: save_writes_def)
  have "files ?d (base @ ''/version'') = Some (dec_int (version s))" by (simp add: torn_def ws)
  then have v: "readInt (base @ ''/version'') x ?d = (True, version s)" for x
    using ver by (intro readInt_written) (auto simp: versions)
  have D: "readMap (base @ ''/D'') [] ?d = Some (Inr (True, D s))"
    using sized(1) torn_disk(2) [OF st c(1-4) ver, of 1 KEYLEN]
    by (simp add: readMap_def read_map_bytes server_sized_def core_inv_def)
  have "files ?d (base @ ''/Dplus'') = Some (take KEYLEN (map_bytes (Dplus c)))" by (simp add: torn_def ws)
  then have "readMap (base @ ''/Dplus'') [] ?d = Some (Inr (False, []))"
    using sized(2) read_map_first_key [OF c(5)] by (simp add: readMap_def server_sized_def)
  then show ?thesis using v D by (simp add: LoadServerFromStorage_def new_core_def)
qed

lemma torn_save_loses_updates:
  assumes S: "setting P F" and rep: "sys_rep P W (cl, sv) ix" and ws: "set words \<subseteq> W"
    and ver: "version (sv_core sv) \<in> {Basic, Packed}" and u: "u \<in> W" "ix_added ix u \<noteq> []"
  shows "\<exists>dead sv1. Client_Delete P F (torn_net P F 1 KEYLEN) cl sv fid words = Some (Inr (True, cl, dead))
    \<and> restart_server_process dead = Some (Inr (False, sv1))
    \<and> (\<forall>w \<in> W. \<exists>sv2. Client_Search P F (server_net P F) cl sv1 w = Some (Inr (got_response, ix_setup ix w, cl, sv2)))"
proof -
  have F: "wire_ok F" "wire_total F" and P: "prims_ok P" using S by (auto simp: setting_def)
  have st: "settled sv" and r0: "represents P W (cl_core cl) (sv_core sv) ix" "keys_cf P W (cl_core cl)"
    and ready: "cl_sock cl = req_new" "waiting sv" using rep by (auto simp: sys_rep_def settled_def)
  let ?L = "DeleteClient P (cl_core cl) fid words"
  let ?c = "DeleteServer (sv_core sv) ?L" and ?req = "request_of (DeleteMsg ?L)"
  obtain b where del: "Client_Delete P F (torn_net P F 1 KEYLEN) cl sv fid words
    = Some (Inr (True, cl, cut_down 1 KEYLEN ?req (answered b ((received sv)\<lparr>sv_core := ?c\<rparr>))))"
    using tearing.Client_Delete_net [OF F ready refl] by blast
  have c: "represents P W (cl_core cl) ?c (index_delete fid (set words) ix)"
    using represents_delete [OF r0 ws] by (simp add: run_delete_def)
  have sized: "server_sized ?c"
    using st DeleteClient_sized [OF P] by (intro server_sized_DeleteServer) (auto simp: settled_def)
  let ?t = "new_core\<lparr>version := version (sv_core sv), D := D (sv_core sv)\<rparr>"
  have req: "\<not> has_search ?req" by (simp add: has_search_def request_of_def)
  have "LoadServerFromStorage new_core (saveDir sv) (torn 1 KEYLEN (save_writes ?c (saveDir sv)) (sv_disk sv)) = Some (Inr (False, ?t))"
    using st ver sized represents_Dplus [OF r0(1) u]
    by (intro torn_Dplus_loaded) (auto simp: settled_def DeleteServer_eq)
  then obtain sv1 where sv1: "restart_server_process (cut_down 1 KEYLEN ?req (answered b ((received sv)\<lparr>sv_core := ?c\<rparr>)))
      = Some (Inr (False, sv1))" "waiting sv1" "sv_core sv1 = ?t"
    using cut_down_restarts [OF st req] by blast
  have "\<exists>sv2. Client_Search P F (server_net P F) cl sv1 w = Some (Inr (got_response, ix_setup ix w, cl, sv2))"
    if w: "w \<in> W" for w
  proof -
    obtain m where "Dplus ?t = [] \<longrightarrow> m = 0" "SearchServer P ?t (SearchClient P (cl_core cl) w)
      = Some (Inr (filter (\<lambda>i. label P (kminus (cl_core cl)) w i \<notin> set (Srev ?t)) (ix_setup ix w @ take m (ix_added ix w))))"
      using search_part [OF r0(1) w ver, of ?t] by (auto simp: new_core_def part_of_def)
    then have "SearchServer P (sv_core sv1) (SearchClient P (cl_core cl) w) = Some (Inr (ix_setup ix w))"
      by (simp add: sv1(3) new_core_def)
    from live.Client_Search_net [OF F ready(1) sv1(2) P this] show ?thesis by blast
  qed
  then show ?thesis using del sv1(1) by blast
qed

end
