(* ===== verification/Tornclient.thy ===== *)
theory Tornclient
  imports Torn
begin

text \<open>
  The client that is killed while it saves. Every command, a search as well, ends with
  \<open>Client_Save\<close>, which empties and rewrites the key files and the counts. When the process
  dies inside a key file the keys are gone; when it dies inside the counts, the next command
  takes what is left of them for the counts.
\<close>

section \<open>The files of the client, in order\<close>

definition client_writes :: "client \<Rightarrow> string \<Rightarrow> (string \<times> bytes) list" where
  "client_writes cl dir =
     [(dir @ ''/version'', dec_int (version (cl_core cl))),
      (dir @ ''/key'', take KEYLEN (key (cl_core cl))),
      (dir @ ''/kplus'', take KEYLEN (kplus (cl_core cl))),
      (dir @ ''/kminus'', take KEYLEN (kminus (cl_core cl))),
      (dir @ ''/Dcount'', count_bytes (Dcount (cl_core cl))),
      (dir @ ''/fileidMap'', fileidMap_bytes (fileidMap cl)),
      (dir @ ''/lastFileid'', dec (unat (lastFileid cl)))]"

lemma Client_Save_writes:
  assumes "disk_fine dir d"
  shows "Client_Save cl dir d = (True, write_all (client_writes cl dir) d)"
  using assms
  by (simp add: Client_Save_def SaveClientToStorage_def saveExtraState_def and_then_def writeInt_def writeBytes_def
      writeMapCount_def writeFileidMap_def writeFileid_def write_file_def client_writes_def disk_fine_def)

section \<open>A key that was cut\<close>

lemma readBytes_short: "files d p = Some bs \<Longrightarrow> length bs < n \<Longrightarrow> \<exists>v. readBytes p old n d = (False, v)"
  by (simp add: readBytes_def in_read_def good_def)

lemma load_then_fails:
  "\<exists>c. r = Some (Inr (False, c)) \<Longrightarrow> \<exists>c. load_then r f = Some (Inr (False, c))"
  "\<exists>b c. r = Some (Inr (b, c)) \<Longrightarrow> (\<And>s. \<exists>c. f s = Some (Inr (False, c))) \<Longrightarrow> \<exists>c. load_then r f = Some (Inr (False, c))"
  "\<exists>b c. r = Some (Inr (b, c)) \<Longrightarrow> (\<And>s. \<exists>b c. f s = Some (Inr (b, c))) \<Longrightarrow> \<exists>b c. load_then r f = Some (Inr (b, c))"
  by (auto simp: load_then_def)

lemma let_fails:
  "\<exists>x. r = (False, x) \<Longrightarrow> \<exists>c. (let (ok, k) = r in Some (Inr (ok, g k))) = Some (Inr (False, c))"
  "\<exists>b c. (let (ok, k) = r in Some (Inr (ok, g k))) = Some (Inr (b, c))"
  by (auto split: prod.split)

lemma LoadClient_short:
  assumes "files d (base @ ''/version'') = Some []
    \<or> (\<exists>p \<in> {''/key'', ''/kplus'', ''/kminus''}. \<exists>bs. files d (base @ p) = Some bs \<and> length bs < KEYLEN)"
  shows "\<exists>c. LoadClientFromStorage s base d = Some (Inr (False, c))"
proof -
  have "(\<forall>v. \<exists>x. readInt (base @ ''/version'') v d = (False, x))
    \<or> (\<forall>old. \<exists>x. readBytes (base @ ''/key'') old KEYLEN d = (False, x))
    \<or> (\<forall>old. \<exists>x. readBytes (base @ ''/kplus'') old KEYLEN d = (False, x))
    \<or> (\<forall>old. \<exists>x. readBytes (base @ ''/kminus'') old KEYLEN d = (False, x))"
    using assms readInt_empty [of d "base @ ''/version''"] readBytes_short by (auto 4 3)
  then show ?thesis
    unfolding LoadClientFromStorage_def
  proof (elim disjE, goal_cases)
    case 1
    show ?case
      by (rule load_then_fails(1), rule load_then_fails(1), rule load_then_fails(1), rule load_then_fails(1), rule let_fails(1)) (use 1 in blast)
  next
    case 2
    show ?case
      by (rule load_then_fails(1), rule load_then_fails(1), rule load_then_fails(1), rule load_then_fails(2), rule let_fails(2), rule let_fails(1)) (use 2 in blast)
  next
    case 3
    show ?case
      by (rule load_then_fails(1), rule load_then_fails(1), rule load_then_fails(2), rule load_then_fails(3), rule let_fails(2), rule let_fails(2), rule let_fails(1)) (use 3 in blast)
  next
    case 4
    show ?case
      by (rule load_then_fails(1), rule load_then_fails(2), rule load_then_fails(3), rule load_then_fails(3), rule let_fails(2), rule let_fails(2), rule let_fails(2), rule let_fails(1)) (use 4 in blast)
  qed
qed

lemma torn_key_fails:
  assumes "k = 0 \<and> n = 0 \<or> k \<in> {1, 2, 3} \<and> n < KEYLEN"
  shows "\<exists>s'. Client_Load s dir (torn k n (client_writes cl dir) d) = Some (Inr (False, s'))"
proof -
  let ?d = "torn k n (client_writes cl dir) d"
  have "files ?d (dir @ ''/version'') = Some []
    \<or> (\<exists>p \<in> {''/key'', ''/kplus'', ''/kminus''}. \<exists>bs. files ?d (dir @ p) = Some bs \<and> length bs < KEYLEN)"
    using assms by (auto simp: torn_def client_writes_def numeral_2_eq_2 numeral_3_eq_3)
  from LoadClient_short [OF this] obtain c where "LoadClientFromStorage (cl_core s) dir ?d = Some (Inr (False, c))" by blast
  then show ?thesis by (simp add: Client_Load_def)
qed

section \<open>Commands of a client that is killed\<close>

definition dying_client ::
  "prims \<Rightarrow> wire \<Rightarrow> shell \<Rightarrow> (nat \<Rightarrow> bytes) \<Rightarrow> nat \<Rightarrow> nat \<Rightarrow> disk \<times> server \<Rightarrow> bytes \<Rightarrow> bytes list
    \<Rightarrow> (err + bytes \<times> disk \<times> server) option" where
  "dying_client P F sh junk k n s command args =
     obind (run_command P F (server_net P F) (sh_devs sh) junk (fst s) (new_client\<lparr>addr := default_addr\<rparr>) (snd s)
         Basic command args)
       (\<lambda>(out, c, w). Some (Inr (out, torn k n (client_writes c state_dir) (fst s), w)))"

text \<open>Not killed, it is the command as it is.\<close>

lemma dying_client_whole:
  assumes "shell_ok sh" "plain (command # args)" "disk_fine state_dir d"
  shows "dying_client P F sh junk 7 0 (d, sv) command args = run_client P F sh junk (d, sv) (command # args)"
proof -
  have "torn 7 0 (client_writes c state_dir) d = snd (Client_Save c state_dir d)" for c
    using assms(3) by (simp add: Client_Save_writes torn_def) (simp add: client_writes_def)
  moreover have "fst (Client_Save c state_dir d)" for c using assms(3) by (simp add: Client_Save_writes)
  ultimately show ?thesis
    unfolding run_client_plain [OF assms(1,2)] dying_client_def by (simp add: Let_def case_prod_beta)
qed

text \<open>After a search that was killed in a key file, every command but the setups fails.\<close>

lemma torn_search_locks_out:
  assumes S: "setting P F" and sh: "shell_ok sh" and rep: "prog_rep P W (d, sv) bk" and w: "w \<in> W"
    and out: "print_results (new_client\<lparr>fileidMap := bk_names bk\<rparr>) w (index_search (bk_index bk) w) = Inr out"
    and cut: "k = 0 \<and> n = 0 \<or> k \<in> {1, 2, 3} \<and> n < KEYLEN"
    and more: "plain (command # args)" "command \<notin> {bytes_of ''setup'', bytes_of ''setuplist''}"
  shows "\<exists>d' sv'. dying_client P F sh junk k n (d, sv) (bytes_of ''search'') [w] = Some (Inr (got_response @ out, d', sv'))
    \<and> run_client P F sh junk' (d', sv') (command # args) = Some (Inl (Exit 1))"
proof -
  have F: "wire_ok F" "wire_total F" "prims_ok P" using S by (auto simp: setting_def)
  obtain cl where load: "\<And>a. Client_Load (new_client\<lparr>addr := a\<rparr>) state_dir d = Some (Inr (True, cl\<lparr>addr := a\<rparr>))"
    and cl: "sys_rep P W (cl, sv) (bk_index bk)" "fileidMap cl = bk_names bk"
    using rep by (auto simp: prog_rep_def)
  let ?cl = "cl\<lparr>addr := default_addr\<rparr>"
  have "print_results ?cl w ids = print_results (new_client\<lparr>fileidMap := bk_names bk\<rparr>) w ids" for ids
    by (induction ids) (simp_all add: result_line_def Filename_def cl(2))
  then have "\<exists>sv'. run_command P F (server_net P F) (sh_devs sh) junk d (new_client\<lparr>addr := default_addr\<rparr>) sv Basic
      (bytes_of ''search'') [w] = Some (Inr (got_response @ out, ?cl, sv'))"
    using sys_search [OF F _ w, of ?cl sv "bk_index bk"] cl(1) out load by (auto simp: run_command_def command_loaded_def)
  then obtain sv' where run: "dying_client P F sh junk k n (d, sv) (bytes_of ''search'') [w]
      = Some (Inr (got_response @ out, torn k n (client_writes ?cl state_dir) d, sv'))"
    by (auto simp: dying_client_def)
  obtain s' where "Client_Load (new_client\<lparr>addr := default_addr\<rparr>) state_dir (torn k n (client_writes ?cl state_dir) d)
      = Some (Inr (False, s'))"
    using torn_key_fails [OF cut] by blast
  then have "run_client P F sh junk' (torn k n (client_writes ?cl state_dir) d, sv') (command # args) = Some (Inl (Exit 1))"
    using more(2) unfolding run_client_plain [OF sh more(1)] by (simp add: run_command_def)
  with run show ?thesis by blast
qed

section \<open>Counts that were cut\<close>

lemma torn_counts_loaded:
  assumes sized: "client_sized (cl_core cl)"
    and load: "Client_Load new_client dir (torn 4 n (client_writes cl dir) d) = Some (Inr (True, cl1))"
  shows "same_keys (cl_core cl1) (cl_core cl) \<and> cl_sock cl1 = req_new
    \<and> (\<forall>w. unat (dcount (cl_core cl1) w) \<le> unat (dcount (cl_core cl) w))"
proof -
  let ?d = "torn 4 n (client_writes cl dir) d" and ?c = "cl_core cl"
  have files: "files ?d (dir @ ''/version'') = Some (dec_int (version ?c))"
    "files ?d (dir @ ''/key'') = Some (key ?c)" "files ?d (dir @ ''/kplus'') = Some (kplus ?c)"
    "files ?d (dir @ ''/kminus'') = Some (kminus ?c)"
    "files ?d (dir @ ''/Dcount'') = Some (take n (count_bytes (Dcount ?c)))"
    using sized by (simp_all add: torn_def client_writes_def client_sized_def)
  have v: "readInt (dir @ ''/version'') x ?d = (True, version ?c)" for x
    using sized files(1) by (intro readInt_written) (simp_all add: client_sized_def)
  have keys: "readBytes (dir @ ''/key'') (key new_core) KEYLEN ?d = (True, key ?c)"
    "readBytes (dir @ ''/kplus'') (kplus new_core) KEYLEN ?d = (True, kplus ?c)"
    "readBytes (dir @ ''/kminus'') (kminus new_core) KEYLEN ?d = (True, kminus ?c)"
    using sized files by (auto intro!: readBytes_written simp: client_sized_def new_core_def)
  obtain ok m where m: "readMapCount (dir @ ''/Dcount'') [] ?d = Some (Inr (ok, m))"
    and counts: "\<forall>w c. om_lookup m w = Some c \<longrightarrow> (\<exists>x. om_lookup (Dcount ?c) w = Some x \<and> unat c \<le> unat x)"
    using read_count_torn [of "Dcount ?c" n] sized by (auto simp: readMapCount_def files client_sized_def)
  have "LoadClientFromStorage new_core dir ?d = Some (Inr (ok, new_core\<lparr>version := version ?c, key := key ?c,
      kplus := kplus ?c, kminus := kminus ?c, Dcount := m\<rparr>))"
    using v keys m by (simp add: LoadClientFromStorage_def) (simp add: new_core_def)
  then have "cl_core cl1 = new_core\<lparr>version := version ?c, key := key ?c, kplus := kplus ?c, kminus := kminus ?c, Dcount := m\<rparr>
      \<and> cl_sock cl1 = req_new"
    using load by (cases ok) (auto simp: Client_Load_def new_client_def load_then_def map_load_def obind_Inr_iff split: option.splits if_splits)
  moreover have "unat (case om_lookup m w of None \<Rightarrow> 0 | Some c \<Rightarrow> c) \<le> unat (dcount ?c w)" for w
    using counts by (cases "om_lookup m w") (simp, fastforce simp: dcount_def)
  ultimately show ?thesis by (simp add: same_keys_def dcount_def)
qed

text \<open>
  If the next command takes the counts, every word whose count is not what it was is blocked:
  what is added for it from then on is acknowledged, and never found.
\<close>

lemma torn_counts_block:
  assumes S: "setting P F" and rep: "sys_rep P W (cl, sv) ix" and w: "w \<in> W"
    and load: "Client_Load new_client dir (torn 4 n (client_writes cl dir) d) = Some (Inr (True, cl1))"
    and differ: "dcount (cl_core cl1) w \<noteq> dcount (cl_core cl) w"
    and new: "\<And>f. f \<in> fst ` set adds \<Longrightarrow> (w, f) \<notin> ix_revoked ix"
  shows "\<exists>cl' sv' sv2. sys_run P F (add_ops w adds) (cl1, sv) = Some (Inr (cl', sv'))
    \<and> Client_Search P F (server_net P F) cl' sv' w = Some (Inr (got_response, index_search ix w, cl', sv2))"
proof -
  have r: "represents P W (cl_core cl) (sv_core sv) ix" and sized: "client_sized (cl_core cl)" and ready: "waiting sv"
    using rep by (auto simp: sys_rep_def settled_def)
  note cl1 = torn_counts_loaded [OF sized load]
  have "dcount (cl_core cl) w = of_nat (length (ix_added ix w))" "length (ix_added ix w) < 2 ^ 64"
    using r w by (auto simp: represents_def updates_hold_def)
  then have "unat (dcount (cl_core cl) w) = length (ix_added ix w)" by (simp add: unat_of_nat_u64)
  moreover have "unat (dcount (cl_core cl1) w) \<noteq> unat (dcount (cl_core cl) w)"
    using differ by (simp add: word_unat_eq_iff)
  moreover have "unat (dcount (cl_core cl1) w) \<le> unat (dcount (cl_core cl) w)" using cl1 by blast
  ultimately have "unat (dcount (cl_core cl1) w) < length (ix_added ix w)" by simp
  then have "blocked P w W (cl_core cl) ix (cl_core cl1) (sv_core sv)"
    using r cl1 by (simp add: blocked_def)
  from blocked_run [OF S this w _ ready new] cl1 show ?thesis by blast
qed

text \<open>That can happen: where nothing of \<open>Dcount\<close> was written, loading takes all counts for 0.\<close>

definition forgotten :: "client \<Rightarrow> client" where
  "forgotten cl = reloaded (cl\<lparr>cl_core := (cl_core cl)\<lparr>Dcount := []\<rparr>\<rparr>)"

lemma torn_counts_empty:
  assumes "client_sized (cl_core cl)" "names_sized (fileidMap cl)" "disk_fine dir d"
  shows "Client_Load new_client dir (torn 4 0 (client_writes cl dir) (write_all (client_writes cl dir) d))
    = Some (Inr (True, forgotten cl))"
proof -
  let ?cl = "cl\<lparr>cl_core := (cl_core cl)\<lparr>Dcount := []\<rparr>\<rparr>"
  have "torn 4 0 (client_writes cl dir) (write_all (client_writes cl dir) d) = write_all (client_writes ?cl dir) d"
    by (rule disk.equality) (auto simp: torn_def client_writes_def count_bytes_def fun_eq_iff)
  moreover have "client_sized (cl_core ?cl)" using assms(1) by (simp add: client_sized_def om_inv_empty)
  then have "Client_Load (new_client\<lparr>addr := addr new_client\<rparr>) dir (write_all (client_writes ?cl dir) d)
      = Some (Inr (True, (forgotten cl)\<lparr>addr := addr new_client\<rparr>))"
    unfolding forgotten_def using assms(2) Client_Save_writes [OF assms(3)] by (intro load_saved) simp_all
  ultimately show ?thesis by (simp add: forgotten_def reloaded_def)
qed

end
