(* ===== verification/Toyshared.thy ===== *)
theory Toyshared
  imports Toywire Shared Tornclient
begin

text \<open>
  Two clients of the concrete instance, with keys and words of their own, at one server, and
  a client of the tool whose files are on the disk.
\<close>

section \<open>Keys that are apart\<close>

definition toy_word_key :: "bytes \<Rightarrow> bytes \<Rightarrow> bytes" where
  "toy_word_key mk w = toy_mac mk ([0x31] @ w)"

lemma toy_word_key_eq:
  assumes "length w \<le> 14" "length v \<le> 14" "front (toy_word_key m w) = front (toy_word_key n v)"
  shows "w = v"
proof -
  have "[0x31 :: byte] @ w = [0x31] @ v"
    by (rule toy_mac_message [OF assms(3) [unfolded toy_word_key_def front_toy_mac]]) (use assms(1,2) in simp_all)
  then show ?thesis by simp
qed

lemma KEYLEN_Suc: "KEYLEN = Suc (KEYLEN - 1)"
  by (simp add: KEYLEN_def)

lemma toy_master:
  assumes "length w \<le> 14" "20 < b"
  shows "front (replicate KEYLEN b) \<noteq> front (toy_word_key m w)"
proof
  assume "front (replicate KEYLEN b) = front (toy_word_key m w)"
  then have "hd (front (b # replicate (KEYLEN - 1) b)) = hd (front (of_nat (length ([0x31 :: byte] @ w)) # [0x31] @ w))"
    unfolding toy_word_key_def front_toy_mac by (metis KEYLEN_Suc replicate_Suc)
  then have "b = of_nat (length ([0x31 :: byte] @ w))" unfolding hd_front .
  then have "unat b = length ([0x31 :: byte] @ w)"
    using assms(1) by (simp only: unat_of_nat len_bit0 len_num1) simp
  with assms show False by (simp add: word_less_nat_alt)
qed

lemma toy_masters: "front (replicate KEYLEN b) = front (replicate KEYLEN c) \<Longrightarrow> b = c"
  by (simp add: front_def KEYLEN_def)

definition toy_calls :: "byte \<Rightarrow> bytes set \<Rightarrow> (bytes \<times> bytes) set" where
  "toy_calls b W = mac_calls (replicate KEYLEN b) toy_mac W"

lemma toy_calls_cases:
  assumes "(k, x) \<in> toy_calls b W" "\<And>w. w \<in> W \<Longrightarrow> nul_free w \<and> length w \<le> 14"
  shows "length x < 16 \<and> (k = replicate KEYLEN b \<or> (\<exists>w \<in> W. k = toy_word_key (replicate KEYLEN b) w))"
  using assms by (fastforce simp: toy_calls_def mac_calls_def toy_word_key_def)

lemma toy_calls_key:
  assumes k: "(k, x) \<in> toy_calls d X" "(k', y) \<in> toy_calls e Y" "front k = front k'"
    and X: "\<And>w. w \<in> X \<Longrightarrow> nul_free w \<and> length w \<le> 14" and Y: "\<And>w. w \<in> Y \<Longrightarrow> nul_free w \<and> length w \<le> 14"
    and de: "20 < d" "20 < e" "d = e \<or> X \<inter> Y = {}"
  shows "k = k'"
proof -
  have cases: "k = replicate KEYLEN d \<or> (\<exists>w \<in> X. k = toy_word_key (replicate KEYLEN d) w)"
    "k' = replicate KEYLEN e \<or> (\<exists>w \<in> Y. k' = toy_word_key (replicate KEYLEN e) w)"
    using toy_calls_cases [OF k(1) X] toy_calls_cases [OF k(2) Y] by auto
  from cases show ?thesis
  proof (elim disjE bexE)
    assume "k = replicate KEYLEN d" "k' = replicate KEYLEN e"
    with k(3) show ?thesis using toy_masters by metis
  next
    fix v assume "k = replicate KEYLEN d" "v \<in> Y" "k' = toy_word_key (replicate KEYLEN e) v"
    with k(3) show ?thesis using toy_master [of v d] Y de(1) by metis
  next
    fix w assume "w \<in> X" "k = toy_word_key (replicate KEYLEN d) w" "k' = replicate KEYLEN e"
    with k(3) show ?thesis using toy_master [of w e] X de(2) by metis
  next
    fix w v assume wv: "w \<in> X" "k = toy_word_key (replicate KEYLEN d) w" "v \<in> Y" "k' = toy_word_key (replicate KEYLEN e) v"
    with k(3) have "w = v" using toy_word_key_eq X Y by metis
    with wv de(3) show ?thesis by blast
  qed
qed

lemma toy_key_apart:
  assumes W: "\<And>w. w \<in> W \<Longrightarrow> nul_free w \<and> length w \<le> 14" and V: "\<And>w. w \<in> V \<Longrightarrow> nul_free w \<and> length w \<le> 14"
    and disjoint: "W \<inter> V = {}" and b: "20 < b" "20 < c" "b \<noteq> c"
  shows "key_apart toy W (replicate KEYLEN b) V (replicate KEYLEN c)"
proof -
  have "inj_on (\<lambda>(k, x). toy_mac k x) (toy_calls b W \<union> toy_calls c V)"
  proof (rule inj_onI, clarify)
    fix k x k' y assume p: "(k, x) \<in> toy_calls b W \<union> toy_calls c V" "(k', y) \<in> toy_calls b W \<union> toy_calls c V"
      and eq: "toy_mac k x = toy_mac k' y"
    have "length x < 16" "length y < 16"
      using p toy_calls_cases [of k x b W] toy_calls_cases [of k x c V] toy_calls_cases [of k' y b W]
        toy_calls_cases [of k' y c V] W V by blast+
    then have "x = y" and front: "front k = front k'" using eq toy_mac_message unfolding toy_mac_eq_iff by blast+
    moreover have "k = k'"
      using p
    proof (elim UnE)
      assume "(k, x) \<in> toy_calls b W" "(k', y) \<in> toy_calls b W"
      then show ?thesis by (rule toy_calls_key [OF _ _ front W W b(1,1) disjI1 [OF refl]])
    next
      assume "(k, x) \<in> toy_calls b W" "(k', y) \<in> toy_calls c V"
      then show ?thesis by (rule toy_calls_key [OF _ _ front W V b(1,2) disjI2 [OF disjoint]])
    next
      assume "(k, x) \<in> toy_calls c V" "(k', y) \<in> toy_calls b W"
      then show ?thesis by (rule toy_calls_key [OF _ _ front V W b(2,1) disjI2 [OF disjoint [unfolded Int_commute [of W]]]])
    next
      assume "(k, x) \<in> toy_calls c V" "(k', y) \<in> toy_calls c V"
      then show ?thesis by (rule toy_calls_key [OF _ _ front V V b(2,2) disjI1 [OF refl]])
    qed
    ultimately show "k = k' \<and> x = y" by simp
  qed
  moreover have "replicate KEYLEN b \<noteq> replicate KEYLEN c" using b(3) by (simp add: KEYLEN_def)
  ultimately show ?thesis by (simp add: key_apart_def toy_calls_def)
qed

section \<open>The second client\<close>

definition pig :: bytes where "pig = [0x70, 0x69, 0x67]"

definition pig_devs :: "urandom \<times> urandom \<times> urandom" where
  "pig_devs = (toy_dev 0x31, toy_dev 0x32, toy_dev 0x33)"

definition pig_keys :: core where
  "pig_keys = new_core\<lparr>key := replicate KEYLEN 0x31, kplus := replicate KEYLEN 0x32,
     kminus := replicate KEYLEN 0x33, version := Basic\<rparr>"

definition pig_files :: filemap where "pig_files = [(pig, [5, 6])]"

lemma pig_word: "w \<in> {pig} \<Longrightarrow> nul_free w \<and> length w \<le> 14"
  by (simp add: pig_def nul_free_def)

lemma pig_keys_cf: "keys_cf toy {pig} pig_keys"
proof -
  have "mac_cf toy (replicate KEYLEN b) {pig}" if "20 < b" for b
  proof (rule toy_mac_cf)
    show "replicate KEYLEN b = b # replicate (KEYLEN - 1) b"
      by (simp add: KEYLEN_def replicate_Suc [symmetric] del: replicate_Suc)
  qed (use pig_word that in auto)
  then show ?thesis using pig_word by (simp add: keys_cf_def pig_keys_def)
qed

lemma pig_apart: "apart toy {pig} pig_keys {cat, dog} (toy_keys\<lparr>version := Basic\<rparr>)"
proof -
  have "{pig} \<inter> {cat, dog} = {}" by (simp add: pig_def cat_def dog_def)
  note apart = toy_key_apart [OF pig_word toy_words this]
  have "key_apart toy {pig} (replicate KEYLEN 0x31) {cat, dog} (replicate KEYLEN 0x21)"
    "key_apart toy {pig} (replicate KEYLEN 0x32) {cat, dog} (replicate KEYLEN 0x22)"
    "key_apart toy {pig} (replicate KEYLEN 0x33) {cat, dog} (replicate KEYLEN 0x23)"
    by (rule apart; simp)+
  then show ?thesis by (simp add: apart_def pig_keys_def toy_keys_def)
qed

lemma pig_setup: "\<exists>L M. SetupClient toy pig_devs new_core Basic [pig] pig_files = Some (Inr (pig_keys, L, M))"
proof -
  have "draw_keys pig_devs new_core = Some (Inr (new_core\<lparr>key := replicate KEYLEN 0x31, kplus := replicate KEYLEN 0x32,
      kminus := replicate KEYLEN 0x33\<rparr>))"
    by (simp add: draw_keys_def pig_devs_def random_key_toy)
  from SetupClient_total [OF this, of Basic "[pig]" pig_files toy] show ?thesis
    by (auto simp: pig_keys_def pig_files_def om_count_def)
qed

lemma pig_ids: "setup_ids [pig] pig_files pig = [5, 6]" "total_ids [pig] pig_files = 2"
  by (simp_all add: total_ids_def setup_ids_def pig_files_def)

definition toy_owner :: "nat \<Rightarrow> bytes set" where
  "toy_owner i = (if i = 0 then {cat, dog} else {pig})"

definition toy_indexes :: "nat \<Rightarrow> index" where
  "toy_indexes i = (if i = 0 then without_setup toy_index
     else \<lparr>ix_setup = setup_ids [pig] pig_files, ix_added = (\<lambda>w. []), ix_revoked = {}\<rparr>)"

lemma toy_two_clients:
  assumes "fst ` set xs \<subseteq> {0, 1}" "\<And>i. i \<in> {0, 1} \<Longrightarrow> sys_all_ok (toy_owner i) (own i xs) (toy_indexes i)"
  shows "\<exists>cl0 sv0 cl1 sv1 cls' sv'.
      Client_Setup toy toy_wire (server_net toy toy_wire) toy_devs new_client toy_server Basic toy_tokens toy_files
        = Some (Inr (True, cl0, sv0))
    \<and> Client_Setup toy toy_wire (server_net toy toy_wire) pig_devs new_client sv0 Basic [pig] pig_files
        = Some (Inr (True, cl1, sv1))
    \<and> many_run toy toy_wire xs (\<lambda>i. if i = 0 then cl0 else cl1, sv1) = Some (Inr (cls', sv'))
    \<and> many_rep toy {0, 1} toy_owner (cls', sv') (\<lambda>i. fold index_sys (own i xs) (toy_indexes i))"
proof -
  obtain L0 M0 where run0: "SetupClient toy toy_devs new_core Basic toy_tokens toy_files
      = Some (Inr (toy_keys\<lparr>version := Basic\<rparr>, L0, M0))"
    using toy_setup [of Basic] by auto
  obtain L1 M1 where run1: "SetupClient toy pig_devs new_core Basic [pig] pig_files = Some (Inr (pig_keys, L1, M1))"
    using pig_setup by blast
  have ix0: "toy_indexes 0 = without_setup (setup_index toy (toy_keys\<lparr>version := Basic\<rparr>) (sv_core toy_server) toy_tokens toy_files)"
    by (simp add: toy_indexes_def toy_setup_index)
  have "Srev (sv_core toy_server) = []" by (simp add: toy_server_def new_server_def new_core_def)
  then have ix1: "toy_indexes 1 = setup_index toy pig_keys (sv_core toy_server) [pig] pig_files"
    by (simp add: toy_indexes_def setup_index_def)
  have W: "set toy_tokens \<subseteq> toy_owner 0" "set [pig] \<subseteq> toy_owner 1" "toy_owner 0 = {cat, dog}" "toy_owner 1 = {pig}"
    by (simp_all add: toy_owner_def toy_tokens_def)
  show ?thesis
    by (rule two_clients [OF setting_toy listening_toy run0 run1 W(1,2) _ _ _ _ _ _ _ ix0 ix1 assms])
      (simp_all only: W toy_total pig_ids toy_keys_version_cf pig_keys_cf pig_apart, simp_all)
qed

lemma toy_own_many: "\<exists>cls sv. many_rep toy {0, 1} toy_owner (cls, sv) toy_indexes"
  using toy_two_clients [of "[]"] by (auto simp: toy_owner_def)

lemma toy_owned: "cat \<noteq> pig" "dog \<noteq> pig" "pig \<noteq> cat" "pig \<noteq> dog" "length pig = 3" "length dog = 3"
  by (simp_all add: cat_def dog_def pig_def)

section \<open>Files on the disk\<close>

lemma toy_prog_rep:
  "\<exists>d sv. prog_rep toy {cat, dog} (d, sv) (library toy_library [cats, pets])"
proof -
  have "disk_fine state_dir toy_library" by (simp add: toy_library_def)
  from run_setup_files [OF setting_toy shell_ok_toy plain_toy(1) fresh_server_toy fresh_keys_toy [OF toy_words] this _ files_ok_toy, of "\<lambda>i. []"]
  show ?thesis by auto
qed

lemma toy_print: "print_results (new_client\<lparr>fileidMap := bk_names (library toy_library [cats, pets])\<rparr>) dog
    (index_search (bk_index (library toy_library [cats, pets])) dog) = Inr (result_lines dog [pets])"
proof -
  have "filter (\<lambda>f. dog \<in> file_words toy_library f) [cats, pets] = [pets]"
    using cat_less_dog by (simp add: toy_file_words)
  then show ?thesis using print_library [OF files_ok_toy, of dog] by (simp add: library_def)
qed

text \<open>One id added to \<open>dog\<close>.\<close>

lemma toy_sys_rep_added:
  "\<exists>cl sv. sys_rep toy {cat, dog} (cl, sv) (index_add 9 {dog} toy_index) \<and> version (sv_core sv) = Basic"
proof -
  obtain sv where rep: "sys_rep toy {cat, dog} (new_client\<lparr>cl_core := toy_keys\<lparr>version := Basic\<rparr>\<rparr>, sv) toy_index"
    using toy_sys_rep by blast
  have ok: "sys_ok {cat, dog} (SysAdd 9 [dog] (\<lambda>_. [])) toy_index" by (simp add: toy_index_def dog_def)
  have F: "wire_ok toy_wire" "wire_total toy_wire" "prims_ok toy" using setting_toy by (auto simp: setting_def)
  obtain c sv' where r: "sys_rep toy {cat, dog} (new_client\<lparr>cl_core := c\<rparr>, sv') (index_add 9 {dog} toy_index)"
    and keys: "same_keys c (toy_keys\<lparr>version := Basic\<rparr>)"
    using sys_add [OF F rep ok] by auto
  have "version (sv_core sv') = version c" using r by (simp add: sys_rep_def represents_def)
  then show ?thesis using r keys by (auto simp: same_keys_def)
qed

end
