(* ===== verification/Cipher.thy ===== *)
theory Cipher
  imports Crypto
begin

text \<open>
  libtomcrypt as \<open>DSSE.cpp\<close> calls it: the tables of ciphers (\<open>register_cipher\<close>,
  \<open>find_cipher\<close>, \<open>cipher_is_valid\<close>), the whole of its counter mode (both byte orders, RFC 3686,
  accelerators, the branch for whole blocks), its return codes, and \<open>crypt_or_die\<close>, which
  makes an exit of any of them. The encryption of \<open>Crypto\<close>, which leaves the return codes
  out and takes a byte at a time, is what comes of it once \<open>main\<close> has registered AES.
\<close>

section \<open>Return codes\<close>

text \<open>Those of the enumeration in \<open>tomcrypt.h\<close> that the functions below return; \<open>CRYPT_OK\<close> is \<open>Inr\<close>.\<close>

datatype crypt_err =
    CRYPT_INVALID_CIPHER | CRYPT_INVALID_HASH | CRYPT_INVALID_ARG | CRYPT_INVALID_KEYSIZE
  | CRYPT_INVALID_ROUNDS | CRYPT_BUFFER_OVERFLOW | CRYPT_HASH_OVERFLOW

definition crypt_or_die :: "crypt_err + 'a \<Rightarrow> err + 'a" where
  "crypt_or_die r = (case r of Inl e \<Rightarrow> Inl (Exit 1) | Inr x \<Rightarrow> Inr x)"

lemma crypt_or_die_simps [simp]: "crypt_or_die (Inl e) = Inl (Exit 1)" "crypt_or_die (Inr x) = Inr x"
  by (simp_all add: crypt_or_die_def)

section \<open>Tables\<close>

text \<open>A table of descriptors; \<open>None\<close> is an entry whose name is \<open>NULL\<close>.\<close>

definition TAB_SIZE :: nat where "TAB_SIZE = 32"

fun tab_find :: "('a option \<Rightarrow> bool) \<Rightarrow> int \<Rightarrow> 'a option list \<Rightarrow> int" where
  "tab_find p x [] = - 1"
| "tab_find p x (e # es) = (if p e then x else tab_find p (x + 1) es)"

definition tab_register :: "('a \<Rightarrow> bool) \<Rightarrow> 'a \<Rightarrow> 'a option list \<Rightarrow> 'a option list \<times> int" where
  "tab_register same d tab =
     (let x = tab_find (\<lambda>e. case e of None \<Rightarrow> False | Some c \<Rightarrow> same c) 0 tab in
      if 0 \<le> x then (tab, x)
      else let x = tab_find (\<lambda>e. e = None) 0 tab in
      if 0 \<le> x then (tab[nat x := Some d], x) else (tab, - 1))"

definition tab_valid :: "crypt_err \<Rightarrow> 'a option list \<Rightarrow> int \<Rightarrow> crypt_err + 'a" where
  "tab_valid e tab idx =
     (if idx < 0 \<or> int (length tab) \<le> idx then Inl e
      else case tab ! nat idx of None \<Rightarrow> Inl e | Some d \<Rightarrow> Inr d)"

text \<open>A table as the program starts with it, and after the first registration.\<close>

definition blank_table :: "'a option list" where "blank_table = replicate TAB_SIZE None"

lemma blank_table_Cons: "blank_table = None # replicate 31 None"
  by (simp add: blank_table_def TAB_SIZE_def numeral_nat)

lemma tab_find_none: "tab_find (\<lambda>e. case e of None \<Rightarrow> False | Some c \<Rightarrow> p c) x (replicate n None) = - 1"
  by (induction n arbitrary: x) simp_all

lemma tab_register_blank: "tab_register same d blank_table = (Some d # replicate 31 None, 0)"
  using tab_find_none [of same 0 TAB_SIZE]
  by (simp add: tab_register_def flip: blank_table_def) (simp add: blank_table_Cons)

section \<open>Ciphers\<close>

record 'k cipher_desc =
  cipher_name :: string
  cipher_ID :: nat
  block_length :: nat
  cipher_setup :: "bytes \<Rightarrow> nat \<Rightarrow> nat \<Rightarrow> crypt_err + 'k" \<comment> \<open>key, its length, rounds\<close>
  ecb_encrypt :: "'k \<Rightarrow> bytes \<Rightarrow> crypt_err + bytes"
  accel_ctr_encrypt :: "('k \<Rightarrow> int \<Rightarrow> bytes \<Rightarrow> bytes \<Rightarrow> crypt_err + bytes \<times> bytes) option"
    \<comment> \<open>mode, counter, whole blocks of text; ciphertext and counter\<close>

type_synonym 'k ciphers = "'k cipher_desc option list"

definition find_cipher :: "'k ciphers \<Rightarrow> string \<Rightarrow> int" where
  "find_cipher tab name = tab_find (\<lambda>e. case e of None \<Rightarrow> False | Some c \<Rightarrow> cipher_name c = name) 0 tab"

definition register_cipher :: "'k cipher_desc \<Rightarrow> 'k ciphers \<Rightarrow> 'k ciphers \<times> int" where
  "register_cipher d tab = tab_register (\<lambda>c. cipher_ID c = cipher_ID d) d tab"

definition cipher_is_valid :: "'k ciphers \<Rightarrow> int \<Rightarrow> crypt_err + 'k cipher_desc" where
  "cipher_is_valid tab idx = tab_valid CRYPT_INVALID_CIPHER tab idx"

text \<open>
  \<open>aes_desc\<close>: the checks of \<open>rijndael_setup\<close> are the code's; the block function is the
  parameter of \<open>prims\<close>, so the scheduled key is the key.
\<close>

definition aes_setup :: "bytes \<Rightarrow> nat \<Rightarrow> nat \<Rightarrow> crypt_err + bytes" where
  "aes_setup key keylen num_rounds =
     (if keylen \<noteq> 16 \<and> keylen \<noteq> 24 \<and> keylen \<noteq> 32 then Inl CRYPT_INVALID_KEYSIZE
      else if num_rounds \<noteq> 0 \<and> num_rounds \<noteq> 10 + (keylen div 8 - 2) * 2 then Inl CRYPT_INVALID_ROUNDS
      else Inr (take keylen key))"

definition aes_desc :: "prims \<Rightarrow> bytes cipher_desc" where
  "aes_desc P = \<lparr>cipher_name = ''aes'', cipher_ID = 6, block_length = 16, cipher_setup = aes_setup,
     ecb_encrypt = (\<lambda>k b. Inr (aes_block P k b)), accel_ctr_encrypt = None\<rparr>"

definition registered_ciphers :: "prims \<Rightarrow> bytes ciphers" where
  "registered_ciphers P = fst (register_cipher (aes_desc P) blank_table)"

lemma registered_ciphers: "registered_ciphers P = Some (aes_desc P) # replicate 31 None"
  by (simp add: registered_ciphers_def register_cipher_def tab_register_blank)

lemma find_aes: "find_cipher (registered_ciphers P) ''aes'' = 0"
  "cipher_is_valid (registered_ciphers P) 0 = Inr (aes_desc P)"
  by (simp_all add: find_cipher_def registered_ciphers aes_desc_def cipher_is_valid_def tab_valid_def)

lemma find_aes_blank: "find_cipher blank_table name = - 1" "cipher_is_valid tab (- 1) = Inl CRYPT_INVALID_CIPHER"
  by (simp_all add: find_cipher_def blank_table_def tab_find_none cipher_is_valid_def tab_valid_def)

section \<open>Counter mode, whole\<close>

definition CTR_COUNTER_LITTLE_ENDIAN :: int where "CTR_COUNTER_LITTLE_ENDIAN = 0"
definition CTR_COUNTER_BIG_ENDIAN :: int where "CTR_COUNTER_BIG_ENDIAN = 0x1000"
definition LTC_CTR_RFC3686 :: int where "LTC_CTR_RFC3686 = 0x2000"
definition MAXBLOCKSIZE :: nat where "MAXBLOCKSIZE = 128"

record 'k symmetric_CTR =
  sc_cipher :: int
  sc_blocklen :: nat
  sc_padlen :: nat
  sc_mode :: int
  sc_ctrlen :: nat
  sc_ctr :: bytes
  sc_pad :: bytes
  sc_key :: 'k

text \<open>
  The counter is counted up in its first \<open>ctrlen\<close> bytes, or, in big endian order, from its
  last byte down to that at \<open>ctrlen\<close>; the rest of it is the nonce.
\<close>

definition bump_ctr :: "int \<Rightarrow> nat \<Rightarrow> bytes \<Rightarrow> bytes" where
  "bump_ctr mode ctrlen c =
     (if mode = CTR_COUNTER_LITTLE_ENDIAN then ctr_increment (take ctrlen c) @ drop ctrlen c
      else take ctrlen c @ rev (ctr_increment (rev (drop ctrlen c))))"

definition ltc_ctr_start ::
  "'k ciphers \<Rightarrow> int \<Rightarrow> bytes \<Rightarrow> bytes \<Rightarrow> nat \<Rightarrow> nat \<Rightarrow> int \<Rightarrow> crypt_err + 'k symmetric_CTR" where
  "ltc_ctr_start tab cipher IV key keylen num_rounds ctr_mode =
     rbind (cipher_is_valid tab cipher) (\<lambda>d.
       let ctrlen = (if ctr_mode AND 255 \<noteq> 0 then nat (ctr_mode AND 255) else block_length d) in
       if block_length d < ctrlen then Inl CRYPT_INVALID_ARG
       else let ctrlen = (if ctr_mode AND 0x1000 = CTR_COUNTER_BIG_ENDIAN then block_length d - ctrlen else ctrlen) in
       rbind (cipher_setup d key keylen num_rounds) (\<lambda>k.
         let mode = ctr_mode AND 0x1000;
             c = take (block_length d) IV;
             c = (if ctr_mode AND LTC_CTR_RFC3686 \<noteq> 0 then bump_ctr mode ctrlen c else c)
         in rbind (ecb_encrypt d k c) (\<lambda>pad.
              Inr \<lparr>sc_cipher = cipher, sc_blocklen = block_length d, sc_padlen = 0, sc_mode = mode,
                   sc_ctrlen = ctrlen, sc_ctr = c, sc_pad = pad, sc_key = k\<rparr>)))"

text \<open>A new pad, when the old one is used up.\<close>

definition ltc_refill :: "'k cipher_desc \<Rightarrow> 'k symmetric_CTR \<Rightarrow> crypt_err + 'k symmetric_CTR" where
  "ltc_refill d s =
     (if sc_padlen s = sc_blocklen s then
        let c = bump_ctr (sc_mode s) (sc_ctrlen s) (sc_ctr s)
        in rbind (ecb_encrypt d (sc_key s) c) (\<lambda>pad. Inr (s\<lparr>sc_ctr := c, sc_pad := pad, sc_padlen := 0\<rparr>))
      else Inr s)"

lemma ltc_refill_blocklen: "ltc_refill d s = Inr s' \<Longrightarrow> sc_blocklen s' = sc_blocklen s"
  by (auto simp: ltc_refill_def Let_def rbind_Inr_iff split: if_splits)

text \<open>
  \<open>while (len)\<close>. With \<open>LTC_FAST\<close> a fresh pad is XORed to a whole block at once; \<open>blocklen\<close>
  is at least 1, as \<open>ctr_encrypt\<close> has checked before.
\<close>

function ltc_ctr_loop :: "bool \<Rightarrow> 'k cipher_desc \<Rightarrow> bytes \<Rightarrow> 'k symmetric_CTR \<Rightarrow> crypt_err + bytes \<times> 'k symmetric_CTR" where
  "ltc_ctr_loop fast d pt s =
     (if pt = [] then Inr ([], s)
      else rbind (ltc_refill d s) (\<lambda>s.
        if fast \<and> sc_padlen s = 0 \<and> 1 \<le> sc_blocklen s \<and> sc_blocklen s \<le> length pt
        then rbind (ltc_ctr_loop fast d (drop (sc_blocklen s) pt) (s\<lparr>sc_padlen := sc_blocklen s\<rparr>))
               (\<lambda>(ct, s'). Inr (map2 (XOR) (take (sc_blocklen s) pt) (sc_pad s) @ ct, s'))
        else rbind (ltc_ctr_loop fast d (tl pt) (s\<lparr>sc_padlen := sc_padlen s + 1\<rparr>))
               (\<lambda>(ct, s'). Inr ((hd pt XOR sc_pad s ! sc_padlen s) # ct, s'))))"
  by pat_completeness auto
termination by (relation "measure (\<lambda>(fast, d, pt, s). length pt)") auto

declare ltc_ctr_loop.simps [simp del]

text \<open>
  The accelerator takes the whole blocks; \<open>len\<close> is what is left of them, but \<open>pt\<close> and \<open>ct\<close>
  still point to the start, so the loop takes the first bytes again and writes over the
  first of the ciphertext (what is behind the whole blocks stays unwritten). AES has none.
\<close>

definition ltc_ctr_encrypt ::
  "nat option \<Rightarrow> 'k ciphers \<Rightarrow> bytes \<Rightarrow> 'k symmetric_CTR \<Rightarrow> crypt_err + bytes \<times> 'k symmetric_CTR" where
  "ltc_ctr_encrypt fast tab pt s =
     rbind (cipher_is_valid tab (sc_cipher s)) (\<lambda>d.
       if sc_blocklen s < 1 \<or> MAXBLOCKSIZE < sc_blocklen s \<or> MAXBLOCKSIZE < sc_padlen s then Inl CRYPT_INVALID_ARG
       else if (case fast of None \<Rightarrow> False | Some word_size \<Rightarrow> sc_blocklen s mod word_size \<noteq> 0) then Inl CRYPT_INVALID_ARG
       else case accel_ctr_encrypt d of
         Some accel \<Rightarrow>
           if sc_padlen s = sc_blocklen s \<and> sc_blocklen s \<le> length pt
           then let n = length pt mod sc_blocklen s in
             rbind (accel (sc_key s) (sc_mode s) (sc_ctr s) (take (length pt - n) pt)) (\<lambda>(ct, c).
               rbind (ltc_ctr_loop (fast \<noteq> None) d (take n pt) (s\<lparr>sc_ctr := c\<rparr>)) (\<lambda>(ct', s').
                 Inr (write_prefix ct ct', s')))
           else ltc_ctr_loop (fast \<noteq> None) d pt s
       | None \<Rightarrow> ltc_ctr_loop (fast \<noteq> None) d pt s)"

definition ltc_ctr_decrypt ::
  "nat option \<Rightarrow> 'k ciphers \<Rightarrow> bytes \<Rightarrow> 'k symmetric_CTR \<Rightarrow> crypt_err + bytes \<times> 'k symmetric_CTR" where
  "ltc_ctr_decrypt fast tab ct s = ltc_ctr_encrypt fast tab ct s"

definition ltc_ctr_done :: "'k ciphers \<Rightarrow> 'k symmetric_CTR \<Rightarrow> crypt_err + unit" where
  "ltc_ctr_done tab s = rbind (cipher_is_valid tab (sc_cipher s)) (\<lambda>d. Inr ())"

section \<open>encrypt_bytes and decrypt_bytes, call by call\<close>

definition lib_encrypt_bytes :: "nat option \<Rightarrow> 'k ciphers \<Rightarrow> bytes \<Rightarrow> bytes \<Rightarrow> err + bytes" where
  "lib_encrypt_bytes fast tab key msg =
     (let IV = replicate 16 0 in
      rbind (crypt_or_die (ltc_ctr_start tab (find_cipher tab ''aes'') IV key KEYLEN 0 CTR_COUNTER_LITTLE_ENDIAN)) (\<lambda>ctr.
      rbind (crypt_or_die (ltc_ctr_encrypt fast tab msg ctr)) (\<lambda>(ct, ctr).
      rbind (crypt_or_die (ltc_ctr_done tab ctr)) (\<lambda>_. Inr (IV @ ct)))))"

definition lib_decrypt_bytes :: "nat option \<Rightarrow> 'k ciphers \<Rightarrow> bytes \<Rightarrow> bytes \<Rightarrow> nat \<Rightarrow> nat \<Rightarrow> err + bytes" where
  "lib_decrypt_bytes fast tab key ctext ctextlen outsize =
     (if length ctext < 16 then Inl Undefined
      else rbind (crypt_or_die (ltc_ctr_start tab (find_cipher tab ''aes'') (take 16 ctext) key KEYLEN 0
          CTR_COUNTER_LITTLE_ENDIAN)) (\<lambda>ctr.
      if ctextlen < 16 \<or> length ctext < ctextlen \<or> outsize < ctextlen - 16 then Inl Undefined
      else rbind (crypt_or_die (ltc_ctr_decrypt fast tab (take (ctextlen - 16) (drop 16 ctext)) ctr)) (\<lambda>(pt, ctr).
      rbind (crypt_or_die (ltc_ctr_done tab ctr)) (\<lambda>_. Inr pt))))"

section \<open>They are the encryption of the model\<close>

text \<open>A state of the library and one of \<open>Crypto\<close>.\<close>

definition same_ctr :: "prims \<Rightarrow> bytes symmetric_CTR \<Rightarrow> ctr_state \<Rightarrow> bool" where
  "same_ctr P s t \<longleftrightarrow> sc_blocklen s = 16 \<and> sc_mode s = 0 \<and> sc_ctrlen s = 16 \<and> sc_ctr s = ctr t \<and> sc_pad s = pad t
     \<and> sc_padlen s = padlen t \<and> sc_key s = ctr_key t \<and> length (ctr t) = 16 \<and> length (pad t) = 16 \<and> padlen t \<le> 16"

lemma length_ctr_increment [simp]: "length (ctr_increment c) = length c"
  by (induction c) simp_all

definition block_ok :: "prims \<Rightarrow> bool" where
  "block_ok P \<longleftrightarrow> (\<forall>k b. length b = 16 \<longrightarrow> length (aes_block P k b) = 16)"

lemma refill_same:
  assumes "block_ok P" "same_ctr P s t"
  shows "\<exists>s'. ltc_refill (aes_desc P) s = Inr s' \<and> same_ctr P s' (ctr_refill P t) \<and> padlen (ctr_refill P t) < 16"
  using assms
  by (auto simp: ltc_refill_def ctr_refill_def same_ctr_def aes_desc_def block_ok_def bump_ctr_def
      CTR_COUNTER_LITTLE_ENDIAN_def Let_def)

text \<open>A stretch of one pad, byte by byte or at once.\<close>

lemma ctr_encrypt_stretch:
  "n \<le> length pt \<Longrightarrow> padlen t + n \<le> 16 \<Longrightarrow> length (pad t) = 16 \<Longrightarrow>
   ctr_encrypt P pt t = map2 (XOR) (take n pt) (take n (drop (padlen t) (pad t)))
     @ ctr_encrypt P (drop n pt) (t\<lparr>padlen := padlen t + n\<rparr>)"
proof (induction n arbitrary: pt t)
  case (Suc n)
  obtain b pt' where pt: "pt = b # pt'" using Suc.prems(1) by (cases pt) auto
  let ?t = "t\<lparr>padlen := Suc (padlen t)\<rparr>"
  have "ctr_refill P t = t" using Suc.prems by (simp add: ctr_refill_def)
  moreover have "ctr_encrypt P pt' ?t = map2 (XOR) (take n pt') (take n (drop (padlen ?t) (pad ?t)))
      @ ctr_encrypt P (drop n pt') (?t\<lparr>padlen := padlen ?t + n\<rparr>)"
    using Suc.prems by (intro Suc.IH) (simp_all add: pt)
  moreover have "take (Suc n) (drop (padlen t) (pad t)) = pad t ! padlen t # take n (drop (Suc (padlen t)) (pad t))"
    using Suc.prems by (simp add: Cons_nth_drop_Suc [symmetric])
  ultimately show ?case by (simp add: pt Let_def)
qed simp

lemma loop_same:
  assumes P: "block_ok P"
  shows "same_ctr P s t \<Longrightarrow> \<exists>s'. ltc_ctr_loop fast (aes_desc P) pt s = Inr (ctr_encrypt P pt t, s') \<and> sc_cipher s' = sc_cipher s"
proof (induction pt arbitrary: s t rule: length_induct)
  case (1 pt)
  show ?case
  proof (cases pt)
    case Nil
    then show ?thesis by (simp add: ltc_ctr_loop.simps)
  next
    case (Cons b pt')
    let ?t = "ctr_refill P t"
    obtain s1 where s1: "ltc_refill (aes_desc P) s = Inr s1" "same_ctr P s1 ?t" "padlen ?t < 16"
      using refill_same [OF P 1(2)] by blast
    have cipher: "sc_cipher s1 = sc_cipher s"
      using s1(1) by (auto simp: ltc_refill_def Let_def rbind_Inr_iff split: if_splits)
    note eqs = s1(2) [unfolded same_ctr_def]
    have again: "ctr_encrypt P pt t = ctr_encrypt P pt ?t"
      using s1(3) by (simp add: Cons ctr_refill_def)
    have refill: "ctr_refill P ?t = ?t" using s1(3) by (simp add: ctr_refill_def [of P "ctr_refill P t"])
    show ?thesis
    proof (cases "fast \<and> padlen ?t = 0 \<and> 16 \<le> length pt")
      case True
      have "same_ctr P (s1\<lparr>sc_padlen := 16\<rparr>) (?t\<lparr>padlen := 16\<rparr>)" using s1(2) by (simp add: same_ctr_def)
      moreover have "length (drop 16 pt) < length pt" using Cons by simp
      ultimately obtain s' where "ltc_ctr_loop fast (aes_desc P) (drop 16 pt) (s1\<lparr>sc_padlen := 16\<rparr>)
          = Inr (ctr_encrypt P (drop 16 pt) (?t\<lparr>padlen := 16\<rparr>), s')" "sc_cipher s' = sc_cipher s"
        using 1(1) cipher by (metis symmetric_CTR.select_convs(1) symmetric_CTR.surjective symmetric_CTR.update_convs(3))
      moreover have "ctr_encrypt P pt ?t = map2 (XOR) (take 16 pt) (pad ?t) @ ctr_encrypt P (drop 16 pt) (?t\<lparr>padlen := 16\<rparr>)"
        using ctr_encrypt_stretch [of 16 pt ?t P] True eqs by simp
      ultimately show ?thesis
        using True s1(1) eqs Cons again by (subst ltc_ctr_loop.simps) simp
    next
      case False
      have "same_ctr P (s1\<lparr>sc_padlen := padlen ?t + 1\<rparr>) (?t\<lparr>padlen := Suc (padlen ?t)\<rparr>)"
        using s1(2,3) by (simp add: same_ctr_def)
      moreover have "length pt' < length pt" using Cons by simp
      ultimately obtain s' where "ltc_ctr_loop fast (aes_desc P) pt' (s1\<lparr>sc_padlen := padlen ?t + 1\<rparr>)
          = Inr (ctr_encrypt P pt' (?t\<lparr>padlen := Suc (padlen ?t)\<rparr>), s')" "sc_cipher s' = sc_cipher s"
        using 1(1) cipher by (metis symmetric_CTR.select_convs(1) symmetric_CTR.surjective symmetric_CTR.update_convs(3))
      then show ?thesis
        using False s1(1) eqs refill by (subst ltc_ctr_loop.simps) (auto simp: Cons Let_def)
    qed
  qed
qed

lemma start_same:
  assumes "block_ok P" "length IV = 16" "length key = KEYLEN"
  shows "\<exists>s. ltc_ctr_start (registered_ciphers P) 0 IV key KEYLEN 0 CTR_COUNTER_LITTLE_ENDIAN = Inr s
    \<and> same_ctr P s (ctr_start P IV key) \<and> sc_cipher s = 0"
  using assms
  by (simp add: ltc_ctr_start_def find_aes) (simp add: aes_desc_def aes_setup_def same_ctr_def ctr_start_def sizes block_ok_def
      CTR_COUNTER_LITTLE_ENDIAN_def CTR_COUNTER_BIG_ENDIAN_def Let_def)

lemma encrypt_same:
  assumes "block_ok P" "same_ctr P s t" "sc_cipher s = 0" "fast \<in> {None, Some 4, Some 8}"
  shows "\<exists>s'. ltc_ctr_encrypt fast (registered_ciphers P) pt s = Inr (ctr_encrypt P pt t, s') \<and> sc_cipher s' = 0"
proof -
  have "sc_blocklen s = 16" "sc_padlen s \<le> 16" using assms(2) by (simp_all add: same_ctr_def)
  moreover have "accel_ctr_encrypt (aes_desc P) = None" by (simp add: aes_desc_def)
  ultimately show ?thesis
    using loop_same [OF assms(1,2), of "fast \<noteq> None" pt] assms(3,4)
    by (auto simp: ltc_ctr_encrypt_def find_aes MAXBLOCKSIZE_def)
qed

lemma library_encrypts:
  assumes P: "block_ok P" "length key = KEYLEN" and fast: "fast \<in> {None, Some 4, Some 8}"
  shows "lib_encrypt_bytes fast (registered_ciphers P) key msg = Inr (encrypt_bytes P key msg)"
    and "16 \<le> length ctext \<Longrightarrow>
      lib_decrypt_bytes fast (registered_ciphers P) key ctext n outsize = decrypt_bytes P key ctext n outsize"
proof -
  let ?tab = "registered_ciphers P"
  have done_ok: "ltc_ctr_done ?tab s = Inr ()" if "sc_cipher s = 0" for s
    using that by (simp add: ltc_ctr_done_def find_aes)
  have zero: "length (replicate 16 (0 :: byte)) = 16" by simp
  obtain s where s: "ltc_ctr_start ?tab 0 (replicate 16 0) key KEYLEN 0 CTR_COUNTER_LITTLE_ENDIAN = Inr s"
    "same_ctr P s (ctr_start P (replicate 16 0) key)" "sc_cipher s = 0"
    using start_same [OF P(1) zero P(2)] by blast
  obtain s' where "ltc_ctr_encrypt fast ?tab msg s = Inr (ctr_encrypt P msg (ctr_start P (replicate 16 0) key), s')" "sc_cipher s' = 0"
    using encrypt_same [OF P(1) s(2,3) fast] by blast
  then show "lib_encrypt_bytes fast ?tab key msg = Inr (encrypt_bytes P key msg)"
    using done_ok by (simp add: lib_encrypt_bytes_def encrypt_bytes_def find_aes s(1) Let_def)
  assume len: "16 \<le> length ctext"
  then have "length (take 16 ctext) = 16" by simp
  from start_same [OF P(1) this P(2)] obtain s where
    s: "ltc_ctr_start ?tab 0 (take 16 ctext) key KEYLEN 0 CTR_COUNTER_LITTLE_ENDIAN = Inr s"
    "same_ctr P s (ctr_start P (take 16 ctext) key)" "sc_cipher s = 0"
    by blast
  let ?ct = "take (n - 16) (drop 16 ctext)"
  obtain s' where "ltc_ctr_encrypt fast ?tab ?ct s = Inr (ctr_encrypt P ?ct (ctr_start P (take 16 ctext) key), s')" "sc_cipher s' = 0"
    using encrypt_same [OF P(1) s(2,3) fast] by blast
  then show "lib_decrypt_bytes fast ?tab key ctext n outsize = decrypt_bytes P key ctext n outsize"
    using done_ok len
    by (simp add: lib_decrypt_bytes_def decrypt_bytes_def ltc_ctr_decrypt_def ctr_decrypt_def find_aes s(1))
qed

text \<open>Where \<open>main\<close> has not registered AES, the first encryption exits.\<close>

lemma library_missing: "lib_encrypt_bytes fast blank_table key msg = Inl (Exit 1)"
  by (simp add: lib_encrypt_bytes_def ltc_ctr_start_def find_aes_blank)

end
