(* ===== verification/Hmac.thy ===== *)
theory Hmac
  imports Cipher
begin

text \<open>
  HMAC-SHA-256 of libtomcrypt as \<open>mac_key\<close>, \<open>mac_counter\<close> and \<open>mac_long\<close> call it:
  \<open>hmac_init\<close>, \<open>hmac_process\<close>, \<open>hmac_done\<close> over the table of hashes, and the streaming of
  SHA-256 (buffer, length, padding) with its return codes. The compression function is a
  parameter. Fed in pieces it gives what FIPS 180 and FIPS 198 say of the message as a whole,
  which is the function \<open>hmac_sha256\<close> of the record \<open>prims\<close>.
\<close>

section \<open>SHA-256 as a stream\<close>

type_synonym compress = "32 word list \<Rightarrow> bytes \<Rightarrow> 32 word list"

definition compress_ok :: "compress \<Rightarrow> bool" where
  "compress_ok c \<longleftrightarrow> (\<forall>st b. length st = 8 \<longrightarrow> length (c st b) = 8)"

text \<open>\<open>buf\<close> is the part of the buffer that is in use; its length is \<open>curlen\<close>.\<close>

record sha256_state =
  sh_length :: u64
  sh_state :: "32 word list"
  sh_buf :: bytes

definition SHA_INIT :: "32 word list" where
  "SHA_INIT = [0x6A09E667, 0xBB67AE85, 0x3C6EF372, 0xA54FF53A, 0x510E527F, 0x9B05688C, 0x1F83D9AB, 0x5BE0CD19]"

definition be32 :: "32 word \<Rightarrow> bytes" where
  "be32 w = [ucast (drop_bit 24 w), ucast (drop_bit 16 w), ucast (drop_bit 8 w), ucast w]"

definition be64 :: "u64 \<Rightarrow> bytes" where
  "be64 v = rev (putu64 v)"

lemma length_be [simp]: "length (be64 v) = 8" "length (be32 w) = 4"
  by (simp_all add: be64_def be32_def)

definition sha256_init :: sha256_state where
  "sha256_init = \<lparr>sh_length = 0, sh_state = SHA_INIT, sh_buf = []\<rparr>"

text \<open>The buffer is full: it is compressed, and counted.\<close>

definition sha_block :: "compress \<Rightarrow> sha256_state \<Rightarrow> bytes \<Rightarrow> sha256_state" where
  "sha_block c md b = md\<lparr>sh_state := c (sh_state md) b, sh_length := sh_length md + 512, sh_buf := []\<rparr>"

text \<open>
  The loop of \<open>HASH_PROCESS\<close>: whole blocks directly from the input while the buffer is
  empty, otherwise through the buffer, which holds 64 bytes at most (checked before).
\<close>

function sha256_loop :: "compress \<Rightarrow> sha256_state \<Rightarrow> bytes \<Rightarrow> sha256_state" where
  "sha256_loop c md inp =
     (if inp = [] \<or> 64 < length (sh_buf md) then md
      else if sh_buf md = [] \<and> 64 \<le> length inp then sha256_loop c (sha_block c md (take 64 inp)) (drop 64 inp)
      else let n = min (length inp) (64 - length (sh_buf md)); b = sh_buf md @ take n inp in
        if length b = 64 then sha256_loop c (sha_block c md b) (drop n inp)
        else sha256_loop c (md\<lparr>sh_buf := b\<rparr>) (drop n inp))"
  by pat_completeness auto
termination
  by (relation "measure (\<lambda>(c, md, inp). 2 * length inp + (if length (sh_buf md) = 64 then 1 else 0))")
    (auto simp: sha_block_def)

declare sha256_loop.simps [simp del]

definition sha256_process :: "compress \<Rightarrow> sha256_state \<Rightarrow> bytes \<Rightarrow> crypt_err + sha256_state" where
  "sha256_process c md inp =
     (if 64 < length (sh_buf md) then Inl CRYPT_INVALID_ARG
      else if sh_length md + of_nat (length inp) < sh_length md then Inl CRYPT_HASH_OVERFLOW
      else Inr (sha256_loop c md inp))"

definition sha256_done :: "compress \<Rightarrow> sha256_state \<Rightarrow> crypt_err + bytes" where
  "sha256_done c md =
     (if 64 \<le> length (sh_buf md) then Inl CRYPT_INVALID_ARG
      else
        (let len = sh_length md + of_nat (length (sh_buf md) * 8);
             b = sh_buf md @ [0x80];
             (st, b) = (if 56 < length b then (c (sh_state md) (b @ replicate (64 - length b) 0), []) else (sh_state md, b));
             b = b @ replicate (56 - length b) 0
         in Inr (concat (map be32 (take 8 (c st (b @ be64 len)))))))"

section \<open>SHA-256 of a message\<close>

fun blocks :: "bytes \<Rightarrow> bytes list" where
  "blocks m = (if length m < 64 then [] else take 64 m # blocks (drop 64 m))"

declare blocks.simps [simp del]

definition sha_padding :: "nat \<Rightarrow> bytes" where
  "sha_padding n = 0x80 # replicate ((119 - n mod 64) mod 64) 0 @ be64 (of_nat (8 * n))"

definition sha256 :: "compress \<Rightarrow> bytes \<Rightarrow> bytes" where
  "sha256 c m = concat (map be32 (take 8 (foldl c SHA_INIT (blocks (m @ sha_padding (length m))))))"

lemma blocks_short [simp]: "length m < 64 \<Longrightarrow> blocks m = []"
  by (subst blocks.simps) simp

lemma blocks_one [simp]: "length m = 64 \<Longrightarrow> blocks m = [m]"
  by (subst blocks.simps) simp

lemma blocks_two: "length a = 64 \<Longrightarrow> length b = 64 \<Longrightarrow> blocks (a @ b) = [a, b]"
  by (subst blocks.simps) simp

definition tail_of :: "bytes \<Rightarrow> bytes" where
  "tail_of m = drop (64 * (length m div 64)) m"

lemma length_rest: "length (tail_of m) = length m mod 64"
  by (simp add: tail_of_def minus_div_mult_eq_mod [symmetric] mult.commute)

lemma rest_drop: "64 \<le> length m \<Longrightarrow> tail_of (drop 64 m) = tail_of m"
proof -
  assume len: "64 \<le> length m"
  then have "length m div 64 = Suc ((length m - 64) div 64)" by (simp add: le_div_geq)
  then show ?thesis by (simp add: tail_of_def add.commute)
qed

lemma blocks_append: "blocks (m @ xs) = blocks m @ blocks (tail_of m @ xs)"
proof (induction m rule: blocks.induct)
  case (1 m)
  show ?case
  proof (cases "length m < 64")
    case True
    then show ?thesis by (simp add: tail_of_def)
  next
    case False
    then have "blocks (m @ xs) = take 64 m # blocks (drop 64 m @ xs)" by (subst blocks.simps) simp
    also have "\<dots> = take 64 m # blocks (drop 64 m) @ blocks (tail_of m @ xs)"
      using 1 False rest_drop [of m] by simp
    also have "\<dots> = blocks m @ blocks (tail_of m @ xs)" using False by (subst (3) blocks.simps) simp
    finally show ?thesis .
  qed
qed

lemma rest_append:
  "length (tail_of m @ b) < 64 \<Longrightarrow> tail_of (m @ b) = tail_of m @ b \<and> length (m @ b) div 64 = length m div 64"
  "length (tail_of m @ b) = 64 \<Longrightarrow> tail_of (m @ b) = [] \<and> length (m @ b) div 64 = Suc (length m div 64)"
proof -
  have split: "length (m @ b) = 64 * (length m div 64) + length (tail_of m @ b)" by (simp add: length_rest)
  show "tail_of (m @ b) = tail_of m @ b \<and> length (m @ b) div 64 = length m div 64" if len: "length (tail_of m @ b) < 64"
  proof -
    have "length (m @ b) div 64 = length m div 64" unfolding split using len by simp
    then show ?thesis unfolding tail_of_def [of "m @ b"] by (simp add: tail_of_def)
  qed
  show "tail_of (m @ b) = [] \<and> length (m @ b) div 64 = Suc (length m div 64)" if len: "length (tail_of m @ b) = 64"
  proof -
    have "length (m @ b) div 64 = Suc (length m div 64)" unfolding split using len by simp
    moreover have "length (m @ b) mod 64 = 0" unfolding split using len by simp
    ultimately show ?thesis using length_rest [of "m @ b"] by simp
  qed
qed

section \<open>The stream computes it\<close>

definition absorbed :: "compress \<Rightarrow> bytes \<Rightarrow> sha256_state \<Rightarrow> bool" where
  "absorbed c m md \<longleftrightarrow> sh_state md = foldl c SHA_INIT (blocks m) \<and> sh_buf md = tail_of m
     \<and> sh_length md = of_nat (512 * (length m div 64))"

lemma absorbed_init: "absorbed c [] sha256_init"
  by (simp add: absorbed_def sha256_init_def tail_of_def)

lemma absorbed_part:
  assumes a: "absorbed c m md" and len: "length (sh_buf md @ b) < 64"
  shows "absorbed c (m @ b) (md\<lparr>sh_buf := sh_buf md @ b\<rparr>)"
proof -
  have buf: "sh_buf md = tail_of m" using a by (simp add: absorbed_def)
  note r = rest_append(1) [OF len [unfolded buf]]
  have "blocks (m @ b) = blocks m" using blocks_append [of m b] len buf by simp
  then show ?thesis
    using a r by (simp add: absorbed_def del: length_append)
qed

lemma absorbed_block:
  assumes a: "absorbed c m md" and len: "length (sh_buf md @ b) = 64"
  shows "absorbed c (m @ b) (sha_block c md (sh_buf md @ b))"
proof -
  have buf: "sh_buf md = tail_of m" using a by (simp add: absorbed_def)
  note r = rest_append(2) [OF len [unfolded buf]]
  have "blocks (m @ b) = blocks m @ [tail_of m @ b]" using blocks_append [of m b] len buf by simp
  moreover have "(of_nat (512 * Suc k) :: u64) = of_nat (512 * k) + 512" for k
    by (simp only: mult_Suc_right of_nat_add of_nat_numeral add.commute)
  ultimately show ?thesis
    using a r by (simp add: absorbed_def sha_block_def del: length_append of_nat_mult mult_Suc_right)
qed

lemma absorbed_short: "absorbed c m md \<Longrightarrow> length (sh_buf md) < 64"
  by (simp add: absorbed_def length_rest)

lemma absorbed_loop: "absorbed c m md \<Longrightarrow> absorbed c (m @ inp) (sha256_loop c md inp)"
proof (induction c md inp arbitrary: m rule: sha256_loop.induct)
  case (1 c md inp)
  have short: "length (sh_buf md) < 64" using 1(4) by (rule absorbed_short)
  let ?n = "min (length inp) (64 - length (sh_buf md))"
  consider "inp = []" | "inp \<noteq> []" "sh_buf md = []" "64 \<le> length inp"
    | "inp \<noteq> []" "\<not> (sh_buf md = [] \<and> 64 \<le> length inp)" "length (sh_buf md @ take ?n inp) = 64"
    | "inp \<noteq> []" "\<not> (sh_buf md = [] \<and> 64 \<le> length inp)" "length (sh_buf md @ take ?n inp) \<noteq> 64"
    by blast
  then show ?case
  proof cases
    case 1
    then show ?thesis using \<open>absorbed c m md\<close> by (simp add: sha256_loop.simps)
  next
    case 2
    have "absorbed c (m @ take 64 inp) (sha_block c md (sh_buf md @ take 64 inp))"
      using 2 by (intro absorbed_block [OF 1(4)]) simp
    then have "absorbed c ((m @ take 64 inp) @ drop 64 inp) (sha256_loop c (sha_block c md (take 64 inp)) (drop 64 inp))"
      using 2 short by (intro "1.IH"(1)) simp_all
    then show ?thesis using 2 by (simp add: sha256_loop.simps [of c md inp])
  next
    case 3
    have "absorbed c (m @ take ?n inp) (sha_block c md (sh_buf md @ take ?n inp))" by (rule absorbed_block [OF 1(4) 3(3)])
    then have "absorbed c ((m @ take ?n inp) @ drop ?n inp) (sha256_loop c (sha_block c md (sh_buf md @ take ?n inp)) (drop ?n inp))"
      using 3 short by (intro "1.IH"(2) [OF _ _ refl refl]) simp_all
    then show ?thesis using 3 short unfolding sha256_loop.simps [of c md inp] by (simp only: append_assoc append_take_drop_id Let_def if_True if_False simp_thms) simp
  next
    case 4
    have "length (sh_buf md @ take ?n inp) < 64" using 4 short by auto
    then have "absorbed c (m @ take ?n inp) (md\<lparr>sh_buf := sh_buf md @ take ?n inp\<rparr>)" by (rule absorbed_part [OF 1(4)])
    then have "absorbed c ((m @ take ?n inp) @ drop ?n inp) (sha256_loop c (md\<lparr>sh_buf := sh_buf md @ take ?n inp\<rparr>) (drop ?n inp))"
      using 4 short by (intro "1.IH"(3) [OF _ _ refl refl]) simp_all
    then show ?thesis using 4 short unfolding sha256_loop.simps [of c md inp] by (simp only: append_assoc append_take_drop_id Let_def if_True if_False simp_thms) simp
  qed
qed

text \<open>The bits counted with the full blocks, and those of the rest.\<close>

lemma bits_of_blocks: "512 * (n div 64) + n mod 64 * 8 = 8 * (n :: nat)" "512 * (n div 64) \<le> 8 * n"
proof -
  have split: "512 * q + r * 8 = 8 * k" "512 * q \<le> 8 * k" if "k = 64 * q + r" for q r k :: nat
    using that by simp_all
  have n: "n = 64 * (n div 64) + n mod 64" by simp
  show "512 * (n div 64) + n mod 64 * 8 = 8 * n" by (rule split(1) [OF n])
  show "512 * (n div 64) \<le> 8 * n" by (rule split(2) [OF n])
qed

text \<open>Any pieces, one after the other.\<close>

lemma sha256_process_absorbs:
  assumes "absorbed c m md" "length (m @ inp) < 2 ^ 60"
  shows "\<exists>md'. sha256_process c md inp = Inr md' \<and> absorbed c (m @ inp) md'"
proof -
  let ?l = "512 * (length m div 64)"
  have len: "?l + length inp < 2 ^ 64"
  proof -
    have "?l \<le> 8 * length m" by (rule bits_of_blocks(2))
    then show ?thesis using assms(2) by simp
  qed
  have "unat (of_nat ?l :: u64) = ?l" by (rule unat_of_nat_u64) (use len in simp)
  moreover have "unat (of_nat ?l + of_nat (length inp) :: u64) = ?l + length inp"
    using unat_of_nat_u64 [OF len] by simp
  ultimately have "\<not> (of_nat ?l + of_nat (length inp) :: u64) < of_nat ?l" by (simp only: word_less_nat_alt)
  then show ?thesis
    using absorbed_loop [OF assms(1), of inp] absorbed_short [OF assms(1)] assms(1)
    by (simp add: sha256_process_def absorbed_def)
qed

lemma zeros_short: "r < 56 \<Longrightarrow> (119 - r) mod 64 = 55 - (r :: nat)"
proof -
  assume "r < 56"
  then have "119 - r = 55 - r + 64" "55 - r < 64" by simp_all
  then show ?thesis by (simp only: mod_add_self2 mod_less)
qed

lemma sha256_done_absorbed:
  assumes c: "compress_ok c" and a: "absorbed c m md"
  shows "sha256_done c md = Inr (sha256 c m)"
proof -
  have st: "sh_state md = foldl c SHA_INIT (blocks m)" and buf: "sh_buf md = tail_of m"
    and len: "sh_length md = of_nat (512 * (length m div 64))"
    using a by (simp_all add: absorbed_def)
  let ?r = "length m mod 64"
  have r: "length (tail_of m) = ?r" "?r < 64" by (simp_all add: length_rest)
  have bits: "sh_length md + of_nat (?r * 8) = of_nat (8 * length m)"
    unfolding len of_nat_add [symmetric] bits_of_blocks(1) ..
  let ?tail = "be64 (of_nat (8 * length m))"
  have all: "blocks (m @ sha_padding (length m)) = blocks m @ blocks (tail_of m @ sha_padding (length m))"
    by (rule blocks_append)
  show ?thesis
  proof (cases "?r < 56")
    case True
    then have "(119 - ?r) mod 64 = 55 - ?r" by (rule zeros_short)
    then have pad: "sha_padding (length m) = 0x80 # replicate (55 - ?r) 0 @ ?tail" by (simp add: sha_padding_def)
    have "length (tail_of m @ sha_padding (length m)) = 64" using True r by (simp add: pad)
    then have "blocks (m @ sha_padding (length m)) = blocks m @ [tail_of m @ sha_padding (length m)]" unfolding all by simp
    moreover have "sha256_done c md = Inr (concat (map be32 (take 8 (c (sh_state md) (tail_of m @ 0x80 # replicate (55 - ?r) 0 @ ?tail)))))"
      using True r bits by (simp add: sha256_done_def buf Let_def)
    ultimately show ?thesis by (simp add: sha256_def st pad)
  next
    case False
    then have "(119 - ?r) mod 64 = 119 - ?r" using r(2) by (intro mod_less) linarith
    then have pad: "sha_padding (length m) = 0x80 # replicate (119 - ?r) 0 @ ?tail" by (simp add: sha_padding_def)
    have cut: "replicate (119 - ?r) (0 :: byte) = replicate (63 - ?r) 0 @ replicate 56 0"
      using False r(2) by (simp flip: replicate_add)
    have first: "tail_of m @ sha_padding (length m) = (tail_of m @ 0x80 # replicate (63 - ?r) 0) @ replicate 56 0 @ ?tail"
      by (simp add: pad cut)
    have "length (tail_of m @ 0x80 # replicate (63 - ?r) 0) = 64" using False r by simp
    then have "blocks (tail_of m @ sha_padding (length m)) = [tail_of m @ 0x80 # replicate (63 - ?r) 0, replicate 56 0 @ ?tail]"
      unfolding first by (rule blocks_two) simp
    then have "blocks (m @ sha_padding (length m)) = blocks m @ [tail_of m @ 0x80 # replicate (63 - ?r) 0, replicate 56 0 @ ?tail]"
      unfolding all by simp
    moreover have "sha256_done c md = Inr (concat (map be32 (take 8 (c (c (sh_state md) (tail_of m @ 0x80 # replicate (63 - ?r) 0))
        (replicate 56 0 @ ?tail)))))"
      using False r bits by (simp add: sha256_done_def buf Let_def)
    ultimately show ?thesis by (simp add: sha256_def st)
  qed
qed

lemma length_sha256 [simp]: "compress_ok c \<Longrightarrow> length (sha256 c m) = 32"
proof -
  assume c: "compress_ok c"
  have "length (foldl c st bs) = 8" if "length st = 8" for st bs
    using that c by (induction bs arbitrary: st) (simp_all add: compress_ok_def)
  then have "length (foldl c SHA_INIT bs) = 8" for bs by (simp add: SHA_INIT_def)
  then show ?thesis by (simp add: sha256_def length_concat comp_def sum_list_triv)
qed

section \<open>Hashes\<close>

record 'h hash_desc =
  hash_name :: string
  hashsize :: nat
  blocksize :: nat
  hash_init :: "crypt_err + 'h"
  hash_process :: "'h \<Rightarrow> bytes \<Rightarrow> crypt_err + 'h"
  hash_done :: "'h \<Rightarrow> crypt_err + bytes"

type_synonym 'h hashes = "'h hash_desc option list"

definition find_hash :: "'h hashes \<Rightarrow> string \<Rightarrow> int" where
  "find_hash tab name = tab_find (\<lambda>e. case e of None \<Rightarrow> False | Some h \<Rightarrow> hash_name h = name) 0 tab"

definition hash_is_valid :: "'h hashes \<Rightarrow> int \<Rightarrow> crypt_err + 'h hash_desc" where
  "hash_is_valid tab idx = tab_valid CRYPT_INVALID_HASH tab idx"

definition sha256_desc :: "compress \<Rightarrow> sha256_state hash_desc" where
  "sha256_desc c = \<lparr>hash_name = ''sha256'', hashsize = 32, blocksize = 64, hash_init = Inr sha256_init,
     hash_process = sha256_process c, hash_done = sha256_done c\<rparr>"

text \<open>The table after \<open>register_hash(&sha256_desc)\<close> at the start of \<open>main\<close>.\<close>

definition registered_hashes :: "compress \<Rightarrow> sha256_state hashes" where
  "registered_hashes c = fst (tab_register (\<lambda>h. hash_name h = ''sha256'') (sha256_desc c) blank_table)"

lemma registered_hashes: "registered_hashes c = Some (sha256_desc c) # replicate 31 None"
  by (simp add: registered_hashes_def tab_register_blank)

lemma find_sha256: "find_hash (registered_hashes c) ''sha256'' = 0"
  "hash_is_valid (registered_hashes c) 0 = Inr (sha256_desc c)"
  by (simp_all add: find_hash_def registered_hashes sha256_desc_def hash_is_valid_def tab_valid_def)

definition hash_memory :: "'h hashes \<Rightarrow> int \<Rightarrow> bytes \<Rightarrow> nat \<Rightarrow> crypt_err + bytes" where
  "hash_memory tab hash inp outlen =
     rbind (hash_is_valid tab hash) (\<lambda>d.
       if outlen < hashsize d then Inl CRYPT_BUFFER_OVERFLOW
       else rbind (hash_init d) (\<lambda>md. rbind (hash_process d md inp) (\<lambda>md. hash_done d md)))"

section \<open>HMAC\<close>

record 'h hmac_state =
  hm_md :: 'h
  hm_hash :: int
  hm_key :: bytes

definition hmac_init :: "'h hashes \<Rightarrow> int \<Rightarrow> bytes \<Rightarrow> nat \<Rightarrow> crypt_err + 'h hmac_state" where
  "hmac_init tab hash key keylen =
     rbind (hash_is_valid tab hash) (\<lambda>d.
       if keylen = 0 then Inl CRYPT_INVALID_KEYSIZE
       else rbind (if blocksize d < keylen then hash_memory tab hash (take keylen key) (blocksize d)
                   else Inr (take keylen key)) (\<lambda>k.
         let k = k @ replicate (blocksize d - length k) 0 in
         rbind (hash_init d) (\<lambda>md. rbind (hash_process d md (map (\<lambda>b. b XOR 0x36) k)) (\<lambda>md.
           Inr \<lparr>hm_md = md, hm_hash = hash, hm_key = k\<rparr>))))"

definition hmac_process :: "'h hashes \<Rightarrow> 'h hmac_state \<Rightarrow> bytes \<Rightarrow> crypt_err + 'h hmac_state" where
  "hmac_process tab s inp =
     rbind (hash_is_valid tab (hm_hash s)) (\<lambda>d. rbind (hash_process d (hm_md s) inp) (\<lambda>md. Inr (s\<lparr>hm_md := md\<rparr>)))"

definition hmac_done :: "'h hashes \<Rightarrow> 'h hmac_state \<Rightarrow> nat \<Rightarrow> crypt_err + bytes" where
  "hmac_done tab s outlen =
     rbind (hash_is_valid tab (hm_hash s)) (\<lambda>d.
     rbind (hash_done d (hm_md s)) (\<lambda>isha.
     rbind (hash_init d) (\<lambda>md.
     rbind (hash_process d md (map (\<lambda>b. b XOR 0x5C) (hm_key s))) (\<lambda>md.
     rbind (hash_process d md isha) (\<lambda>md.
     rbind (hash_done d md) (\<lambda>buf. Inr (take (min (hashsize d) outlen) buf)))))))"

text \<open>HMAC of FIPS 198 over SHA-256, for keys of at most a block.\<close>

definition hmac_key :: "bytes \<Rightarrow> bytes" where
  "hmac_key k = k @ replicate (64 - length k) 0"

definition hmac :: "compress \<Rightarrow> bytes \<Rightarrow> bytes \<Rightarrow> bytes" where
  "hmac c k m = sha256 c (map (\<lambda>b. b XOR 0x5C) (hmac_key k)
     @ sha256 c (map (\<lambda>b. b XOR 0x36) (hmac_key k) @ m))"

text \<open>The primitives of the model, from the library.\<close>

definition lib_prims :: "compress \<Rightarrow> (bytes \<Rightarrow> bytes \<Rightarrow> bytes) \<Rightarrow> prims" where
  "lib_prims c aes = \<lparr>hmac_sha256 = hmac c, aes_block = aes\<rparr>"

lemma lib_prims_ok:
  assumes "compress_ok c" "\<And>k b. length b = 16 \<Longrightarrow> length (aes k b) = 16"
  shows "prims_ok (lib_prims c aes)"
  using assms by (simp add: prims_ok_def lib_prims_def hmac_def sizes)

section \<open>The MACs, call by call\<close>

definition lib_mac_key :: "'h hashes \<Rightarrow> bytes \<Rightarrow> byte \<Rightarrow> bytes \<Rightarrow> err + bytes" where
  "lib_mac_key tab key keynum token =
     (let hash = find_hash tab ''sha256'' in
      rbind (crypt_or_die (hmac_init tab hash key KEYLEN)) (\<lambda>s.
      rbind (crypt_or_die (hmac_process tab s [keynum])) (\<lambda>s.
      rbind (crypt_or_die (hmac_process tab s (c_str token))) (\<lambda>s.
      crypt_or_die (hmac_done tab s DIGESTLEN)))))"

definition lib_mac_counter :: "'h hashes \<Rightarrow> bytes \<Rightarrow> bytes \<Rightarrow> err + bytes" where
  "lib_mac_counter tab key message =
     (let hash = find_hash tab ''sha256'' in
      rbind (crypt_or_die (hmac_init tab hash key KEYLEN)) (\<lambda>s.
      rbind (crypt_or_die (hmac_process tab s message)) (\<lambda>s.
      crypt_or_die (hmac_done tab s DIGESTLEN))))"

definition lib_mac_long :: "'h hashes \<Rightarrow> bytes \<Rightarrow> u64 \<Rightarrow> err + bytes" where
  "lib_mac_long tab key counter =
     (let hash = find_hash tab ''sha256'' in
      rbind (crypt_or_die (hmac_init tab hash key KEYLEN)) (\<lambda>s.
      rbind (crypt_or_die (hmac_process tab s (putu64 counter))) (\<lambda>s.
      crypt_or_die (hmac_done tab s DIGESTLEN))))"

section \<open>They are the MACs of the model\<close>

text \<open>A state that has taken \<open>m\<close> behind the inner key block.\<close>

definition fed :: "compress \<Rightarrow> bytes \<Rightarrow> bytes \<Rightarrow> sha256_state hmac_state \<Rightarrow> bool" where
  "fed c key m s \<longleftrightarrow> hm_hash s = 0 \<and> hm_key s = hmac_key key
     \<and> absorbed c (map (\<lambda>b. b XOR 0x36) (hmac_key key) @ m) (hm_md s)"

lemma length_hmac_key: "length key = KEYLEN \<Longrightarrow> length (hmac_key key) = 64"
  by (simp add: hmac_key_def sizes)

lemma hmac_init_fed:
  assumes "length key = KEYLEN"
  shows "\<exists>s. hmac_init (registered_hashes c) 0 key KEYLEN = Inr s \<and> fed c key [] s"
proof -
  let ?k = "map (\<lambda>b. b XOR 0x36) (hmac_key key)"
  have "length ([] @ ?k) < 2 ^ 60" using length_hmac_key [OF assms] by simp
  then obtain md where md: "sha256_process c sha256_init ?k = Inr md" "absorbed c ([] @ ?k) md"
    using sha256_process_absorbs [OF absorbed_init] by blast
  have "hmac_init (registered_hashes c) 0 key KEYLEN = Inr \<lparr>hm_md = md, hm_hash = 0, hm_key = hmac_key key\<rparr>"
    using assms md(1) by (simp add: hmac_init_def hmac_key_def find_sha256 sha256_desc_def sizes Let_def)
  with md(2) show ?thesis by (simp add: fed_def)
qed

lemma hmac_process_fed:
  assumes "fed c key m s" "length key = KEYLEN" "64 + length m + length inp < 2 ^ 60"
  shows "\<exists>s'. hmac_process (registered_hashes c) s inp = Inr s' \<and> fed c key (m @ inp) s'"
proof -
  let ?k = "map (\<lambda>b. b XOR 0x36) (hmac_key key)"
  have a: "absorbed c (?k @ m) (hm_md s)" and s: "hm_hash s = 0" "hm_key s = hmac_key key"
    using assms(1) by (simp_all add: fed_def)
  have "length ((?k @ m) @ inp) < 2 ^ 60" using length_hmac_key [OF assms(2)] assms(3) by simp
  then obtain md where "sha256_process c (hm_md s) inp = Inr md" "absorbed c ((?k @ m) @ inp) md"
    using sha256_process_absorbs [OF a] by blast
  then show ?thesis using s by (simp add: hmac_process_def find_sha256 sha256_desc_def fed_def)
qed

lemma hmac_done_fed:
  assumes c: "compress_ok c" and fed: "fed c key m s" and key: "length key = KEYLEN"
  shows "hmac_done (registered_hashes c) s DIGESTLEN = Inr (hmac c key m)"
proof -
  let ?k = "map (\<lambda>b. b XOR 0x5C) (hmac_key key)"
  let ?isha = "sha256 c (map (\<lambda>b. b XOR 0x36) (hmac_key key) @ m)"
  have s: "hm_hash s = 0" "hm_key s = hmac_key key"
    and isha: "sha256_done c (hm_md s) = Inr ?isha"
    using fed sha256_done_absorbed [OF c] by (simp_all add: fed_def)
  have len: "length (hmac_key key) = 64" by (rule length_hmac_key [OF key])
  have "length ([] @ ?k) < 2 ^ 60" using len by simp
  then obtain md where md: "sha256_process c sha256_init ?k = Inr md" "absorbed c ([] @ ?k) md"
    using sha256_process_absorbs [OF absorbed_init] by blast
  have "length (([] @ ?k) @ ?isha) < 2 ^ 60" using len c by simp
  then obtain md' where md': "sha256_process c md ?isha = Inr md'" "absorbed c (([] @ ?k) @ ?isha) md'"
    using sha256_process_absorbs [OF md(2)] by blast
  have "sha256_done c md' = Inr (hmac c key m)"
    using sha256_done_absorbed [OF c md'(2)] by (simp add: hmac_def)
  moreover have "length (hmac c key m) = 32" using c by (simp add: hmac_def)
  ultimately show ?thesis
    using s isha md(1) md'(1) by (simp add: hmac_done_def find_sha256 sha256_desc_def sizes)
qed

text \<open>Two pieces, as in \<open>mac_key\<close>, or one.\<close>

lemma library_hmac:
  assumes c: "compress_ok c" and key: "length key = KEYLEN" and len: "64 + length x + length y < 2 ^ 60"
  shows "rbind (crypt_or_die (hmac_init (registered_hashes c) 0 key KEYLEN)) (\<lambda>s.
      rbind (crypt_or_die (hmac_process (registered_hashes c) s x)) (\<lambda>s.
      rbind (crypt_or_die (hmac_process (registered_hashes c) s y)) (\<lambda>s.
      crypt_or_die (hmac_done (registered_hashes c) s DIGESTLEN)))) = Inr (hmac c key (x @ y))"
    and "rbind (crypt_or_die (hmac_init (registered_hashes c) 0 key KEYLEN)) (\<lambda>s.
      rbind (crypt_or_die (hmac_process (registered_hashes c) s x)) (\<lambda>s.
      crypt_or_die (hmac_done (registered_hashes c) s DIGESTLEN))) = Inr (hmac c key x)"
proof -
  obtain s where s: "hmac_init (registered_hashes c) 0 key KEYLEN = Inr s" "fed c key [] s"
    using hmac_init_fed [OF key] by blast
  obtain s1 where s1: "hmac_process (registered_hashes c) s x = Inr s1" "fed c key x s1"
    using hmac_process_fed [OF s(2) key, of x] len by auto
  obtain s2 where s2: "hmac_process (registered_hashes c) s1 y = Inr s2" "fed c key (x @ y) s2"
    using hmac_process_fed [OF s1(2) key, of y] len by auto
  show "rbind (crypt_or_die (hmac_init (registered_hashes c) 0 key KEYLEN)) (\<lambda>s.
      rbind (crypt_or_die (hmac_process (registered_hashes c) s x)) (\<lambda>s.
      rbind (crypt_or_die (hmac_process (registered_hashes c) s y)) (\<lambda>s.
      crypt_or_die (hmac_done (registered_hashes c) s DIGESTLEN)))) = Inr (hmac c key (x @ y))"
    by (simp add: s(1) s1(1) s2(1) hmac_done_fed [OF c s2(2) key])
  show "rbind (crypt_or_die (hmac_init (registered_hashes c) 0 key KEYLEN)) (\<lambda>s.
      rbind (crypt_or_die (hmac_process (registered_hashes c) s x)) (\<lambda>s.
      crypt_or_die (hmac_done (registered_hashes c) s DIGESTLEN))) = Inr (hmac c key x)"
    by (simp add: s(1) s1(1) hmac_done_fed [OF c s1(2) key])
qed

lemma library_macs:
  assumes c: "compress_ok c" and key: "length key = KEYLEN"
  shows "length token < 2 ^ 59 \<Longrightarrow>
      lib_mac_key (registered_hashes c) key keynum token = Inr (mac_key (lib_prims c aes) key keynum token)"
    and "length message < 2 ^ 59 \<Longrightarrow>
      lib_mac_counter (registered_hashes c) key message = Inr (mac_counter (lib_prims c aes) key message)"
    and "lib_mac_long (registered_hashes c) key counter = Inr (mac_long (lib_prims c aes) key counter)"
proof -
  have "length (c_str token) \<le> length token" by (simp add: c_str_def length_takeWhile_le)
  then show "length token < 2 ^ 59 \<Longrightarrow>
      lib_mac_key (registered_hashes c) key keynum token = Inr (mac_key (lib_prims c aes) key keynum token)"
    using library_hmac(1) [OF c key, of "[keynum]" "c_str token"]
    by (simp add: lib_mac_key_def mac_key_def lib_prims_def find_sha256)
  show "length message < 2 ^ 59 \<Longrightarrow>
      lib_mac_counter (registered_hashes c) key message = Inr (mac_counter (lib_prims c aes) key message)"
    using library_hmac(2) [OF c key, of message "[]"]
    by (simp add: lib_mac_counter_def mac_counter_def lib_prims_def find_sha256)
  show "lib_mac_long (registered_hashes c) key counter = Inr (mac_long (lib_prims c aes) key counter)"
    using library_hmac(2) [OF c key, of "putu64 counter" "[]"]
    by (simp add: lib_mac_long_def mac_long_def lib_prims_def find_sha256)
qed

end
