(* ===== verification/Sha256.thy ===== *)
theory Sha256
  imports Hmac
begin

text \<open>
  The compression function of SHA-256 (\<open>sha256_compress\<close> of \<open>sha256.c\<close>, in the form of
  \<open>LTC_SMALL_CODE\<close>; the other form unrolls its loop) and the primitives of the model that
  come of it. What is left of the library is the block function of AES.
\<close>

section \<open>sha256_compress\<close>

definition Ch :: "32 word \<Rightarrow> 32 word \<Rightarrow> 32 word \<Rightarrow> 32 word" where
  "Ch x y z = z XOR (x AND (y XOR z))"

definition Maj :: "32 word \<Rightarrow> 32 word \<Rightarrow> 32 word \<Rightarrow> 32 word" where
  "Maj x y z = ((x OR y) AND z) OR (x AND y)"

definition Sigma0 :: "32 word \<Rightarrow> 32 word" where
  "Sigma0 x = word_rotr 2 x XOR word_rotr 13 x XOR word_rotr 22 x"

definition Sigma1 :: "32 word \<Rightarrow> 32 word" where
  "Sigma1 x = word_rotr 6 x XOR word_rotr 11 x XOR word_rotr 25 x"

definition Gamma0 :: "32 word \<Rightarrow> 32 word" where
  "Gamma0 x = word_rotr 7 x XOR word_rotr 18 x XOR drop_bit 3 x"

definition Gamma1 :: "32 word \<Rightarrow> 32 word" where
  "Gamma1 x = word_rotr 17 x XOR word_rotr 19 x XOR drop_bit 10 x"

text \<open>\<open>LOAD32H\<close>, and the words \<open>W\<close> of a block.\<close>

definition load32 :: "bytes \<Rightarrow> 32 word" where
  "load32 b = push_bit 24 (ucast (b ! 0)) OR push_bit 16 (ucast (b ! 1)) OR push_bit 8 (ucast (b ! 2)) OR ucast (b ! 3)"

definition sha_expand :: "32 word list \<Rightarrow> 32 word list" where
  "sha_expand W = (let i = length W in
     W @ [Gamma1 (W ! (i - 2)) + W ! (i - 7) + Gamma0 (W ! (i - 15)) + W ! (i - 16)])"

definition sha_words :: "bytes \<Rightarrow> 32 word list" where
  "sha_words b = (sha_expand ^^ 48) (map (\<lambda>i. load32 (drop (4 * i) b)) [0..<16])"

text \<open>\<open>RND\<close> and the shift of the eight words behind it.\<close>

definition sha_round :: "32 word list \<Rightarrow> 32 word \<times> 32 word \<Rightarrow> 32 word list" where
  "sha_round S kw =
     (let t0 = S ! 7 + Sigma1 (S ! 4) + Ch (S ! 4) (S ! 5) (S ! 6) + fst kw + snd kw;
          t1 = Sigma0 (S ! 0) + Maj (S ! 0) (S ! 1) (S ! 2)
      in [t0 + t1, S ! 0, S ! 1, S ! 2, S ! 3 + t0, S ! 4, S ! 5, S ! 6])"

definition sha256_compress :: "32 word list \<Rightarrow> compress" where
  "sha256_compress K st b = map2 (+) st (foldl sha_round st (zip K (sha_words b)))"

lemma sha256_compress_ok: "compress_ok (sha256_compress K)"
proof -
  have "length (foldl sha_round st kws) = 8" if "length st = 8" for st kws
    using that by (induction kws arbitrary: st) (simp_all add: sha_round_def Let_def)
  then show ?thesis by (simp add: compress_ok_def sha256_compress_def)
qed

section \<open>The primitives\<close>

text \<open>What the model assumes of its primitives holds of these, for any table \<open>K\<close> and any
  block function of AES.\<close>

definition tomcrypt :: "32 word list \<Rightarrow> (bytes \<Rightarrow> bytes \<Rightarrow> bytes) \<Rightarrow> prims" where
  "tomcrypt K aes = lib_prims (sha256_compress K) aes"

lemma tomcrypt_ok:
  "(\<And>k b. length b = 16 \<Longrightarrow> length (aes k b) = 16) \<Longrightarrow> prims_ok (tomcrypt K aes)"
  unfolding tomcrypt_def by (rule lib_prims_ok [OF sha256_compress_ok])

end
