(* ===== verification/Serving.thy ===== *)
theory Serving
  imports System
begin

text \<open>
  What the server says. The abstract server is \<open>Core\<close> alone: for each request the reply
  (\<open>reply_to\<close>) and the core after it (\<open>core_after\<close>), without socket, messages, files and the
  flag that says what is to be saved. \<open>ListenAndServe\<close> refines it; and the requests it does
  not answer are those that end it with \<open>zmq::error_t\<close>.
\<close>

section \<open>The abstract server\<close>

definition reply_to :: "prims \<Rightarrow> wire \<Rightarrow> core \<Rightarrow> request \<Rightarrow> bytes option" where
  "reply_to P F c req =
     (case body req of
        SetupMsg L M \<Rightarrow> Some []
      | SearchMsg m \<Rightarrow> (case SearchServer P c (keys_of m) of Some (Inr ids) \<Rightarrow> ser_search F ids | _ \<Rightarrow> None)
      | AddMsg L \<Rightarrow> ser_result F (AddResult (map (\<lambda>x. x \<noteq> 0) (snd (AddServer c L))))
      | DeleteMsg L \<Rightarrow> ser_result F DeleteResult
      | NoMsg \<Rightarrow> None)"

definition core_after :: "core \<Rightarrow> request \<Rightarrow> core" where
  "core_after c req =
     (case body req of
        SetupMsg L M \<Rightarrow> SetupServer c (rq_version req) L M
      | AddMsg L \<Rightarrow> fst (AddServer c L)
      | DeleteMsg L \<Rightarrow> DeleteServer c L
      | _ \<Rightarrow> c)"

fun core_replies :: "prims \<Rightarrow> wire \<Rightarrow> core \<Rightarrow> request list \<Rightarrow> bytes list option" where
  "core_replies P F c [] = Some []"
| "core_replies P F c (req # reqs) =
     (case reply_to P F c req of
        None \<Rightarrow> None
      | Some b \<Rightarrow> map_option ((#) b) (core_replies P F (core_after c req) reqs))"

section \<open>Cores that differ in the dirty flag\<close>

definition same_index :: "core \<Rightarrow> core \<Rightarrow> bool" where
  "same_index c c' \<longleftrightarrow> c' = c\<lparr>dirtyD := dirtyD c'\<rparr>"

lemma same_index_refl [simp]: "same_index c c" "same_index c (c\<lparr>dirtyD := x\<rparr>)"
  by (simp_all add: same_index_def)

lemma same_index_trans: "same_index a b \<Longrightarrow> same_index b c \<Longrightarrow> same_index a c"
  unfolding same_index_def by (cases a; cases b; cases c) simp

lemma same_index_fields:
  "same_index a b \<Longrightarrow> version b = version a \<and> D b = D a \<and> A b = A a \<and> Dplus b = Dplus a \<and> Srev b = Srev a"
  unfolding same_index_def by (cases a; cases b) simp

lemma push_dirty [simp]: "push_unless_revoked P (c\<lparr>dirtyD := x\<rparr>) = push_unless_revoked P c"
  by (simp add: fun_eq_iff push_unless_revoked_def)

lemma walk_pointers_dirty: "walk_pointers P (c\<lparr>dirtyD := x\<rparr>) K2 K1minus b is = walk_pointers P c K2 K1minus b is"
proof -
  have "fileid_block_ids P (c\<lparr>dirtyD := x\<rparr>) = fileid_block_ids P c"
    unfolding fun_eq_iff fileid_block_ids_def push_dirty by simp
  then show ?thesis by (induction "is") (simp_all cong: if_cong)
qed

lemma SearchServer_dirty: "SearchServer P (c\<lparr>dirtyD := x\<rparr>) ks = SearchServer P c ks"
proof -
  have "entry_basic P (c\<lparr>dirtyD := x\<rparr>) = entry_basic P c" "entry_packed P (c\<lparr>dirtyD := x\<rparr>) = entry_packed P c"
    "entry_pointer P (c\<lparr>dirtyD := x\<rparr>) = entry_pointer P c"
    unfolding fun_eq_iff entry_basic_def entry_packed_def entry_pointer_def push_dirty walk_pointers_dirty by simp_all
  moreover from this(1) have "scan_Dplus P (c\<lparr>dirtyD := x\<rparr>) = scan_Dplus P c"
    unfolding scan_Dplus_def by (intro ext) simp
  ultimately show ?thesis
    by (simp add: SearchServer_def SearchServerBasic_def SearchServerPacked_def SearchServerPointer_def)
qed

lemma AddServer_dirty:
  "AddServer (c\<lparr>dirtyD := x\<rparr>) L = ((fst (AddServer c L))\<lparr>dirtyD := x\<rparr>, snd (AddServer c L))"
proof -
  have "foldl add_server_step (c\<lparr>dirtyD := x\<rparr>, r) L
      = (\<lambda>(c, r). (c\<lparr>dirtyD := x\<rparr>, r)) (foldl add_server_step (c, r) L)" for c r
  proof (induction L arbitrary: c r)
    case (Cons p L)
    have "add_server_step (c\<lparr>dirtyD := x\<rparr>, r) p = (\<lambda>(c, r). (c\<lparr>dirtyD := x\<rparr>, r)) (add_server_step (c, r) p)"
      by (simp add: add_server_step_def)
    with Cons.IH [of "fst (add_server_step (c, r) p)" "snd (add_server_step (c, r) p)"] show ?case
      by (simp add: case_prod_beta)
  qed simp
  then show ?thesis by (simp add: AddServer_def case_prod_beta)
qed

lemma same_index_replies:
  assumes "same_index c c'"
  shows "reply_to P F c' req = reply_to P F c req" "same_index (core_after c req) (core_after c' req)"
proof -
  obtain x where x: "c' = c\<lparr>dirtyD := x\<rparr>" using assms unfolding same_index_def by blast
  show "reply_to P F c' req = reply_to P F c req"
    by (simp add: x reply_to_def SearchServer_dirty AddServer_dirty split: request_body.split)
  show "same_index (core_after c req) (core_after c' req)"
  proof (cases "body req")
    case (SetupMsg L M)
    then show ?thesis by (simp add: x core_after_def SetupServer_eq)
  next
    case (DeleteMsg L)
    then show ?thesis by (cases c) (simp add: x core_after_def DeleteServer_eq same_index_def)
  qed (simp_all add: x core_after_def AddServer_dirty)
qed

section \<open>One request\<close>

lemma serve_one_replies:
  assumes w: "waiting s" and req: "parse_request F msg = Some req" "well_formed req"
    and b: "reply_to P F (sv_core s) req = Some b"
  shows "\<exists>s'. serve_one P F s msg = Some (Inr s') \<and> waiting s' \<and> outbox (sv_sock s') = outbox (sv_sock s) @ [b]
    \<and> same_index (core_after (sv_core s) req) (sv_core s') \<and> (has_search req \<longrightarrow> sv_disk s' = sv_disk s)"
proof -
  let ?t = "answered b ((received s)\<lparr>sv_core := core_after (sv_core s) req\<rparr>)"
  have "HandleMessage P F (received s) req = Some (Inr ?t)"
  proof (cases "body req")
    case (SearchMsg m)
    then obtain ids where "SearchServer P (sv_core s) (keys_of m) = Some (Inr ids)" "ser_search F ids = Some b"
      using b by (auto simp: reply_to_def split: option.splits sum.splits)
    then show ?thesis
      using SearchMsg req(2)
      by (simp add: HandleMessage_def HandleSearch_def well_formed_def server_send_ready answered_def core_after_def)
  qed (use b req(2) in \<open>simp_all add: reply_to_def HandleMessage_def HandleSetup_def HandleAdd_def HandleDelete_def
      well_formed_def rep_send_ready server_send_ready answered_def core_after_def Let_def case_prod_beta\<close>)
  then have run: "serve_one P F s msg = Some (Inr (save_state req ?t))"
    using w req(1) by (simp add: loop_defs received_def)
  have "same_index (core_after (sv_core s) req) (sv_core (save_state req ?t))"
    using save_state_dirty [of req ?t] by auto
  moreover have "has_search req \<longrightarrow> sv_disk (save_state req ?t) = sv_disk s" by (simp add: save_state_def)
  ultimately show ?thesis using run by (simp add: waiting_def)
qed

section \<open>All requests\<close>

lemma ListenAndServe_replies:
  assumes "waiting s" "list_all2 (\<lambda>msg req. parse_request F msg = Some req \<and> well_formed req) msgs reqs"
    and "same_index c (sv_core s)" "core_replies P F c reqs = Some bs"
  shows "\<exists>s'. ListenAndServe P F s msgs = Some (Inr s') \<and> waiting s' \<and> outbox (sv_sock s') = outbox (sv_sock s) @ bs
    \<and> same_index (foldl core_after c reqs) (sv_core s')"
  using assms
proof (induction msgs arbitrary: s c reqs bs)
  case Nil
  then show ?case by (simp add: await_waiting)
next
  case (Cons msg msgs)
  obtain req reqs' where reqs: "reqs = req # reqs'" and req: "parse_request F msg = Some req" "well_formed req"
    and rest: "list_all2 (\<lambda>msg req. parse_request F msg = Some req \<and> well_formed req) msgs reqs'"
    using Cons.prems(2) by (auto simp: list_all2_Cons1)
  obtain b bs' where b: "reply_to P F c req = Some b" "bs = b # bs'" "core_replies P F (core_after c req) reqs' = Some bs'"
    using Cons.prems(4) by (auto simp: reqs split: option.splits)
  then have "reply_to P F (sv_core s) req = Some b" using same_index_replies(1) [OF Cons.prems(3)] by simp
  from serve_one_replies [OF Cons.prems(1) req this] obtain s1 where
    s1: "serve_one P F s msg = Some (Inr s1)" "waiting s1" "outbox (sv_sock s1) = outbox (sv_sock s) @ [b]"
      "same_index (core_after (sv_core s) req) (sv_core s1)" by blast
  have "same_index (core_after c req) (sv_core s1)"
    using same_index_trans [OF same_index_replies(2) [OF Cons.prems(3)] s1(4)] .
  from Cons.IH [OF s1(2) rest this b(3)] show ?case using s1(1,3) by (auto simp: reqs b(2))
qed

section \<open>Requests without a reply\<close>

text \<open>What a turn leaves can receive.\<close>

lemma serve_one_await: "serve_one P F s msg = Some (Inr s') \<Longrightarrow> await s' = Inr s'"
  by (auto simp: serve_one_def await_waiting obind_Inr_iff Let_def split: sum.splits if_splits)

lemma serve_one_ZmqError_iff:
  assumes w: "waiting s" and F: "wire_total F"
  shows "serve_one P F s msg = Some (Inl ZmqError) \<longleftrightarrow> (\<forall>req. parse_request F msg = Some req \<longrightarrow> \<not> well_formed req)"
proof
  assume "\<forall>req. parse_request F msg = Some req \<longrightarrow> \<not> well_formed req"
  then show "serve_one P F s msg = Some (Inl ZmqError)"
    by (intro serve_one_unanswered [OF w]) (metis option.exhaust)
next
  assume fails: "serve_one P F s msg = Some (Inl ZmqError)"
  show "\<forall>req. parse_request F msg = Some req \<longrightarrow> \<not> well_formed req"
  proof (intro allI impI notI)
    fix req assume req: "parse_request F msg = Some req" "well_formed req"
    show False
    proof (cases "reply_to P F (sv_core s) req")
      case (Some b)
      from serve_one_replies [OF w req this] fails show False by auto
    next
      case None
      then obtain m where m: "body req = SearchMsg m"
        using F req(2) by (cases "body req") (auto simp: reply_to_def wire_total_def well_formed_def simp del: not_None_eq)
      have no: "SearchServer P (sv_core s) (keys_of m) \<noteq> Some (Inr ids)" for ids
        using None m F by (auto simp: reply_to_def wire_total_def simp del: not_None_eq)
      show False
      proof (cases "SearchServer P (sv_core s) (keys_of m)")
        case None
        then show False using fails w req m by (simp add: loop_defs HandleMessage_def HandleSearch_def well_formed_def)
      next
        case (Some r)
        then obtain e where e: "SearchServer P (sv_core s) (keys_of m) = Some (Inl e)" using no by (cases r) auto
        then have "e \<noteq> ZmqError" using SearchServer_error [OF e] by (auto split: if_splits)
        then show False using serve_search_error [OF w req(1) m req(2) e] fails by simp
      qed
    qed
  qed
qed

end
