(* ===== verification/Spec2Isabelle.thy ===== *)
theory Spec2Isabelle
  imports Limits Toyshared Sha256 Serving
begin

text \<open>
  Verification of s2a, a dynamic searchable symmetric encryption (DSSE) in C++.

  THE PROGRAM. A client keeps keys; a server keeps an encrypted index from tokens (words) to
  file ids. \<open>DSSE::Core\<close> (\<open>src/DSSE.cpp\<close>, \<open>src/DSSE.h\<close>) holds both halves of the four
  operations: Setup builds the index (dictionary \<open>D\<close>, blocks \<open>A\<close>) in one of the layouts Basic,
  Packed, Pointer; Search derives five keys from which the server walks \<open>D\<close> and \<open>Dplus\<close>; Add
  stores pairs in \<open>Dplus\<close> or takes back revocations; Delete puts revocations into \<open>Srev\<close>.
  \<open>DSSE::Client\<close> (\<open>src/DSSEClient.cpp\<close>) and \<open>DSSE::Server\<close> (\<open>src/DSSEServer.cpp\<close>) carry
  them over a REQ/REP socket with the messages of \<open>src/dsse.proto\<close>; \<open>src/storage.cpp\<close> saves
  and loads both sides; \<open>src/DSSETokenize.cpp\<close> splits files into words; \<open>src/client.cpp\<close>,
  \<open>src/server.cpp\<close>, \<open>src/bench.cpp\<close> and \<open>src/client_test.cpp\<close> are the executables.
  \<open>src/dsse-prototype.py\<close> is the Python prototype of the basic variant.

  THE THEORIES, in the order of the code.
  \<^item> \<open>Prelude\<close>: types (bytes, 64-bit words), \<open>err + 'a\<close> for computations that may leave by
    exit, exception or undefined behaviour, \<open>option\<close> around it (\<open>None\<close>) for one that never
    returns, generic lemmas. \<open>Ordmap\<close>: \<open>std::map\<close> and \<open>std::set\<close> as sorted lists, with the
    locales \<open>map_ops\<close> and \<open>set_ops\<close> as their contract, interpreted on the model (\<open>om\<close>, \<open>os\<close>).
  \<^item> \<open>Bytes\<close> (\<open>putu64\<close>, \<open>getu64\<close>, the size constants), \<open>Crypto\<close> (random keys, MACs, the CTR
    mode of libtomcrypt, \<open>encrypt_*\<close>, \<open>decrypt_*\<close>), \<open>Tokenpair\<close> (\<open>compare_token_pair\<close> and
    the sorts). \<open>Cipher\<close>, \<open>Hmac\<close>, \<open>Sha256\<close>: the same functions call by call, with
    \<open>crypt_or_die\<close> and the code of libtomcrypt they run (tables, return codes, counter mode
    with all its branches, HMAC, SHA-256), down to the block function of AES
    and the table of round constants of SHA-256, which are arguments.
  \<^item> \<open>Setup\<close>, \<open>Search\<close>, \<open>Update\<close>: the operations of \<open>Core\<close>, over the record \<open>core\<close>.
    \<open>Index\<close>, \<open>Variants\<close>, \<open>Pointers\<close>: what it means that the server's state holds ids for a
    token, that a search finds them, and that each of the three setups establishes it;
    \<open>Totality\<close>: when Setup returns and with what.
  \<^item> \<open>Scheme\<close>, \<open>Refine\<close>, \<open>Session\<close>: the abstract specification, a plain index (record
    \<open>index\<close>: ids of the setup, added ids, revoked pairs), the tie \<open>represents\<close> between it and
    the two halves, and the simulation, as the locale \<open>simulation\<close> (step relation, runs by
    rule induction) interpreted on the operations of \<open>Core\<close> (\<open>dsse\<close>). \<open>Limits\<close>: where the
    promises end.
  \<^item> \<open>Istream\<close>, \<open>Storage\<close>, \<open>Disk\<close>, \<open>Restart\<close>: C++ streams, the formats and their reading
    loops (locale \<open>record_file\<close>, interpreted for each of the five kinds of file), the
    functions on files, saving and loading, and that the tie survives it.
  \<^item> \<open>Messages\<close>, \<open>Server\<close>, \<open>Tokenize\<close>, \<open>Client\<close>: messages and socket state machines, the
    handlers and the loop, the words of a file, the operations of the client.
  \<^item> \<open>System\<close>, \<open>Deployment\<close>, \<open>Startup\<close>: client and server over the socket with saving after
    each request and restarts of either side (second interpretation of \<open>simulation\<close>,
    \<open>deployed\<close>), and the Setup that starts a deployment, from tokens or from files. What the
    client makes of a server that answers is proved in the locale \<open>answering\<close>, interpreted
    on the server that saves each request (\<open>live\<close>) and, in \<open>Crash\<close>, on the one that is
    killed while it saves (\<open>dying\<close>). \<open>Crash\<close> also has the server whose replies are lost.
  \<^item> \<open>Shared\<close>: several clients with keys of their own at one server, in any order (fifth
    interpretation, \<open>shared\<close>), and what the Setup of one does to the others.
  \<^item> \<open>Tornfiles\<close>, \<open>Torn\<close>, \<open>Tornclient\<close>: files that were cut anywhere. The locale \<open>torn_file\<close>
    extends \<open>record_file\<close> with what a cut record does and is interpreted for three of the
    kinds of file; \<open>Torn\<close> has the server that dies inside a file of its save (third
    interpretation of \<open>answering\<close>, \<open>tearing\<close>), \<open>Tornclient\<close> the client.
  \<^item> \<open>Serving\<close>: the server's loop refines \<open>Core\<close> alone, request by request; and exactly which
    messages end it.
  \<^item> \<open>Programs\<close>, \<open>Commands\<close>, \<open>Bench\<close>, \<open>Smoketest\<close>: the executables, and sequences of
    commands, each a process of its own (third interpretation, \<open>tool\<close>), tied to a plain
    \<open>book\<close>: the index, the names of files, the next id. \<open>Smoketest\<close> also has the run of
    the test program again and again.
  \<^item> \<open>Prototype\<close>: the class of the prototype, and its tie to the plain index (fourth
    interpretation, \<open>py\<close>), through which it is compared with \<open>Core\<close>.
  \<^item> \<open>Toy\<close>, \<open>Toywire\<close>, \<open>Toyshared\<close>: concrete primitives, wire format, disk, server, clients,
    files for the witnesses.
  The properties stand in this theory.

  WHAT IS SHOWN. The tool, the deployment and the scheme answer every search with exactly the
  ids of the plain index (C1 to C4), for all three layouts, through any sequence of operations
  and restarts, and so does the Python prototype (C5), up to one fault (C6). Of processes that
  are killed, while the server saves or before its reply arrives, it is said what is kept and
  what is lost (C7 to C9); of several clients at one server, that they do not disturb one
  another but for a Setup (C10, C11); of files that are cut in the middle of a write, what
  the programs make of them when they are started again (C12 to C15); of the calls of libtomcrypt, that they do what the
  model takes them for (C22, C23). The server's loop sends the replies of \<open>Core\<close>, for any
  well-formed requests (C26), and the messages and files that end it are named (C27 to C29,
  C33). Each loop that may not end is shown to end, or not to; the formats and the
  encryption are read back; errors are values, and the error behaviour of the server, of
  loading and of the client is stated. Some properties state where the code does less than
  its comments promise.

  PARAMETERS AND HYPOTHESES. HMAC-SHA-256 and the AES block function are the record \<open>prims\<close>;
  \<open>prims_ok\<close> gives their output sizes, and holds of the library's (\<open>tomcrypt\<close>, for any
  table of round constants); correctness assumes that HMAC has no collision among
  the calls made (\<open>keys_cf\<close>), and no token with a NUL. The serialization of protobuf is the
  record \<open>wire\<close>: \<open>wire_ok\<close> says that what was serialized parses back, \<open>wire_total\<close> that
  messages stay below its size limit. \<open>getopt\<close>, \<open>zmq_connect\<close>, \<open>zmq_bind\<close>, the random devices,
  the uninitialised stack of \<open>AddClient\<close> (\<open>junk\<close>), \<open>rand\<close> and the clock are arguments. A disk
  is a map from paths to bytes with the directories and files that can be made or opened
  (\<open>disk_fine\<close>: all); a file that opens takes all that is written. No string is as long as
  \<open>2 ^ 47\<close> bytes, where the address space ends: \<open>readString\<close> throws for such a size
  (\<open>LengthError\<close>), and file names, tokens and entries that are saved stay below it; for
  shorter ones there is memory. Counters, lengths and file
  ids stay below \<open>2 ^ 64\<close> where a property says so; nothing here uses fuel: loops that may not
  end are \<open>partial_function (option)\<close>.

  NOT MODELLED. Text on standard error and the line the server prints on standard output for
  each Setup, Search and Delete it gets; memory that runs out; the transport of ZeroMQ (requests reach the
  server one at a time, as its REP socket enforces); a kill inside the save after a Setup; what
  a search makes of a cut save in the layout Pointer, whose blocks may be missing; the vendored libraries but for
  what \<open>Cipher\<close>, \<open>Hmac\<close> and \<open>Sha256\<close> have of libtomcrypt (\<open>LTC_ARGCHK\<close> on null pointers
  and a failing \<open>malloc\<close> are left out) and the turn-taking of the sockets; of the prototype, the object before its
  first \<open>setup\<close> and the demonstration in \<open>main\<close>; the directory \<open>Benchmarks\<close>, whose
  \<open>Client_DSSE.cpp\<close> drives another scheme with classes that are not in the repository and
  whose \<open>Add_Stuff_Together.cpp\<close> averages the numbers of a file.
\<close>

section \<open>The tool\<close>

text \<open>C1. The command-line tool keeps its book. After \<open>client setup\<close> of a list of files
  and any sequence of \<open>client add\<close>, \<open>client delete\<close>, \<open>client addfile\<close> and restarts of the
  server, each a process of its own that works on the files the one before left, the
  command \<open>client search\<close> ends and prints, after \<open>got response\<close> and for exactly the ids the plain index holds for
  the word and in its order, the names the book has for them; it only fails (with
  \<open>std::out_of_range\<close>) when one of these ids has no name.\<close>

theorem tool_correct:
  assumes S: "setting P F" and sh: "shell_ok sh" "plain fs" "plain [w]" and sv: "fresh_server sv"
    and keys: "fresh_keys P sh W" and d: "disk_fine state_dir d" and fs: "fs \<noteq> []" "files_ok d W fs"
    and xs: "cmds_ok W xs (library d fs)" and w: "w \<in> W"
  defines "bk \<equiv> fold cmd_book xs (library d fs)"
  shows "\<exists>s1 s2 s3. run_client P F sh junk (d, sv) (bytes_of ''setup'' # fs) = Some (Inr ([], s1))
    \<and> cmd_run P F sh xs s1 = Some (Inr s2)
    \<and> run_client P F sh junk s2 [bytes_of ''search'', w] =
        Some (rbind (print_results (new_client\<lparr>fileidMap := bk_names bk\<rparr>) w (index_search (bk_index bk) w))
          (\<lambda>out. Inr (got_response @ out, s3)))"
proof -
  obtain s1 where s1: "run_client P F sh junk (d, sv) (bytes_of ''setup'' # fs) = Some (Inr ([], s1))"
    "prog_rep P W s1 (library d fs)"
    using run_setup_files [OF S sh(1,2) sv keys d fs] by blast
  obtain s2 where s2: "cmd_run P F sh xs s1 = Some (Inr s2)" "prog_rep P W s2 bk"
    using cmd_run_tie [OF S sh(1) s1(2) xs] by (auto simp: bk_def)
  obtain d2 sv2 where p: "s2 = (d2, sv2)" by fastforce
  show ?thesis
    using run_search [OF S sh(1,3) s2(2) [unfolded p] w, of junk] s1(1) s2(1) by (auto simp: p)
qed

theorem tool_correct_witness:
  "\<exists>s1 s2 s3. run_client toy toy_wire toy_shell (\<lambda>i. []) (toy_library, toy_server) [bytes_of ''setup'', cats, pets]
      = Some (Inr ([], s1))
    \<and> cmd_run toy toy_wire toy_shell [CmdAddFile dogs (\<lambda>i. []), CmdServer, CmdDelete [0x32] [dog]] s1 = Some (Inr s2)
    \<and> run_client toy toy_wire toy_shell (\<lambda>i. []) s2 [bytes_of ''search'', dog]
      = Some (Inr (got_response @ dog @ bytes_of '': '' @ dogs @ [10], s3))"
proof -
  let ?xs = "[CmdAddFile dogs (\<lambda>i. []), CmdServer, CmdDelete [0x32] [dog]]"
  let ?lib = "library toy_library [cats, pets]"
  have two: "atoi [0x32] = Some 2" by (simp add: atoi_def scan_number_def is_space_def is_digit_def dec_value_def)
  have lib: "bk_index ?lib = library_index toy_library [cats, pets]" "bk_next ?lib = 3" "bk_files ?lib = files toy_library"
    by (simp_all add: library_def)
  have words: "words_in ?lib dogs = {dog}"
    by (simp add: words_in_def lib toy_library_files toy_words_of)
  have outside: "\<not> inside (path_of dogs)" by (simp add: inside_def state_dir_def dogs_def path_of_def)
  have ok: "cmds_ok {cat, dog} ?xs ?lib"
    using plain_toy toy_words [of dog] toy_names outside
    by (simp add: words lib sizes_ok_def two plain_def library_index_def toy_library_files)
  let ?bk = "fold cmd_book ?xs ?lib"
  have "index_search (bk_index ?bk) dog = [3]"
    by (simp add: words two index_search_def index_add_def index_delete_def lib library_index_def toy_files_with)
  moreover have "om_lookup (bk_names ?bk) 3 = Some dogs"
    by (simp add: lib om_lookup_insert)
  ultimately have "print_results (new_client\<lparr>fileidMap := bk_names ?bk\<rparr>) dog (index_search (bk_index ?bk) dog)
      = Inr (dog @ bytes_of '': '' @ dogs @ [10])"
    using toy_names by (simp add: result_line_def Filename_def)
  then show ?thesis
    using tool_correct [where junk = "\<lambda>i. []", OF setting_toy shell_ok_toy plain_toy(1,4) fresh_server_toy
        fresh_keys_toy [OF toy_words] _ _ files_ok_toy ok]
    by (simp add: toy_library_def)
qed

text \<open>C2. Right after \<open>client setup f1 ... fn\<close>, \<open>client search w\<close> prints
  \<open>got response\<close>, then one line
  \<open>w: f\<close> for each of the named files that holds the word \<open>w\<close>, in the order they were
  named, and nothing else.\<close>

theorem setup_then_search_prints:
  assumes S: "setting P F" and sh: "shell_ok sh" "plain fs" "plain [w]" and sv: "fresh_server sv"
    and keys: "fresh_keys P sh W" and d: "disk_fine state_dir d" and fs: "fs \<noteq> []" "files_ok d W fs"
    and w: "w \<in> W"
  shows "\<exists>s1 s2. run_client P F sh junk (d, sv) (bytes_of ''setup'' # fs) = Some (Inr ([], s1))
    \<and> run_client P F sh junk s1 [bytes_of ''search'', w] =
        Some (Inr (got_response @ result_lines w (filter (\<lambda>f. w \<in> file_words d f) fs), s2))"
proof -
  obtain d1 sv1 where s1: "run_client P F sh junk (d, sv) (bytes_of ''setup'' # fs) = Some (Inr ([], d1, sv1))"
    "prog_rep P W (d1, sv1) (library d fs)"
    using run_setup_files [OF S sh(1,2) sv keys d fs] by force
  have "index_search (bk_index (library d fs)) w = files_with d fs w" by (simp add: library_def)
  then show ?thesis
    using run_search [OF S sh(1,3) s1(2) w, of junk] print_library [OF fs(2), of w] s1(1) by auto
qed

theorem setup_then_search_prints_witness:
  "\<exists>s1 s2. run_client toy toy_wire toy_shell (\<lambda>i. []) (toy_library, toy_server) [bytes_of ''setup'', cats, pets]
      = Some (Inr ([], s1))
    \<and> run_client toy toy_wire toy_shell (\<lambda>i. []) s1 [bytes_of ''search'', cat]
      = Some (Inr (got_response @ result_lines cat [cats, pets], s2))"
  using setup_then_search_prints [where junk = "\<lambda>i. []", OF setting_toy shell_ok_toy plain_toy(1,3) fresh_server_toy
        fresh_keys_toy [OF toy_words] _ _ files_ok_toy]
  by (simp add: toy_library_def toy_file_words [unfolded toy_library_def])

text \<open>C3. Client and server as two processes over a socket. After a Setup of any variant and
  any sequence of Add, Delete, Search and restarts of either process from its files, every
  operation has reported success, and a Search of any word returns the ids that the plain
  index holds for it, in its order.\<close>

theorem deployment_correct:
  assumes S: "setting P F" and sv: "listening sv"
    and run: "SetupClient P devs new_core ver tokens fileids = Some (Inr (c, L, M))"
    and W: "set tokens \<subseteq> W" and cf: "keys_cf P W c"
    and valid: "ver = Basic \<or> (\<forall>w \<in> set tokens. INVALID \<notin> set (setup_ids tokens fileids w))"
    and len: "total_ids tokens fileids + 1 < 2 ^ 64"
    and ops: "sys_all_ok W xs (setup_index P c (sv_core sv) tokens fileids)"
  shows "\<exists>s1 cl2 sv2. Client_Setup P F (server_net P F) devs new_client sv ver tokens fileids = Some (Inr (True, s1))
    \<and> sys_run P F xs s1 = Some (Inr (cl2, sv2))
    \<and> (\<forall>w \<in> W. \<exists>sv3. Client_Search P F (server_net P F) cl2 sv2 w
        = Some (Inr (got_response,
            index_search (fold index_sys xs (setup_index P c (sv_core sv) tokens fileids)) w, cl2, sv3)))"
proof -
  have F: "wire_ok F" "wire_total F" "prims_ok P" using S by (auto simp: setting_def)
  have run': "SetupClient P devs (cl_core new_client) ver tokens fileids = Some (Inr (c, L, M))"
    using run by simp
  obtain sv1 where s1: "Client_Setup P F (server_net P F) devs new_client sv ver tokens fileids
      = Some (Inr (True, new_client\<lparr>cl_core := c\<rparr>, sv1))"
    "sys_rep P W (new_client\<lparr>cl_core := c\<rparr>, sv1) (setup_index P c (sv_core sv) tokens fileids)"
    using sys_setup [OF S _ sv _ _ _ run' W cf valid len] by (auto simp: new_core_sized om_inv_empty)
  obtain cl2 sv2 where s2: "sys_run P F xs (new_client\<lparr>cl_core := c\<rparr>, sv1) = Some (Inr (cl2, sv2))"
    "sys_rep P W (cl2, sv2) (fold index_sys xs (setup_index P c (sv_core sv) tokens fileids))"
    using sys_run_tie [OF S s1(2) ops] by auto
  then show ?thesis using s1(1) sys_search [OF F s2(2)] by blast
qed

theorem deployment_correct_witness:
  "\<exists>s1 cl2 sv2 sv3. Client_Setup toy toy_wire (server_net toy toy_wire) toy_devs new_client toy_server Pointer toy_tokens toy_files
      = Some (Inr (True, s1))
    \<and> sys_run toy toy_wire [SysAdd 9 [dog] (\<lambda>i. []), SysRestartServer, SysRestartClient state_dir toy_disk, SysDelete 2 [cat, dog]] s1
      = Some (Inr (cl2, sv2))
    \<and> Client_Search toy toy_wire (server_net toy toy_wire) cl2 sv2 dog = Some (Inr (got_response, [9], cl2, sv3))"
proof -
  let ?c = "toy_keys\<lparr>version := Pointer\<rparr>"
  let ?xs = "[SysAdd 9 [dog] (\<lambda>i. []), SysRestartServer, SysRestartClient state_dir toy_disk, SysDelete 2 [cat, dog]]"
  let ?ix = "setup_index toy ?c (sv_core toy_server) toy_tokens toy_files"
  obtain L M where run: "SetupClient toy toy_devs new_core Pointer toy_tokens toy_files = Some (Inr (?c, L, M))"
    using toy_setup [of Pointer] by blast
  have ok: "sys_all_ok {cat, dog} ?xs ?ix" by (simp add: setup_index_def dog_def)
  have valid: "Pointer = Basic \<or> (\<forall>w \<in> set toy_tokens. INVALID \<notin> set (setup_ids toy_tokens toy_files w))"
    using toy_valid by simp
  have "index_search (fold index_sys ?xs ?ix) dog = [9]"
    using cat_less_dog
    by (simp add: index_search_def index_add_def index_delete_def setup_index_def toy_ids toy_server_def
        new_server_def new_core_sized)
  moreover have W: "set toy_tokens \<subseteq> {cat, dog}" by (simp add: toy_tokens_def)
  have "total_ids toy_tokens toy_files + 1 < 2 ^ 64" by (simp add: toy_total)
  note deployment_correct [OF setting_toy listening_toy run W toy_keys_version_cf valid this ok]
  ultimately show ?thesis by fastforce
qed

section \<open>The scheme\<close>

text \<open>C4. After a Setup and any sequence of Add and Delete operations, a search for any
  token returns exactly what the plain index holds for it: the ids of the setup in their
  order, then the added ones, less the revoked ones. None of the operations fails on the
  way. This holds for the Basic, Packed and Pointer variants alike, as long as HMAC has no
  collision among the calls made and no counter wraps.\<close>

theorem scheme_correct:
  assumes run: "SetupClient P devs cl ver tokens fileids = Some (Inr (cl1, L, M))"
    and W: "set tokens \<subseteq> W" and cf: "keys_cf P W cl1"
    and valid: "ver = Basic \<or> (\<forall>w \<in> set tokens. INVALID \<notin> set (setup_ids tokens fileids w))"
    and len: "total_ids tokens fileids < 2 ^ 64"
    and fresh: "\<And>w. w \<in> W \<Longrightarrow> dcount cl w = 0" and sv: "os_inv (Srev sv)"
    and ops: "ops_ok W os (setup_index P cl1 sv tokens fileids)"
  shows "\<exists>cl2 sv2. run_ops P os (cl1, SetupServer sv ver L M) = Inr (cl2, sv2)
    \<and> (\<forall>w \<in> W. SearchServer P sv2 (SearchClient P cl2 w)
        = Some (Inr (index_search (fold index_op os (setup_index P cl1 sv tokens fileids)) w)))"
proof -
  have "length M < 2 ^ 64" using SetupClient_returned [OF run] len by simp
  moreover have "length (setup_ids tokens fileids w) < 2 ^ 64" for w
    using length_setup_ids_le [of tokens fileids w] len by simp
  ultimately have "represents P W cl1 (SetupServer sv ver L M) (setup_index P cl1 sv tokens fileids)"
    by (intro represents_setup [OF run W cf valid _ _ fresh sv])
  from run_ops_represents [OF this cf ops] show ?thesis
    using represents_search by meson
qed

theorem scheme_correct_witness:
  "\<exists>L M cl2 sv2.
     SetupClient toy toy_devs new_core Pointer toy_tokens toy_files
       = Some (Inr (toy_keys\<lparr>version := Pointer\<rparr>, L, M))
     \<and> run_ops toy [DoAdd 9 [dog] (\<lambda>_. []), DoDelete 2 [cat, dog]]
         (toy_keys\<lparr>version := Pointer\<rparr>, SetupServer new_core Pointer L M) = Inr (cl2, sv2)
     \<and> SearchServer toy sv2 (SearchClient toy cl2 cat) = Some (Inr [1, 3, 4, 5, 6, 7])
     \<and> SearchServer toy sv2 (SearchClient toy cl2 dog) = Some (Inr [9])"
proof -
  let ?cl = "toy_keys\<lparr>version := Pointer\<rparr>" and ?os = "[DoAdd 9 [dog] (\<lambda>_. []), DoDelete 2 [cat, dog]]"
  let ?ix = "setup_index toy ?cl new_core toy_tokens toy_files"
  obtain L M where run: "SetupClient toy toy_devs new_core Pointer toy_tokens toy_files
      = Some (Inr (?cl, L, M))"
    using toy_setup [of Pointer] by blast
  have "ops_ok {cat, dog} ?os ?ix" by (simp add: setup_index_def)
  from scheme_correct [OF run _ toy_keys_version_cf _ _ _ _ this]
  obtain cl2 sv2 where fin: "run_ops toy ?os (?cl, SetupServer new_core Pointer L M) = Inr (cl2, sv2)"
    and found: "\<And>w. w \<in> {cat, dog} \<Longrightarrow> SearchServer toy sv2 (SearchClient toy cl2 w)
      = Some (Inr (index_search (fold index_op ?os ?ix) w))"
    using toy_total toy_valid by (auto simp: toy_tokens_def)
  have "index_search (fold index_op ?os ?ix) cat = [1, 3, 4, 5, 6, 7]"
    "index_search (fold index_op ?os ?ix) dog = [9]"
    by (simp_all add: index_search_def index_add_def index_delete_def setup_index_def toy_ids)
      (simp_all add: cat_def dog_def)
  with run fin found show ?thesis by (metis insertI1 insertI2)
qed

section \<open>The prototype\<close>

text \<open>C5. The C++ and the Python prototype it was written after answer alike as long as each Add
  finds all of its pairs revoked or none (else see C6): set up with the same tokens and
  files, each with its own keys, and given the same Adds and Deletes under that condition, the
  search of any word returns the same ids, those of \<open>Core\<close> as numbers and those of the
  prototype by their names \<open>nm\<close>. This holds for all three layouts of \<open>Core\<close>, of which the
  prototype has only the first.\<close>

theorem prototype_agrees:
  assumes run: "SetupClient P devs cl ver tokens fileids = Some (Inr (cl1, L, M))"
    and W: "set tokens \<subseteq> W" and cf: "keys_cf P W cl1" and pcf: "py_keys_cf P W nm N keys"
    and valid: "ver = Basic \<or> (\<forall>w \<in> set tokens. INVALID \<notin> set (setup_ids tokens fileids w))"
    and len: "total_ids tokens fileids \<le> N" "N < 2 ^ 64"
    and fresh: "\<And>w. w \<in> W \<Longrightarrow> dcount cl w = 0" and sv: "Srev sv = []"
    and ops: "py_all_ok W N os (setup_index P cl1 sv tokens fileids)"
  shows "\<exists>cl2 sv2 s1 s2. run_ops P os (cl1, SetupServer sv ver L M) = Inr (cl2, sv2)
    \<and> py_setup P keys tokens (\<lambda>w. map_option (map nm) (om_lookup fileids w)) = Inr s1
    \<and> py_ops P nm os s1 = Inr s2
    \<and> (\<forall>w \<in> W. \<exists>ids. SearchServer P sv2 (SearchClient P cl2 w) = Some (Inr ids)
        \<and> py_search_client P s2 w = Some (map nm ids))"
proof -
  let ?ix = "setup_index P cl1 sv tokens fileids" and ?db = "\<lambda>w. map_option (map nm) (om_lookup fileids w)"
  have ids: "length (setup_ids tokens fileids w) \<le> N" for w
    using length_setup_ids_le [of tokens fileids w] len by simp
  have "length M < 2 ^ 64" using SetupClient_returned [OF run] len by simp
  moreover have "length (setup_ids tokens fileids w) < 2 ^ 64" for w using ids [of w] len(2) by simp
  ultimately have r: "represents P W cl1 (SetupServer sv ver L M) ?ix"
    by (intro represents_setup [OF run W cf valid _ _ fresh]) (simp_all add: sv os_inv_empty)
  obtain cl2 sv2 where cpp: "run_ops P os (cl1, SetupServer sv ver L M) = Inr (cl2, sv2)"
    "represents P W cl2 sv2 (fold index_op os ?ix)"
    using run_ops_represents [OF r cf py_ops_ok [OF ops]] by blast
  have "?db w = Some (map nm (ix_setup ?ix w))" if "w \<in> set tokens" for w
    using SetupClient_returned [OF run] that by (auto simp: setup_index_def setup_ids_def om_count_def)
  then obtain s1 where s1: "py_setup P keys tokens ?db = Inr s1" "py_rep P W nm N s1 ?ix"
    using py_rep_setup [OF _ _ _ _ W _ pcf, of ?db ?ix] ids
    by (auto simp: setup_index_def sv) (auto simp: setup_ids_def)
  obtain s2 where s2: "py_ops P nm os s1 = Inr s2" "py_rep P W nm N s2 (fold index_op os ?ix)"
    using py_ops_rep [OF s1(2) ops] by blast
  have "SearchServer P sv2 (SearchClient P cl2 w) = Some (Inr (index_search (fold index_op os ?ix) w))
      \<and> py_search_client P s2 w = Some (map nm (index_search (fold index_op os ?ix) w))" if "w \<in> W" for w
    using represents_search [OF cpp(2) that] py_rep_search [OF s2(2) that] by simp
  with cpp(1) s1(1) s2(1) show ?thesis by blast
qed

theorem prototype_agrees_witness:
  "\<exists>L M cl2 sv2 s1 s2. SetupClient toy toy_devs new_core Pointer toy_tokens toy_files
       = Some (Inr (toy_keys\<lparr>version := Pointer\<rparr>, L, M))
     \<and> run_ops toy [DoAdd 9 [cat, dog] (\<lambda>_. []), DoDelete 2 [cat, dog]]
         (toy_keys\<lparr>version := Pointer\<rparr>, SetupServer new_core Pointer L M) = Inr (cl2, sv2)
     \<and> py_setup toy toy_py_keys_of toy_tokens (\<lambda>w. map_option (map putu64) (om_lookup toy_files w)) = Inr s1
     \<and> py_ops toy putu64 [DoAdd 9 [cat, dog] (\<lambda>_. []), DoDelete 2 [cat, dog]] s1 = Inr s2
     \<and> (\<exists>ids. SearchServer toy sv2 (SearchClient toy cl2 dog) = Some (Inr ids)
        \<and> py_search_client toy s2 dog = Some (map putu64 ids))"
proof -
  let ?os = "[DoAdd 9 [cat, dog] (\<lambda>_. []), DoDelete 2 [cat, dog]]"
  obtain L M where run: "SetupClient toy toy_devs new_core Pointer toy_tokens toy_files
      = Some (Inr (toy_keys\<lparr>version := Pointer\<rparr>, L, M))"
    using toy_setup [of Pointer] by blast
  have ops: "py_all_ok {cat, dog} 99 ?os (setup_index toy (toy_keys\<lparr>version := Pointer\<rparr>) new_core toy_tokens toy_files)"
    using cat_less_dog by (simp add: toy_setup_index toy_index_def)
  have W: "set toy_tokens \<subseteq> {cat, dog}" by (simp add: toy_tokens_def)
  have valid: "Pointer = Basic \<or> (\<forall>w \<in> set toy_tokens. INVALID \<notin> set (setup_ids toy_tokens toy_files w))"
    using toy_valid by simp
  have pcf: "py_keys_cf toy {cat, dog} putu64 99 toy_py_keys_of" by (simp add: toy_py_keys_of_def toy_py_keys)
  have "total_ids toy_tokens toy_files \<le> 99" by (simp add: toy_total)
  from prototype_agrees [OF run W toy_keys_version_cf pcf valid this _ dcount_new new_core_sized(3) ops]
  have "\<exists>cl2 sv2 s1 s2. run_ops toy ?os (toy_keys\<lparr>version := Pointer\<rparr>, SetupServer new_core Pointer L M) = Inr (cl2, sv2)
    \<and> py_setup toy toy_py_keys_of toy_tokens (\<lambda>w. map_option (map putu64) (om_lookup toy_files w)) = Inr s1
    \<and> py_ops toy putu64 ?os s1 = Inr s2
    \<and> (\<forall>w \<in> {cat, dog}. \<exists>ids. SearchServer toy sv2 (SearchClient toy cl2 w) = Some (Inr ids)
        \<and> py_search_client toy s2 w = Some (map putu64 ids))"
    by simp
  with run show ?thesis by blast
qed

text \<open>C6. Where the two differ: the prototype sorts the triples of an Add by label and the
  words by name, and so reads the answers in the wrong order. When one of two words is
  revoked and the orders differ, the word that was stored is not counted, and the next Add of
  it fails with an \<open>AssertionError\<close>. \<open>Core\<close>, which keeps the words with the pairs, finds
  both ids.\<close>

theorem prototype_misreads_answers:
  assumes py: "py_rep P W nm N s ix" and cpp: "represents P W cl sv ix" "keys_cf P W cl"
    and W: "w \<in> W" "v \<in> W" "w < v" and len: "length (ix_added ix v) + 2 < 2 ^ 64" "length (ix_added ix w) + 1 < 2 ^ 64"
    and swapped: "py_label P (pr_Kplus s) v (dec (length (ix_added ix v))) < py_label P (pr_Kplus s) w (dec (length (ix_added ix w)))"
    and rev: "(w, i) \<in> ix_revoked ix" "(v, i) \<notin> ix_revoked ix" "(v, j) \<notin> ix_revoked ix"
  shows "py_ops P nm [DoAdd i [w, v] junk, DoAdd j [v] junk] s = Inl AssertionError
    \<and> (\<exists>cl2 sv2. run_ops P [DoAdd i [w, v] junk, DoAdd j [v] junk] (cl, sv) = Inr (cl2, sv2)
        \<and> SearchServer P sv2 (SearchClient P cl2 v) = Some (Inr (index_search ix v @ [i, j])))"
proof
  let ?os = "[DoAdd i [w, v] junk, DoAdd j [v] junk]"
  obtain s' where "py_add P (nm i) [w, v] s = Inr s'" "py_add P (nm j) [v] s' = Inl AssertionError"
    using py_answers_misread [OF py W swapped rev] by blast
  then show "py_ops P nm ?os s = Inl AssertionError" by (simp add: py_update_client_def)
  have "ops_ok W ?os ix" using W len less_imp_neq [OF W(3)] by (simp add: index_add_def)
  then obtain cl2 sv2 where run: "run_ops P ?os (cl, sv) = Inr (cl2, sv2)" "represents P W cl2 sv2 (fold index_op ?os ix)"
    using run_ops_represents [OF cpp] by blast
  have "index_search (fold index_op ?os ix) v = index_search (index_add i {w, v} ix) v @ [j]"
  proof -
    have "(v, j) \<notin> ix_revoked (index_add i {w, v} ix)" using rev(3) by (simp add: index_add_def)
    then show ?thesis by (simp add: index_search_add_fresh)
  qed
  also have "\<dots> = index_search ix v @ [i, j]" using rev(2) by (simp add: index_search_add_fresh)
  finally show "\<exists>cl2 sv2. run_ops P ?os (cl, sv) = Inr (cl2, sv2)
      \<and> SearchServer P sv2 (SearchClient P cl2 v) = Some (Inr (index_search ix v @ [i, j]))"
    using run represents_search [OF run(2) W(2)] by auto
qed

theorem prototype_misreads_answers_witness:
  "\<exists>s cl sv cl2 sv2. py_ops toy putu64 [DoAdd 9 [cat, dog] (\<lambda>_. []), DoAdd 8 [dog] (\<lambda>_. [])] s = Inl AssertionError
    \<and> run_ops toy [DoAdd 9 [cat, dog] (\<lambda>_. []), DoAdd 8 [dog] (\<lambda>_. [])] (cl, sv) = Inr (cl2, sv2)
    \<and> SearchServer toy sv2 (SearchClient toy cl2 dog) = Some (Inr [2, 9, 8])"
proof -
  let ?os = "[DoAdd 9 [cat] (\<lambda>_. []), DoDelete 9 [cat]]"
  let ?ix = "fold index_op ?os toy_index"
  have ops: "py_all_ok {cat, dog} 99 ?os toy_index" by (simp add: toy_index_def)
  obtain s where s: "py_rep toy {cat, dog} putu64 99 s ?ix"
    using toy_py_setup py_ops_rep [OF _ ops] by blast
  obtain cl0 sv0 where "represents toy {cat, dog} cl0 sv0 toy_index" "keys_cf toy {cat, dog} cl0"
    using toy_represents [of Basic] toy_keys_version_cf by (auto simp: toy_setup_index)
  then obtain cl sv where cpp: "represents toy {cat, dog} cl sv ?ix" "keys_cf toy {cat, dog} cl"
    using run_ops_represents [OF _ _ py_ops_ok [OF ops]] by blast
  have added: "ix_added ?ix cat = [9]" "ix_added ?ix dog = []" "ix_revoked ?ix = {(cat, 9)}"
    using cat_less_dog by (auto simp: index_add_def index_delete_def toy_index_def)
  have "front (1 # dec 0) = 1 # 48 # take 14 (replicate 16 0)" "front (1 # dec 1) = 1 # 49 # take 14 (replicate 16 0)"
    by (simp_all add: front_def dec.simps)
  then have "py_label toy k dog (dec 0) < py_label toy k cat (dec 1)" for k
    by (simp add: py_label_def py_mac_def toy_mac_def dec.simps)
  then have swapped: "py_label toy (pr_Kplus s) dog (dec (length (ix_added ?ix dog)))
      < py_label toy (pr_Kplus s) cat (dec (length (ix_added ?ix cat)))"
    by (simp only: added list.size) simp
  have "index_search ?ix dog = [2]"
    using cat_less_dog toy_index_search(2) by (simp add: index_search_def index_add_def index_delete_def toy_index_def)
  then show ?thesis
    using prototype_misreads_answers [where junk = "\<lambda>_. []", OF s cpp _ _ cat_less_dog(1) _ _ swapped, of 9 8] added cat_less_dog
    by fastforce
qed

section \<open>Processes that are killed\<close>

text \<open>C7. A Delete whose server is killed between two of the files of its save is there as a
  whole or not at all. The client has its answer already; whichever number \<open>k\<close> of the three
  files was written in full, the server starts again, and every search returns the ids with
  the deletion or, before \<open>Srev\<close> was written, those without it. For a server that is killed
  inside a file this does not hold: C12 and C13 say what is left then.\<close>

theorem delete_killed_atomic:
  assumes S: "setting P F" and rep: "sys_rep P W (cl, sv) ix" and ws: "set words \<subseteq> W"
  shows "\<exists>dead sv'. Client_Delete P F (killed_net P F k) cl sv fid words = Some (Inr (True, cl, dead))
    \<and> restart_server_process dead = Some (Inr (True, sv'))
    \<and> (\<forall>w \<in> W. \<exists>s. Client_Search P F (server_net P F) cl sv' w
        = Some (Inr (got_response, index_search (if 3 \<le> k then index_delete fid (set words) ix else ix) w, cl, s)))"
proof -
  have F: "wire_ok F" "wire_total F" "prims_ok P" using S by (auto simp: setting_def)
  obtain dead sv' where "Client_Delete P F (killed_net P F k) cl sv fid words = Some (Inr (True, cl, dead))"
    "restart_server_process dead = Some (Inr (True, sv'))"
    "sys_rep P W (cl, sv') (if 3 \<le> k then index_delete fid (set words) ix else ix)"
    using killed_delete [OF F rep ws] by blast
  with sys_search [OF F this(3)] show ?thesis by blast
qed

theorem delete_killed_atomic_witness:
  "\<exists>cl sv dead sv' s. Client_Delete toy toy_wire (killed_net toy toy_wire 2) cl sv 3 [cat] = Some (Inr (True, cl, dead))
    \<and> restart_server_process dead = Some (Inr (True, sv'))
    \<and> Client_Search toy toy_wire (server_net toy toy_wire) cl sv' cat = Some (Inr (got_response, [1, 2, 3, 4, 5, 6, 7], cl, s))"
proof -
  obtain cl sv where "sys_rep toy {cat, dog} (cl, sv) toy_index" using toy_sys_rep by blast
  from delete_killed_atomic [OF setting_toy this, of "[cat]" 2 3] show ?thesis
    by (fastforce simp: toy_index_search)
qed

text \<open>An Add whose server is killed while it saves keeps the two sides in step once \<open>Dplus\<close>
  is written: the ids added are there, and only revocations that the Add took back may be
  in force again.\<close>

theorem add_killed_late:
  assumes S: "setting P F" and rep: "sys_rep P W (cl, sv) ix" and ok: "sys_ok W (SysAdd fid words junk) ix"
    and k: "2 \<le> k"
  shows "\<exists>cl' dead sv'. Client_Add P F (killed_net P F k) junk cl sv fid words = Some (Inr (True, cl', dead))
    \<and> restart_server_process dead = Some (Inr (True, sv'))
    \<and> (\<forall>w \<in> W. \<exists>s. Client_Search P F (server_net P F) cl' sv' w
        = Some (Inr (got_response, index_search (index_half k fid (set words) ix) w, cl', s)))"
proof -
  have F: "wire_ok F" "wire_total F" "prims_ok P" using S by (auto simp: setting_def)
  obtain c dead sv' where "Client_Add P F (killed_net P F k) junk cl sv fid words = Some (Inr (True, cl\<lparr>cl_core := c\<rparr>, dead))"
    "restart_server_process dead = Some (Inr (True, sv'))"
    "sys_rep P W (cl\<lparr>cl_core := c\<rparr>, sv') (index_half k fid (set words) ix)"
    using killed_add [OF F rep ok, of k] k by auto
  with sys_search [OF F this(3)] show ?thesis by blast
qed

theorem add_killed_late_witness:
  "\<exists>cl sv cl' dead sv' s. Client_Add toy toy_wire (killed_net toy toy_wire 2) (\<lambda>_. []) cl sv 9 [dog] = Some (Inr (True, cl', dead))
    \<and> restart_server_process dead = Some (Inr (True, sv'))
    \<and> Client_Search toy toy_wire (server_net toy toy_wire) cl' sv' dog = Some (Inr (got_response, [2, 9], cl', s))"
proof -
  obtain cl sv where rep: "sys_rep toy {cat, dog} (cl, sv) toy_index" using toy_sys_rep by blast
  have ok: "sys_ok {cat, dog} (SysAdd 9 [dog] (\<lambda>_. [])) toy_index" by (simp add: toy_index_def dog_def)
  have "index_search (index_half 2 9 {dog} toy_index) dog = [2, 9]"
    using toy_index_search(2) by (simp add: index_search_def index_half_def index_add_def toy_index_def)
  with add_killed_late [OF setting_toy rep ok, of 2] show ?thesis by fastforce
qed

text \<open>C8. The server answers before it saves. When it is killed before \<open>Dplus\<close> is written after
  an Add of \<open>w\<close>, the client has counted an id that the restarted server does not have: the
  id is lost, and so is every id added to \<open>w\<close> from then on. Each of these Adds is
  acknowledged, and a search returns what it returned before the first.\<close>

theorem killed_server_loses_adds:
  assumes S: "setting P F" and rep: "sys_rep P W (cl, sv) ix" and w: "w \<in> W" and k: "k < 2"
    and ok: "sys_ok W (SysAdd fid [w] junk) ix" and len: "length (ix_added ix w) + 1 + length adds < 2 ^ 64"
    and new: "\<And>f. f \<in> insert fid (fst ` set adds) \<Longrightarrow> (w, f) \<notin> ix_revoked ix"
  shows "\<exists>cl1 dead sv1 cl2 sv2 sv3. Client_Add P F (killed_net P F k) junk cl sv fid [w] = Some (Inr (True, cl1, dead))
    \<and> restart_server_process dead = Some (Inr (True, sv1))
    \<and> sys_run P F (add_ops w adds) (cl1, sv1) = Some (Inr (cl2, sv2))
    \<and> Client_Search P F (server_net P F) cl2 sv2 w = Some (Inr (got_response, index_search ix w, cl2, sv3))"
  by (rule killed_loses_adds [OF assms])

theorem killed_server_loses_adds_witness:
  "\<exists>cl sv cl1 dead sv1 cl2 sv2 sv3. Client_Add toy toy_wire (killed_net toy toy_wire 0) (\<lambda>_. []) cl sv 9 [dog] = Some (Inr (True, cl1, dead))
    \<and> restart_server_process dead = Some (Inr (True, sv1))
    \<and> sys_run toy toy_wire [SysAdd 10 [dog] (\<lambda>_. []), SysAdd 11 [dog] (\<lambda>_. [])] (cl1, sv1) = Some (Inr (cl2, sv2))
    \<and> Client_Search toy toy_wire (server_net toy toy_wire) cl2 sv2 dog = Some (Inr (got_response, [2], cl2, sv3))"
proof -
  obtain cl sv where rep: "sys_rep toy {cat, dog} (cl, sv) toy_index" using toy_sys_rep by blast
  have ok: "sys_ok {cat, dog} (SysAdd 9 [dog] (\<lambda>_. [])) toy_index" by (simp add: toy_index_def dog_def)
  have adds: "add_ops dog [(10, \<lambda>_. []), (11, \<lambda>_. [])] = [SysAdd 10 [dog] (\<lambda>_. []), SysAdd 11 [dog] (\<lambda>_. [])]"
    by (simp add: add_ops_def)
  have "ix_revoked toy_index = {}" "ix_added toy_index dog = []" by (simp_all add: toy_index_def)
  then show ?thesis
    using killed_server_loses_adds [OF setting_toy rep _ _ ok, of 0 "[(10, \<lambda>_. []), (11, \<lambda>_. [])]"]
    unfolding adds toy_index_search by fastforce
qed

text \<open>C9. A reply that is lost does the opposite harm. The client waits for the reply to an Add
  of \<open>w\<close> for ever and is killed; the next client starts from the files of before, while the
  server has stored the id. From then on the client's label for \<open>w\<close> is taken: every further
  Add of \<open>w\<close> is acknowledged and dropped, however many there are.\<close>

theorem lost_reply_blocks_adds:
  assumes S: "setting P F" and rep: "sys_rep P W (cl, sv) ix" and w: "w \<in> W"
    and ok: "sys_ok W (SysAdd fid [w] junk) ix" and d: "disk_fine dir d"
    and new: "\<And>f. f \<in> insert fid (fst ` set adds) \<Longrightarrow> (w, f) \<notin> ix_revoked ix"
  shows "\<exists>m sv1 cl1 cl2 sv2 sv3. Client_Add P F (silent_net P F) junk cl sv fid [w] = None
    \<and> add_request P F junk cl fid [w] = Some m \<and> fst (silent_net P F sv m) = sv1
    \<and> restart_client_process cl dir d = Some (Inr (True, cl1))
    \<and> sys_run P F (add_ops w adds) (cl1, sv1) = Some (Inr (cl2, sv2))
    \<and> Client_Search P F (server_net P F) cl2 sv2 w = Some (Inr (got_response, index_search ix w @ [fid], cl2, sv3))"
  by (rule silent_loses_adds [OF assms])

theorem lost_reply_blocks_adds_witness:
  "\<exists>cl sv m sv1 cl1 cl2 sv2 sv3. Client_Add toy toy_wire (silent_net toy toy_wire) (\<lambda>_. []) cl sv 9 [dog] = None
    \<and> add_request toy toy_wire (\<lambda>_. []) cl 9 [dog] = Some m \<and> fst (silent_net toy toy_wire sv m) = sv1
    \<and> restart_client_process cl state_dir toy_disk = Some (Inr (True, cl1))
    \<and> sys_run toy toy_wire [SysAdd 10 [dog] (\<lambda>_. []), SysAdd 11 [dog] (\<lambda>_. [])] (cl1, sv1) = Some (Inr (cl2, sv2))
    \<and> Client_Search toy toy_wire (server_net toy toy_wire) cl2 sv2 dog = Some (Inr (got_response, [2, 9], cl2, sv3))"
proof -
  obtain cl sv where rep: "sys_rep toy {cat, dog} (cl, sv) toy_index" using toy_sys_rep by blast
  have ok: "sys_ok {cat, dog} (SysAdd 9 [dog] (\<lambda>_. [])) toy_index" by (simp add: toy_index_def dog_def)
  have adds: "add_ops dog [(10, \<lambda>_. []), (11, \<lambda>_. [])] = [SysAdd 10 [dog] (\<lambda>_. []), SysAdd 11 [dog] (\<lambda>_. [])]"
    by (simp add: add_ops_def)
  have "ix_revoked toy_index = {}" by (simp add: toy_index_def)
  then show ?thesis
    using lost_reply_blocks_adds [OF setting_toy rep _ ok disk_fine_toy(2) [where dir = state_dir], of "[(10, \<lambda>_. []), (11, \<lambda>_. [])]"]
    unfolding adds toy_index_search by fastforce
qed

section \<open>Several clients\<close>

text \<open>C10. Clients that share a server do not disturb one another. The server keeps the pairs of
  all of them in one \<open>D\<close>, one \<open>Dplus\<close> and one \<open>Srev\<close>. Whatever Adds, Deletes, Searches and
  restarts the clients \<open>I\<close> make, in whatever order they reach the server, all of them
  succeed, and a search by client \<open>i\<close> returns what the plain index of client \<open>i\<close> alone
  holds after the steps of client \<open>i\<close> alone.\<close>

theorem clients_isolated:
  assumes S: "setting P F" and rep: "many_rep P I W (cls, sv) ixs" and xs: "fst ` set xs \<subseteq> I"
    and ok: "\<And>i. i \<in> I \<Longrightarrow> sys_all_ok (W i) (own i xs) (ixs i)"
  shows "\<exists>cls' sv'. many_run P F xs (cls, sv) = Some (Inr (cls', sv'))
    \<and> (\<forall>i \<in> I. \<forall>w \<in> W i. \<exists>s. Client_Search P F (server_net P F) (cls' i) sv' w
        = Some (Inr (got_response, index_search (fold index_sys (own i xs) (ixs i)) w, cls' i, s)))"
proof -
  obtain s' where run: "many_run P F xs (cls, sv) = Some (Inr s')"
    and rep': "many_rep P I W s' (\<lambda>i. fold index_sys (own i xs) (ixs i))"
    using many_run_tie [OF S rep xs ok] by blast
  obtain cls' sv' where s': "s' = (cls', sv')" by fastforce
  from many_rep_search [OF S rep' [unfolded s']] run show ?thesis by (auto simp: s')
qed

theorem clients_isolated_witness:
  "\<exists>cls sv cls' sv' s s'. many_run toy toy_wire
      [(0, SysAdd 9 [dog] (\<lambda>_. [])), (1, SysDelete 5 [pig]), (0, SysRestartServer), (1, SysAdd 7 [pig] (\<lambda>_. []))] (cls, sv)
      = Some (Inr (cls', sv'))
    \<and> Client_Search toy toy_wire (server_net toy toy_wire) (cls' 0) sv' dog = Some (Inr (got_response, [9], cls' 0, s))
    \<and> Client_Search toy toy_wire (server_net toy toy_wire) (cls' 1) sv' pig = Some (Inr (got_response, [6, 7], cls' 1, s'))"
proof -
  let ?xs = "[(0 :: nat, SysAdd 9 [dog] (\<lambda>_. [])), (1, SysDelete 5 [pig]), (0, SysRestartServer), (1, SysAdd 7 [pig] (\<lambda>_. []))]"
  obtain cls sv where rep: "many_rep toy {0, 1} toy_owner (cls, sv) toy_indexes" using toy_own_many by blast
  have ok: "sys_all_ok (toy_owner i) (own i ?xs) (toy_indexes i)" if "i \<in> {0, 1}" for i
    using that toy_owned
    by (auto simp: toy_owner_def toy_indexes_def without_setup_def toy_index_def index_delete_def)
  have found: "index_search (fold index_sys (own 0 ?xs) (toy_indexes 0)) dog = [9]"
    "index_search (fold index_sys (own 1 ?xs) (toy_indexes 1)) pig = [6, 7]"
    by (simp_all add: toy_indexes_def without_setup_def toy_index_def index_delete_def index_add_def index_search_def pig_ids)
  have "fst ` set ?xs \<subseteq> {0, 1}" by simp
  from clients_isolated [OF setting_toy rep this ok] obtain cls' sv' where
    run: "many_run toy toy_wire ?xs (cls, sv) = Some (Inr (cls', sv'))"
    and search: "\<forall>i \<in> {0, 1}. \<forall>w \<in> toy_owner i. \<exists>s. Client_Search toy toy_wire (server_net toy toy_wire) (cls' i) sv' w
        = Some (Inr (got_response, index_search (fold index_sys (own i ?xs) (toy_indexes i)) w, cls' i, s))"
    by blast
  have "\<exists>s. Client_Search toy toy_wire (server_net toy toy_wire) (cls' 0) sv' dog = Some (Inr (got_response, [9], cls' 0, s))"
    using search [rule_format, of 0 dog] found(1) by (simp add: toy_owner_def)
  moreover have "\<exists>s. Client_Search toy toy_wire (server_net toy toy_wire) (cls' 1) sv' pig = Some (Inr (got_response, [6, 7], cls' 1, s))"
    using search [rule_format, of 1 pig] found(2) by (simp add: toy_owner_def)
  ultimately show ?thesis using run by blast
qed

text \<open>C11. A second client that sets itself up at the server takes the index of the first away.
  \<open>SetupServer\<close> replaces \<open>D\<close> and \<open>A\<close> and clears \<open>Dplus\<close>, whoever asks: both Setups report
  success, the second client finds what it put in, and the first finds nothing for any of its
  words, with no error.\<close>

theorem second_client_takes_over:
  assumes S: "setting P F" and sv: "listening sv"
    and run0: "SetupClient P devs0 new_core ver toks0 files0 = Some (Inr (c0, L0, M0))"
    and run1: "SetupClient P devs1 new_core ver toks1 files1 = Some (Inr (c1, L1, M1))"
    and W: "set toks0 \<subseteq> W" "set toks1 \<subseteq> V" and cf: "keys_cf P W c0" "keys_cf P V c1" "apart P V c1 W c0"
    and valid: "ver = Basic \<or> (\<forall>w \<in> set toks0. INVALID \<notin> set (setup_ids toks0 files0 w))"
      "ver = Basic \<or> (\<forall>w \<in> set toks1. INVALID \<notin> set (setup_ids toks1 files1 w))"
    and len: "total_ids toks0 files0 + 1 < 2 ^ 64" "total_ids toks1 files1 + 1 < 2 ^ 64"
  shows "\<exists>cl0 sv0 cl1 sv1.
      Client_Setup P F (server_net P F) devs0 new_client sv ver toks0 files0 = Some (Inr (True, cl0, sv0))
    \<and> Client_Setup P F (server_net P F) devs1 new_client sv0 ver toks1 files1 = Some (Inr (True, cl1, sv1))
    \<and> (\<forall>w \<in> W. \<exists>s. Client_Search P F (server_net P F) cl0 sv1 w = Some (Inr (got_response, [], cl0, s)))
    \<and> (\<forall>w \<in> V. \<exists>s. Client_Search P F (server_net P F) cl1 sv1 w
        = Some (Inr (got_response, index_search (setup_index P c1 (sv_core sv) toks1 files1) w, cl1, s)))"
proof -
  let ?W = "\<lambda>i :: nat. if i = 0 then W else V"
  let ?ixs = "\<lambda>i :: nat. if i = 0 then without_setup (setup_index P c0 (sv_core sv) toks0 files0)
      else setup_index P c1 (sv_core sv) toks1 files1"
  have "\<exists>cl0 sv0 cl1 sv1 cls' sv'.
      Client_Setup P F (server_net P F) devs0 new_client sv ver toks0 files0 = Some (Inr (True, cl0, sv0))
    \<and> Client_Setup P F (server_net P F) devs1 new_client sv0 ver toks1 files1 = Some (Inr (True, cl1, sv1))
    \<and> many_run P F [] (\<lambda>i. if i = 0 then cl0 else cl1, sv1) = Some (Inr (cls', sv'))
    \<and> many_rep P {0, 1} ?W (cls', sv') (\<lambda>i. fold index_sys (own i []) (?ixs i))"
    by (rule two_clients [OF S sv run0 run1 _ _ _ _ valid len]) (use W cf in simp_all)
  then obtain cl0 sv0 cl1 sv1 where
    setups: "Client_Setup P F (server_net P F) devs0 new_client sv ver toks0 files0 = Some (Inr (True, cl0, sv0))"
      "Client_Setup P F (server_net P F) devs1 new_client sv0 ver toks1 files1 = Some (Inr (True, cl1, sv1))"
    and rep: "many_rep P {0, 1} ?W (\<lambda>i. if i = 0 then cl0 else cl1, sv1) ?ixs"
    by auto
  have "\<exists>s. Client_Search P F (server_net P F) cl0 sv1 w = Some (Inr (got_response, [], cl0, s))" if "w \<in> W" for w
    using many_rep_search [OF S rep, of 0 w] that by (simp add: without_setup_def setup_index_def index_search_def)
  moreover have "\<exists>s. Client_Search P F (server_net P F) cl1 sv1 w
        = Some (Inr (got_response, index_search (setup_index P c1 (sv_core sv) toks1 files1) w, cl1, s))" if "w \<in> V" for w
    using many_rep_search [OF S rep, of 1 w] that by simp
  ultimately show ?thesis using setups by blast
qed

theorem second_client_takes_over_witness:
  "\<exists>cl0 sv0 cl1 sv1 s s'.
      Client_Setup toy toy_wire (server_net toy toy_wire) toy_devs new_client toy_server Basic toy_tokens toy_files
        = Some (Inr (True, cl0, sv0))
    \<and> Client_Setup toy toy_wire (server_net toy toy_wire) pig_devs new_client sv0 Basic [pig] pig_files
        = Some (Inr (True, cl1, sv1))
    \<and> Client_Search toy toy_wire (server_net toy toy_wire) cl0 sv1 cat = Some (Inr (got_response, [], cl0, s))
    \<and> Client_Search toy toy_wire (server_net toy toy_wire) cl1 sv1 pig = Some (Inr (got_response, [5, 6], cl1, s'))"
proof -
  obtain L0 M0 where run0: "SetupClient toy toy_devs new_core Basic toy_tokens toy_files
      = Some (Inr (toy_keys\<lparr>version := Basic\<rparr>, L0, M0))"
    using toy_setup [of Basic] by auto
  obtain L1 M1 where run1: "SetupClient toy pig_devs new_core Basic [pig] pig_files = Some (Inr (pig_keys, L1, M1))"
    using pig_setup by blast
  have W: "set toy_tokens \<subseteq> {cat, dog}" "set [pig] \<subseteq> {pig}" by (simp_all add: toy_tokens_def)
  have "Srev (sv_core toy_server) = []" by (simp add: toy_server_def new_server_def new_core_def)
  then have found: "index_search (setup_index toy pig_keys (sv_core toy_server) [pig] pig_files) pig = [5, 6]"
    by (simp add: index_search_def setup_index_def pig_ids)
  have "total_ids toy_tokens toy_files + 1 < 2 ^ 64" "total_ids [pig] pig_files + 1 < 2 ^ 64"
    by (simp_all add: toy_total pig_ids(2))
  with second_client_takes_over [OF setting_toy listening_toy run0 run1 W toy_keys_version_cf pig_keys_cf pig_apart
      disjI1 [OF refl] disjI1 [OF refl]]
  show ?thesis using found by fastforce
qed

section \<open>Files that were cut\<close>

text \<open>C12. A server that is killed anywhere inside a file of the save after an Add or a Delete
  comes back and answers. However much of the save is there (\<open>k\<close> files and \<open>n\<close> bytes of
  the next), the restarted server loads something and runs on, and in the layouts Basic and
  Packed every search returns, in their order, only ids that are or were in the index of the
  word; it may miss some, and it may return deleted ones.\<close>

theorem torn_save_safe:
  assumes "setting P F" "sys_rep P W (cl, sv) ix" "is_update x" "sys_ok W x ix"
    and "version (sv_core sv) \<in> {Basic, Packed}"
  shows "\<exists>cl1 dead ok sv1. update_over P F (torn_net P F k n) x (cl, sv) = Some (Inr (True, cl1, dead))
    \<and> restart_server_process dead = Some (Inr (ok, sv1))
    \<and> (\<forall>w \<in> W. \<exists>ids sv2. Client_Search P F (server_net P F) cl1 sv1 w = Some (Inr (got_response, ids, cl1, sv2))
          \<and> subseq ids (ix_setup ix w @ ix_added (index_sys x ix) w))"
  by (rule torn_save [OF assms])

theorem torn_save_safe_witness:
  "\<exists>cl sv cl1 dead ok sv1 ids sv2.
      Client_Delete toy toy_wire (torn_net toy toy_wire 1 17) cl sv 3 [cat] = Some (Inr (True, cl1, dead))
    \<and> restart_server_process dead = Some (Inr (ok, sv1))
    \<and> Client_Search toy toy_wire (server_net toy toy_wire) cl1 sv1 dog = Some (Inr (got_response, ids, cl1, sv2))
    \<and> subseq ids [2, 9]"
proof -
  obtain cl sv where rep: "sys_rep toy {cat, dog} (cl, sv) (index_add 9 {dog} toy_index)" "version (sv_core sv) = Basic"
    using toy_sys_rep_added by blast
  have "is_update (SysDelete 3 [cat])" "sys_ok {cat, dog} (SysDelete 3 [cat]) (index_add 9 {dog} toy_index)"
    "version (sv_core sv) \<in> {Basic, Packed}"
    by (simp_all add: is_update_def rep(2))
  note safe = torn_save_safe [OF setting_toy rep(1) this, of 1 17]
  have "ix_setup (index_add 9 {dog} toy_index) dog @ ix_added (index_sys (SysDelete 3 [cat]) (index_add 9 {dog} toy_index)) dog = [2, 9]"
    by (simp add: index_add_def index_delete_def toy_index_def toy_ids)
  with safe show ?thesis by (fastforce simp: update_over_def)
qed

text \<open>C13. A Delete whose server is killed inside \<open>Dplus\<close>, right behind the first key, undoes all
  that was ever added and deleted. The file was emptied before it was written again; loading
  stops there and reports the damage, but \<open>server.cpp\<close> prints a warning and serves all the same, with neither
  \<open>Dplus\<close> nor \<open>Srev\<close>: every search returns the ids of the Setup, those of deleted files
  among them.\<close>

theorem torn_save_forgets:
  assumes "setting P F" "sys_rep P W (cl, sv) ix" "set words \<subseteq> W"
    and "version (sv_core sv) \<in> {Basic, Packed}" "u \<in> W" "ix_added ix u \<noteq> []"
  shows "\<exists>dead sv1. Client_Delete P F (torn_net P F 1 KEYLEN) cl sv fid words = Some (Inr (True, cl, dead))
    \<and> restart_server_process dead = Some (Inr (False, sv1))
    \<and> (\<forall>w \<in> W. \<exists>sv2. Client_Search P F (server_net P F) cl sv1 w = Some (Inr (got_response, ix_setup ix w, cl, sv2)))"
  by (rule torn_save_loses_updates [OF assms])

theorem torn_save_forgets_witness:
  "\<exists>cl sv dead sv1 sv2 sv3. Client_Delete toy toy_wire (torn_net toy toy_wire 1 KEYLEN) cl sv 3 [cat] = Some (Inr (True, cl, dead))
    \<and> restart_server_process dead = Some (Inr (False, sv1))
    \<and> Client_Search toy toy_wire (server_net toy toy_wire) cl sv1 cat = Some (Inr (got_response, [1, 2, 3, 4, 5, 6, 7], cl, sv2))
    \<and> Client_Search toy toy_wire (server_net toy toy_wire) cl sv1 dog = Some (Inr (got_response, [2], cl, sv3))"
proof -
  obtain cl sv where rep: "sys_rep toy {cat, dog} (cl, sv) (index_add 9 {dog} toy_index)" "version (sv_core sv) = Basic"
    using toy_sys_rep_added by blast
  have "ix_added (index_add 9 {dog} toy_index) dog \<noteq> []" "set [cat] \<subseteq> {cat, dog}" "dog \<in> {cat, dog}"
    "version (sv_core sv) \<in> {Basic, Packed}"
    by (simp_all add: index_add_def toy_index_def rep(2))
  note forgets = torn_save_forgets [OF setting_toy rep(1) this(2,4,3,1), of 3]
  have "ix_setup (index_add 9 {dog} toy_index) w = setup_ids toy_tokens toy_files w" for w
    by (simp add: index_add_def toy_index_def)
  with forgets toy_ids show ?thesis by simp blast
qed

text \<open>C14. A client that is killed inside a key file is locked out. Every command rewrites the
  key files, a search as well: when \<open>client search w\<close> has printed its answer and dies inside
  one of them, every later command but the setups exits with 1.\<close>

theorem torn_key_locks_out:
  assumes "setting P F" "shell_ok sh" "prog_rep P W (d, sv) bk" "w \<in> W"
    and "print_results (new_client\<lparr>fileidMap := bk_names bk\<rparr>) w (index_search (bk_index bk) w) = Inr out"
    and "k = 0 \<and> n = 0 \<or> k \<in> {1, 2, 3} \<and> n < KEYLEN"
    and "plain (command # args)" "command \<notin> {bytes_of ''setup'', bytes_of ''setuplist''}"
  shows "\<exists>d' sv'. dying_client P F sh junk k n (d, sv) (bytes_of ''search'') [w] = Some (Inr (got_response @ out, d', sv'))
    \<and> run_client P F sh junk' (d', sv') (command # args) = Some (Inl (Exit 1))"
  by (rule torn_search_locks_out [OF assms])

theorem torn_key_locks_out_witness:
  "\<exists>d sv d' sv'. dying_client toy toy_wire toy_shell (\<lambda>_. []) 1 5 (d, sv) (bytes_of ''search'') [dog]
      = Some (Inr (got_response @ result_lines dog [pets], d', sv'))
    \<and> run_client toy toy_wire toy_shell (\<lambda>_. []) (d', sv') [bytes_of ''search'', cat] = Some (Inl (Exit 1))"
proof -
  obtain d sv where rep: "prog_rep toy {cat, dog} (d, sv) (library toy_library [cats, pets])" using toy_prog_rep by blast
  have dog: "dog \<in> {cat, dog}" by simp
  have cut: "(1 :: nat) = 0 \<and> (5 :: nat) = 0 \<or> (1 :: nat) \<in> {1, 2, 3} \<and> (5 :: nat) < KEYLEN" by (simp add: KEYLEN_def)
  have "plain [bytes_of ''search'', cat]" "bytes_of ''search'' \<notin> {bytes_of ''setup'', bytes_of ''setuplist''}"
    using plain_toy by simp_all
  from torn_key_locks_out [OF setting_toy shell_ok_toy rep dog toy_print cut this, of "\<lambda>_. []" "\<lambda>_. []"]
  show ?thesis by blast
qed

text \<open>C15. A client that is killed inside \<open>Dcount\<close> may go on with counts that are too low.
  \<open>readMapCount\<close> takes the end of the file for the end of the counts, and the first digits
  of a number for the number. Where that happens the keys are as before, but for every word
  whose count changed all further Adds are acknowledged and none of them is found.\<close>

theorem torn_counts_block_adds:
  assumes "setting P F" "sys_rep P W (cl, sv) ix" "w \<in> W"
    and "Client_Load new_client dir (torn 4 n (client_writes cl dir) d) = Some (Inr (True, cl1))"
    and "dcount (cl_core cl1) w \<noteq> dcount (cl_core cl) w"
    and "\<And>f. f \<in> fst ` set adds \<Longrightarrow> (w, f) \<notin> ix_revoked ix"
  shows "\<exists>cl' sv' sv2. sys_run P F (add_ops w adds) (cl1, sv) = Some (Inr (cl', sv'))
    \<and> Client_Search P F (server_net P F) cl' sv' w = Some (Inr (got_response, index_search ix w, cl', sv2))"
  by (rule torn_counts_block [OF assms])

theorem torn_counts_block_adds_witness:
  "\<exists>cl sv cl1 cl2 sv2 sv3.
      Client_Load new_client state_dir (torn 4 0 (client_writes cl state_dir) (write_all (client_writes cl state_dir) toy_disk))
        = Some (Inr (True, cl1))
    \<and> sys_run toy toy_wire [SysAdd 10 [dog] (\<lambda>_. []), SysAdd 11 [dog] (\<lambda>_. [])] (cl1, sv) = Some (Inr (cl2, sv2))
    \<and> Client_Search toy toy_wire (server_net toy toy_wire) cl2 sv2 dog = Some (Inr (got_response, [2, 9], cl2, sv3))"
proof -
  let ?ix = "index_add 9 {dog} toy_index"
  obtain cl sv where rep: "sys_rep toy {cat, dog} (cl, sv) ?ix" using toy_sys_rep_added by blast
  then have "client_sized (cl_core cl)" "names_sized (fileidMap cl)" by (auto simp: sys_rep_def)
  note load = torn_counts_empty [OF this, of state_dir toy_disk]
  have "dcount (cl_core cl) dog = 1"
    using rep by (simp add: sys_rep_def represents_def updates_hold_def index_add_def toy_index_def)
  then have differ: "dcount (cl_core (forgotten cl)) dog \<noteq> dcount (cl_core cl) dog"
    by (simp add: forgotten_def reloaded_def dcount_def)
  have adds: "add_ops dog [(10, \<lambda>_. []), (11, \<lambda>_. [])] = [SysAdd 10 [dog] (\<lambda>_. []), SysAdd 11 [dog] (\<lambda>_. [])]"
    by (simp add: add_ops_def)
  have found: "index_search ?ix dog = [2, 9]"
    by (simp add: index_search_def index_add_def toy_index_def toy_ids)
  have "ix_revoked ?ix = {}" by (simp add: index_add_def toy_index_def)
  then show ?thesis
    using torn_counts_block_adds [OF setting_toy rep _ load differ, of "[(10, \<lambda>_. []), (11, \<lambda>_. [])]"] load
    unfolding adds found by fastforce
qed

section \<open>Core\<close>

text \<open>C16. Setup always comes to an end when the random devices deliver: it exits for a
  version it does not know, throws for a token that has no entry in \<open>fileids\<close>, and
  otherwise returns with three fresh keys of full length and no more blocks than ids.\<close>

theorem SetupClient_outcome:
  assumes "delivers r1" "delivers r2" "delivers r3"
  shows "\<exists>s L M. length (key s) = KEYLEN \<and> length (kplus s) = KEYLEN \<and> length (kminus s) = KEYLEN
    \<and> length M \<le> total_ids tokens fileids
    \<and> SetupClient P (Some r1, Some r2, Some r3) cl ver tokens fileids =
        Some (if ver \<notin> {Basic, Packed, Pointer} then Inl (Exit 1)
              else if \<exists>w \<in> set tokens. \<not> om_count fileids w then Inl OutOfRange
              else Inr (s\<lparr>version := ver\<rparr>, L, M))"
proof -
  obtain s where s: "draw_keys (Some r1, Some r2, Some r3) cl = Some (Inr s)"
    and len: "length (key s) = KEYLEN" "length (kplus s) = KEYLEN" "length (kminus s) = KEYLEN"
    using draw_keys_total [OF assms] by blast
  consider (unknown) "ver \<notin> {Basic, Packed, Pointer}"
    | (missing) w where "ver \<in> {Basic, Packed, Pointer}" "w \<in> set tokens" "\<not> om_count fileids w"
    | (fine) "ver \<in> {Basic, Packed, Pointer}" "\<And>w. w \<in> set tokens \<Longrightarrow> om_count fileids w"
    by blast
  then show ?thesis
  proof cases
    case unknown
    then show ?thesis
      using SetupClient_unknown_version [OF unknown] len
      by (intro exI [of _ s] exI [of _ "[]"]) simp
  next
    case missing
    then show ?thesis
      using SetupClient_missing_token [OF s missing] len
      by (intro exI [of _ s] exI [of _ "[]"]) auto
  next
    case fine
    obtain L M where "SetupClient P (Some r1, Some r2, Some r3) cl ver tokens fileids
        = Some (Inr (s\<lparr>version := ver\<rparr>, L, M))" "length M \<le> total_ids tokens fileids"
      using SetupClient_total [OF s fine] by blast
    then show ?thesis
      using fine len by (intro exI [of _ s] exI [of _ L] exI [of _ M]) auto
  qed
qed

theorem SetupClient_outcome_witness:
  "\<exists>s L M. SetupClient toy (Some (\<lambda>i n. [7]), Some (\<lambda>i n. [8]), Some (\<lambda>i n. [9])) new_core Packed
     [cat] toy_files = Some (Inr (s\<lparr>version := Packed\<rparr>, L, M)) \<and> length (kminus s) = KEYLEN"
proof -
  have "\<forall>w \<in> set [cat]. om_count toy_files w" by (simp add: om_count_def toy_at)
  then show ?thesis
    using SetupClient_outcome [of "\<lambda>i n. [7]" "\<lambda>i n. [8]" "\<lambda>i n. [9]" "[cat]" toy_files toy new_core Packed]
    by (auto simp: delivers_def)
qed

text \<open>C17. What a Setup makes has the sizes the code reserves for it: three keys of 32 bytes,
  and entries and blocks of 56 bytes at most, which the arrays of the search hold.\<close>

theorem setup_sizes:
  assumes "SetupClient P devs cl ver tokens fileids = Some (Inr (cl', L, M))"
  shows "length (key cl') = KEYLEN \<and> length (kplus cl') = KEYLEN \<and> length (kminus cl') = KEYLEN
    \<and> version cl' = ver \<and> ver \<in> {Basic, Packed, Pointer}
    \<and> (\<forall>p \<in> set L. length (sp_FileID p) \<le> ENCRYPTED_BLOCK_SIZE) \<and> (\<forall>b \<in> set M. length b \<le> ENCRYPTED_BLOCK_SIZE)"
proof -
  obtain s where "draw_keys devs cl = Some (Inr s)" "cl' = s\<lparr>version := ver\<rparr>" "ver \<in> {Basic, Packed, Pointer}"
    using SetupClient_returned [OF assms] by blast
  then show ?thesis using draw_keys_KEYLEN [of devs cl s] SetupClient_small [OF assms] by (simp add: small_def)
qed

theorem setup_sizes_witness:
  "\<exists>L M. SetupClient toy toy_devs new_core Pointer toy_tokens toy_files = Some (Inr (toy_keys\<lparr>version := Pointer\<rparr>, L, M))
    \<and> (\<forall>b \<in> set M. length b \<le> ENCRYPTED_BLOCK_SIZE)"
proof -
  obtain L M where run: "SetupClient toy toy_devs new_core Pointer toy_tokens toy_files
      = Some (Inr (toy_keys\<lparr>version := Pointer\<rparr>, L, M))"
    using toy_setup [of Pointer] by blast
  with setup_sizes [OF run] show ?thesis by blast
qed

text \<open>C18. On a server state whose entries and blocks have the sizes that Setup and Add write
  (\<open>entries_sized\<close>), a search returns a list of ids, whatever bytes they hold: it neither
  loops, as the labels it tries are \<open>2 ^ 64\<close> different ones and a map with fewer entries
  lacks one, nor reads or writes outside an array, nor exits. Where it fails on such a map,
  it is by \<open>exit(1)\<close> for an unknown version or by an entry of another size.\<close>

theorem search_returns:
  assumes "inj (mac_long P (sk_K1 ks))" "inj (mac_long P (sk_K1plus ks))"
    and "length (D s) < 2 ^ 64" "length (Dplus s) < 2 ^ 64"
  shows "(\<exists>ids. SearchServer P s ks = Some (Inr ids))
    \<or> version s \<notin> {Basic, Packed, Pointer} \<and> SearchServer P s ks = Some (Inl (Exit 1))
    \<or> version s \<in> {Basic, Packed, Pointer} \<and> \<not> entries_sized s \<and> SearchServer P s ks = Some (Inl Undefined)"
proof -
  obtain r where r: "SearchServer P s ks = Some r" using SearchServer_returns [OF assms] by blast
  show ?thesis
  proof (cases r)
    case (Inl e)
    then show ?thesis using r SearchServer_error [of P s ks e] by (auto split: if_splits)
  qed (use r in simp)
qed

theorem search_returns_witness:
  "\<exists>ids. SearchServer toy (new_core\<lparr>D := [(cat, replicate 24 7)]\<rparr>) (SearchClient toy toy_keys cat) = Some (Inr ids)"
proof -
  have "entries_sized (new_core\<lparr>D := [(cat, replicate 24 7)]\<rparr>)" "version (new_core\<lparr>D := [(cat, replicate 24 7)]\<rparr>) = Basic"
    by (simp_all add: entries_sized_def new_core_def sizes versions)
  then show ?thesis
    using search_returns [of toy "SearchClient toy toy_keys cat" "new_core\<lparr>D := [(cat, replicate 24 7)]\<rparr>"]
    by (simp add: inj_toy_mac new_core_def)
qed

text \<open>C19. Without the difference of the labels the loop need not end: on a server whose
  every label is present and whose entries decrypt, the Basic search never returns.\<close>

theorem search_diverges:
  assumes "version s = Basic" "\<And>c. \<exists>d. om_lookup (D s) (mac_long P (sk_K1 ks) c) = Some d \<and> 24 \<le> length d"
  shows "SearchServer P s ks = None"
proof -
  have "\<exists>new. entry_basic P s K2 k d = Inr new" if "24 \<le> length d" for K2 k d
    using that decrypt_long_total [of "string_data d" P K2]
    by (auto simp: entry_basic_def string_data_def sizes)
  then have "scan (\<lambda>c. om_lookup (D s) (mac_long P (sk_K1 ks) c))
      (entry_basic P s (sk_K2 ks) (sk_K1minus ks)) 0 [] = None"
    using assms(2) by (intro scan_diverges) blast
  with assms(1) show ?thesis by (simp add: SearchServer_def SearchServerBasic_def)
qed

theorem search_diverges_witness:
  "SearchServer \<lparr>hmac_sha256 = \<lambda>k m. replicate 32 0, aes_block = \<lambda>k b. b\<rparr>
     (new_core\<lparr>D := [(replicate 32 0, replicate 24 1)]\<rparr>)
     (SearchClient \<lparr>hmac_sha256 = \<lambda>k m. replicate 32 0, aes_block = \<lambda>k b. b\<rparr> toy_keys cat) = None"
  by (rule search_diverges) (simp_all add: new_core_def mac_long_def)

text \<open>C20. Add needs nothing of the server: whatever state it is in, with however many
  answers it replies, the client's second half ends without reading past its word list.\<close>

theorem add_never_fails:
  "\<exists>cl' sv'. run_add P cl sv fid junk words = Inr (cl', sv')"
  by (rule run_add_total)

text \<open>C21. A pair that is deleted and then added again comes back at the place it had, once
  for each time it is in the index, and nothing else changes.\<close>

theorem delete_then_add:
  assumes r: "represents P W cl sv ix" and cf: "keys_cf P W cl" and w: "w \<in> W"
    and len: "length (ix_added ix w) + 1 < 2 ^ 64"
  shows "\<exists>cl' sv'. run_ops P [DoDelete fid [w], DoAdd fid [w] junk] (cl, sv) = Inr (cl', sv')
    \<and> SearchServer P sv' (SearchClient P cl' w)
        = Some (Inr (filter (\<lambda>i. i = fid \<or> (w, i) \<notin> ix_revoked ix) (ix_setup ix w @ ix_added ix w)))"
proof -
  have "ops_ok W [DoDelete fid [w], DoAdd fid [w] junk] ix" using w len by (simp add: index_delete_def)
  from run_ops_represents [OF r cf this] show ?thesis
    using represents_search [OF _ w] index_add_after_delete [of w "{w}" fid ix] by fastforce
qed

theorem delete_then_add_witness:
  "\<exists>L M cl' sv'. run_ops toy [DoDelete 3 [cat], DoAdd 3 [cat] (\<lambda>_. [])]
       (toy_keys\<lparr>version := Basic\<rparr>, SetupServer new_core Basic L M) = Inr (cl', sv')
     \<and> SearchServer toy sv' (SearchClient toy cl' cat) = Some (Inr [1, 2, 3, 4, 5, 6, 7])"
proof -
  obtain L M where "represents toy {cat, dog} (toy_keys\<lparr>version := Basic\<rparr>)
      (SetupServer new_core Basic L M) (setup_index toy (toy_keys\<lparr>version := Basic\<rparr>) new_core toy_tokens toy_files)"
    using toy_represents [of Basic] by blast
  from delete_then_add [OF this toy_keys_version_cf, of cat 3 "\<lambda>_. []"] show ?thesis
    by (force simp: setup_index_def toy_ids)
qed

section \<open>The library behind it\<close>

text \<open>C22. Once \<open>main\<close> has registered AES, no return code of libtomcrypt reaches the exit of
  \<open>crypt_or_die\<close>: \<open>encrypt_bytes\<close> and \<open>decrypt_bytes\<close> through the calls of the library,
  whichever of its loops is compiled in, return what the model's byte-wise counter mode says.
  Where AES was not registered, the first encryption exits with 1.\<close>

theorem encryption_through_library:
  assumes "\<And>k b. length b = 16 \<Longrightarrow> length (aes k b) = 16" "length mk = KEYLEN"
    and "fast \<in> {None, Some 4, Some 8}" "16 \<le> length ctext"
  shows "lib_encrypt_bytes fast (registered_ciphers (tomcrypt K aes)) mk msg = Inr (encrypt_bytes (tomcrypt K aes) mk msg)
    \<and> lib_decrypt_bytes fast (registered_ciphers (tomcrypt K aes)) mk ctext n outsize
        = decrypt_bytes (tomcrypt K aes) mk ctext n outsize
    \<and> lib_encrypt_bytes fast blank_table mk msg = Inl (Exit 1)"
proof -
  have "block_ok (tomcrypt K aes)" using assms(1) by (simp add: block_ok_def tomcrypt_def lib_prims_def)
  from library_encrypts [OF this assms(2,3)] library_missing show ?thesis using assms(4) by simp
qed

theorem encryption_through_library_witness:
  "lib_encrypt_bytes (Some 8) (registered_ciphers (tomcrypt (replicate 64 1) (\<lambda>k b. map2 (XOR) (front k) b))) (replicate KEYLEN 0x21) cat
     = Inr (encrypt_bytes (tomcrypt (replicate 64 1) (\<lambda>k b. map2 (XOR) (front k) b)) (replicate KEYLEN 0x21) cat)"
proof -
  have "length (map2 (XOR) (front k) b) = 16" if "length b = 16" for k b :: bytes using that by simp
  then show ?thesis
    by (rule conjunct1 [OF encryption_through_library [where ctext = "replicate 16 0"]]) simp_all
qed

text \<open>C23. The MACs through \<open>hmac_init\<close>, \<open>hmac_process\<close> and \<open>hmac_done\<close>, with the stream of
  SHA-256 behind them, never exit and return the model's: the HMAC over SHA-256 of the
  message as a whole, although \<open>mac_key\<close> hands it over in two pieces. So the model's
  assumptions on its primitives hold of the library's.\<close>

theorem macs_through_library:
  assumes "length mk = KEYLEN" "length token < 2 ^ 59" "length message < 2 ^ 59"
  shows "lib_mac_key (registered_hashes (sha256_compress K)) mk keynum token = Inr (mac_key (tomcrypt K aes) mk keynum token)
    \<and> lib_mac_counter (registered_hashes (sha256_compress K)) mk message = Inr (mac_counter (tomcrypt K aes) mk message)
    \<and> lib_mac_long (registered_hashes (sha256_compress K)) mk counter = Inr (mac_long (tomcrypt K aes) mk counter)"
  unfolding tomcrypt_def using library_macs [OF sha256_compress_ok assms(1)] assms(2,3) by simp

theorem macs_through_library_witness:
  "lib_mac_key (registered_hashes (sha256_compress (replicate 64 1))) (replicate KEYLEN 0x21) 0x31 cat
     = Inr (mac_key (tomcrypt (replicate 64 1) (\<lambda>k b. b)) (replicate KEYLEN 0x21) 0x31 cat)"
  by (rule conjunct1 [OF macs_through_library [where message = "[]"]]) (simp_all add: cat_def)

section \<open>Cryptographic layer\<close>

text \<open>Labels of different tokens, or of different counters of one token, differ, given
  that HMAC has no collision among the calls made and the tokens have no NUL inside.\<close>

theorem labels_differ:
  assumes "mac_cf P mk W" "\<And>w. w \<in> W \<Longrightarrow> nul_free w" "w \<in> W" "v \<in> W"
  shows "label P mk w c = label P mk v d \<longleftrightarrow> w = v \<and> c = d"
  by (rule label_eq_iff [OF assms])

theorem labels_differ_witness:
  "label toy (replicate KEYLEN 0x21) cat 1 \<noteq> label toy (replicate KEYLEN 0x21) dog 1"
proof -
  have cf: "mac_cf toy (replicate KEYLEN 0x21) {cat, dog}"
    using toy_keys_cf [of "{cat, dog}" toy_keys] toy_words by (simp add: keys_cf_def toy_keys_def)
  show ?thesis
    using labels_differ [OF cf, of cat dog 1 1] toy_words by (auto simp: cat_def dog_def)
qed

text \<open>A token is cut at its first NUL: two tokens that agree up to there have the same
  search keys, so a search for one finds the entries of the other.\<close>

theorem nul_tokens_collide:
  "SearchServer P sv (SearchClient P cl (w @ 0 # u)) = SearchServer P sv (SearchClient P cl (w @ 0 # v))"
  by (simp add: SearchClient_NUL)

text \<open>C24. What \<open>encrypt_long\<close> writes, \<open>decrypt_long\<close> reads back, whatever bytes follow in
  the array; and the id is the only 64-bit value that \<open>putu64\<close> gives these bytes for.\<close>

theorem decrypt_encrypt_id:
  "decrypt_long P k (encrypt_long P k v @ rest) = Inr v
    \<and> length (encrypt_long P k v) = ENCRYPTED_FILEID_SIZE
    \<and> (encrypt_long P k v = encrypt_long P k u \<longleftrightarrow> v = u)"
proof -
  have "v = u" if "encrypt_long P k v = encrypt_long P k u"
    using that decrypt_encrypt_long by (metis sum.inject(2))
  then show ?thesis by (auto simp: decrypt_encrypt_long ENCRYPTED_FILEID_SIZE_def)
qed

text \<open>Every message is encrypted from the same zero IV, so two ciphertexts under one
  key show the XOR of their messages.\<close>

theorem keystream_reuse:
  assumes "length m = length m'"
  shows "map2 (XOR) (drop 16 (encrypt_bytes P k m)) (drop 16 (encrypt_bytes P k m')) = map2 (XOR) m m'"
  using ctr_encrypt_xor [OF assms] by (simp add: encrypt_bytes_def Let_def)

theorem keystream_reuse_witness:
  "map2 (XOR) (drop 16 (encrypt_bytes toy [] cat)) (drop 16 (encrypt_bytes toy [] dog)) = [7, 14, 0x13]"
  using keystream_reuse [of cat dog toy "[]"] by (simp add: cat_def dog_def)

text \<open>Every pair that Add sends carries, behind the 24 bytes of the encrypted file id,
  what was on the client's stack: \<open>AddClient\<close> sends the whole array \<open>p.d\<close>, which it never
  initialised.\<close>

theorem add_sends_stack_bytes:
  assumes run: "AddClient P s fid junk words = (s', L, W)" and p: "p \<in> set L"
  shows "\<exists>j < length words. ap_FileID p = encrypt_long P (mac_key P (kplus s) 0x32 (words ! j)) fid
    @ drop ENCRYPTED_FILEID_SIZE (junk j)"
proof -
  obtain t K where K: "add_loop P s fid junk 0 words = (t, K)" by fastforce
  then obtain q where q: "q \<in> set K" "ap_FileID p = tp_d q"
    using run p by (auto simp: AddClient_def Let_def)
  have "K = map (\<lambda>(j, w). add_token_pair' j w) (zip [0..<length words] words)"
    if "add_token_pair' = (\<lambda>j w. \<lparr>tp_w = w, tp_l = mac_long P (mac_key P (kplus s) 0x31 w) (dcount s w),
      tp_d = write_prefix (junk j) (encrypt_long P (mac_key P (kplus s) 0x32 w) fid),
      tp_r = mac_long P (mac_key P (kminus s) 0x31 w) fid\<rparr>)" for add_token_pair'
    using add_loop_pairs [of P s fid junk 0 words] by (simp add: K that add_token_pair_def Let_def)
  from this [OF refl] q(1) obtain j where "j < length words"
    "tp_d q = write_prefix (junk j) (encrypt_long P (mac_key P (kplus s) 0x32 (words ! j)) fid)"
    by (auto simp: in_set_zip)
  then show ?thesis using q(2) by (auto simp: write_prefix_def sizes)
qed

theorem add_sends_stack_bytes_witness:
  "\<exists>s' L W p. AddClient toy toy_keys 9 (\<lambda>i. replicate 56 0xAA) [dog] = (s', L, W) \<and> p \<in> set L
    \<and> drop 24 (ap_FileID p) = replicate 32 0xAA"
proof -
  obtain s' L W where run: "AddClient toy toy_keys 9 (\<lambda>i. replicate 56 0xAA) [dog] = (s', L, W)"
    by (metis prod_cases3)
  then have "L \<noteq> []" using AddClient_pairs(1,2) [OF run] by (auto simp: list_all2_Nil2)
  then obtain p where p: "p \<in> set L" by (meson list.set_sel(1))
  have "drop 24 (ap_FileID p) = replicate 32 0xAA"
    using add_sends_stack_bytes [OF run p] by (auto simp: sizes)
  with run p show ?thesis by blast
qed

text \<open>\<open>getu64\<close> reads back what \<open>putu64\<close> wrote anywhere in an array, and reading is
  defined exactly when eight bytes are there.\<close>

theorem u64_round_trip:
  "getu64 (pre @ putu64 v @ post) (length pre) = Inr v
    \<and> ((\<exists>x. getu64 bs off = Inr x) \<longleftrightarrow> off + 8 \<le> length bs)"
  using getu64_drop [of "pre @ putu64 v @ post" "length pre" 0] by (simp add: getu64_defined_iff)

text \<open>C25. A random key is drawn completely from a device that delivers something each
  time; from one that delivers nothing, \<open>random_bytes\<close> never returns.\<close>

theorem random_key_outcome:
  "(delivers rd \<longrightarrow> (\<exists>k. random_key (Some rd) = Some (Inr k) \<and> length k = KEYLEN))
    \<and> ((\<forall>i n. rd i n = []) \<longrightarrow> random_key (Some rd) = None)
    \<and> random_key None = Some (Inl (Exit 1))"
  using random_key_length random_loop_stuck [of rd KEYLEN 0 "[]"]
  by (auto simp: random_key_def random_bytes_def sizes)

theorem random_key_outcome_witness:
  "(\<exists>k. random_key (Some (\<lambda>i n. [1, 2])) = Some (Inr k) \<and> length k = 32)
    \<and> random_key (Some (\<lambda>i n. [])) = None"
  using random_key_outcome [of "\<lambda>i n. [1, 2]"] random_key_outcome [of "\<lambda>i n. []"]
  by (simp add: delivers_def KEYLEN_def)

text \<open>\<open>compare_token_pair\<close> is the lexicographic order of label, data and revocation
  id: irreflexive, transitive, and total up to equal bytes, as \<open>std::sort\<close> requires.\<close>

theorem compare_token_pair_order:
  assumes "token_pair_sized a" "token_pair_sized b" "token_pair_sized c"
  shows "(compare_token_pair a b \<longleftrightarrow> (tp_l a, tp_d a, tp_r a) < (tp_l b, tp_d b, tp_r b))
    \<and> \<not> compare_token_pair a a
    \<and> (compare_token_pair a b \<and> compare_token_pair b c \<longrightarrow> compare_token_pair a c)
    \<and> (\<not> compare_token_pair a b \<and> \<not> compare_token_pair b a \<longleftrightarrow> pair_key a = pair_key b)"
proof -
  have "(tp_l a, tp_d a, tp_r a) = pair_key a" "(tp_l b, tp_d b, tp_r b) = pair_key b"
    by (simp_all add: pair_key_def)
  then show ?thesis
    using assms less_trans [of "pair_key a" "pair_key b" "pair_key c"]
    by (simp add: compare_token_pair_iff not_less antisym_conv) (metis order.antisym order_refl)
qed

theorem compare_token_pair_order_witness:
  "compare_token_pair zero_pair (zero_pair\<lparr>tp_r := replicate 32 1\<rparr>)
    \<and> \<not> compare_token_pair zero_pair zero_pair"
proof -
  have "token_pair_sized zero_pair" "token_pair_sized (zero_pair\<lparr>tp_r := replicate 32 1\<rparr>)"
    by (simp_all add: token_pair_sized_def zero_pair_def sizes)
  moreover have zeros: "replicate 32 0 < (replicate 32 1 :: bytes)" by code_simp
  ultimately show ?thesis
    using compare_token_pair_order [of zero_pair "zero_pair\<lparr>tp_r := replicate 32 1\<rparr>" zero_pair]
      zeros by (simp add: zero_pair_def DIGESTLEN_def less_prod_simp)
qed

text \<open>The list a Setup sends does not depend on how the pairs are sorted: any
  arrangement of them in the order of \<open>compare_token_pair\<close> carries the same bytes.\<close>

theorem sorted_list_unique:
  assumes "mset K = mset L" "\<And>p. p \<in> set L \<Longrightarrow> token_pair_sized p"
    and "sorted_wrt (\<lambda>p q. \<not> compare_token_pair q p) K"
  shows "map (\<lambda>p. \<lparr>sp_Token = tp_l p, sp_FileID = take n (tp_d p)\<rparr>) K = hand_off n L"
  by (rule hand_off_any_sort [OF assms])

theorem sorted_list_unique_witness:
  "hand_off 24 [zero_pair\<lparr>tp_w := cat\<rparr>, zero_pair]
    = map (\<lambda>p. \<lparr>sp_Token = tp_l p, sp_FileID = take 24 (tp_d p)\<rparr>) [zero_pair, zero_pair\<lparr>tp_w := cat\<rparr>]"
  by (rule sorted_list_unique [symmetric])
    (auto simp: token_pair_sized_def zero_pair_def sizes compare_token_pair_def compare_loop_refl)

section \<open>The server's loop\<close>



text \<open>C27. The server ends with the exception \<open>zmq::error_t\<close> that nothing catches after exactly the
  messages that do not parse, name no operation, or are a Search with a key of a length
  other than 32: they are not answered, and the \<open>recv\<close> of the next turn throws at once, whether
  or not anything else arrives.\<close>

theorem unanswered_request_ends_server:
  assumes "waiting s" "wire_total F"
  shows "(ListenAndServe P F s [msg] = Some (Inl ZmqError)
      \<longleftrightarrow> (\<forall>req. parse_request F msg = Some req \<longrightarrow> \<not> well_formed req))
    \<and> ((\<forall>req. parse_request F msg = Some req \<longrightarrow> \<not> well_formed req)
      \<longrightarrow> ListenAndServe P F s (msg # msgs) = Some (Inl ZmqError))"
  using serve_one_ZmqError_iff [OF assms, of P msg] serve_one_await [of P F s msg] by (auto simp: obind_def split: option.splits sum.splits)

theorem unanswered_request_ends_server_witness:
  "ListenAndServe toy toy_wire toy_server [[]] = Some (Inl ZmqError)"
proof -
  have "waiting toy_server" using listening_toy by (simp add: listening_def)
  with unanswered_request_ends_server [OF this wire_total_toy, of toy "[]"] toy_empty_request show ?thesis by simp
qed

text \<open>C28. A Setup with a version the server has no search for, as \<open>TwoLevelPointer\<close>, which is
  in the enum of the protocol, is accepted: the server answers it, has the version and waits
  for more. The next Search ends it by \<open>exit(1)\<close>.\<close>

theorem unknown_version_ends_server:
  assumes "waiting s" "ver \<notin> {Basic, Packed, Pointer}"
    and "parse_request F m1 = Some \<lparr>body = SetupMsg L M, rq_version = ver\<rparr>"
    and "parse_request F m2 = Some req" "body req = SearchMsg m" "well_formed req"
  shows "(\<exists>s1. ListenAndServe P F s [m1] = Some (Inr s1) \<and> outbox (sv_sock s1) = outbox (sv_sock s) @ [[]]
      \<and> version (sv_core s1) = ver)
    \<and> ListenAndServe P F s (m1 # m2 # msgs) = Some (Inl (Exit 1))"
  using serve_unknown_version [OF assms, of P] by (auto simp: await_waiting)

theorem unknown_version_ends_server_witness:
  "\<exists>m1 m2 s1. ListenAndServe toy toy_wire toy_server [m1] = Some (Inr s1) \<and> version (sv_core s1) = TwoLevelPointer
    \<and> ListenAndServe toy toy_wire toy_server [m1, m2] = Some (Inl (Exit 1))"
proof -
  let ?k = "replicate KEYLEN 0"
  let ?m = "\<lparr>k1 = ?k, k2 = ?k, k1plus = ?k, k2plus = ?k, k1minus = ?k\<rparr>"
  obtain m1 where m1: "parse_request toy_wire m1 = Some \<lparr>body = SetupMsg [] [], rq_version = TwoLevelPointer\<rparr>"
    using wire_serializes(1) [OF wire_ok_toy wire_total_toy, of "\<lparr>body = SetupMsg [] [], rq_version = TwoLevelPointer\<rparr>"] by auto
  obtain m2 where m2: "parse_request toy_wire m2 = Some (request_of (SearchMsg ?m))"
    using wire_serializes(1) [OF wire_ok_toy wire_total_toy request_of_version] by blast
  have "waiting toy_server" using listening_toy by (simp add: listening_def)
  moreover have "TwoLevelPointer \<notin> {Basic, Packed, Pointer}" by (simp add: versions)
  moreover have "body (request_of (SearchMsg ?m)) = SearchMsg ?m" "well_formed (request_of (SearchMsg ?m))"
    by (simp_all add: request_of_def well_formed_def)
  ultimately show ?thesis using unknown_version_ends_server [OF _ _ m1 m2, of toy_server _ toy "[]"] by blast
qed

text \<open>C29. An entry of any length is accepted by a Setup in the layouts Packed and Pointer. The
  search that finds one longer than an encrypted block, or shorter than an IV, decrypts it
  into an array of the size of a block all the same: its behaviour is undefined.\<close>

theorem misfit_entry_undefined:
  assumes "waiting s" "ver \<in> {Packed, Pointer}"
    and "parse_request F m1 = Some \<lparr>body = SetupMsg [\<lparr>sp_Token = mac_long P (k1 m) 0, sp_FileID = d\<rparr>] M, rq_version = ver\<rparr>"
    and "length d < 16 \<or> ENCRYPTED_BLOCK_SIZE < length d"
    and "parse_request F m2 = Some req" "body req = SearchMsg m" "well_formed req"
  shows "(\<exists>s1. ListenAndServe P F s [m1] = Some (Inr s1) \<and> outbox (sv_sock s1) = outbox (sv_sock s) @ [[]])
    \<and> ListenAndServe P F s (m1 # m2 # msgs) = Some (Inl Undefined)"
  using serve_misfit [OF assms] by (auto simp: serve_one_await)

theorem misfit_entry_undefined_witness:
  "\<exists>m1 m2. ListenAndServe toy toy_wire toy_server [m1, m2] = Some (Inl Undefined)"
proof -
  let ?k = "replicate KEYLEN 0"
  let ?m = "\<lparr>k1 = ?k, k2 = ?k, k1plus = ?k, k2plus = ?k, k1minus = ?k\<rparr>"
  let ?set = "\<lparr>body = SetupMsg [\<lparr>sp_Token = mac_long toy (k1 ?m) 0, sp_FileID = replicate 57 0\<rparr>] [], rq_version = Packed\<rparr>"
  obtain m1 where m1: "parse_request toy_wire m1 = Some ?set"
    using wire_serializes(1) [OF wire_ok_toy wire_total_toy, of ?set] by auto
  obtain m2 where m2: "parse_request toy_wire m2 = Some (request_of (SearchMsg ?m))"
    using wire_serializes(1) [OF wire_ok_toy wire_total_toy request_of_version] by blast
  have "waiting toy_server" using listening_toy by (simp add: listening_def)
  from misfit_entry_undefined [OF this _ m1 _ m2, of "[]"]
  have "ListenAndServe toy toy_wire toy_server [m1, m2] = Some (Inl Undefined)"
    by (simp add: request_of_def well_formed_def sizes)
  then show ?thesis by blast
qed

section \<open>Files on disk\<close>

text \<open>C30. What \<open>SaveServerToStorage\<close> writes, \<open>LoadServerFromStorage\<close> reads back into a
  fresh server: version, \<open>D\<close>, \<open>Dplus\<close>, \<open>Srev\<close> and \<open>A\<close>, the last with exactly one empty
  block at its end, however often the server has been saved and loaded before.\<close>

theorem save_load_server:
  assumes "server_sized s" "disk_current base d s" "SaveServerToStorage s base d = (True, s', d')"
  shows "s' = s\<lparr>dirtyD := False\<rparr>
    \<and> (\<exists>M. A s \<in> {M, M @ [[]]} \<and> LoadServerFromStorage new_core base d' = Some (Inr (True, new_core\<lparr>version := version s,
        D := D s, Dplus := Dplus s, Srev := Srev s, A := M @ [[]]\<rparr>)))"
proof -
  have "s' = s\<lparr>dirtyD := False\<rparr>" "stored base d' s" using saved_server [OF assms(2,3)] by auto
  with load_stored [OF assms(1) this(2), of new_core] show ?thesis by (auto simp: new_core_def)
qed

theorem save_load_server_witness:
  "\<exists>s d'. SaveServerToStorage (SetupServer new_core Pointer [\<lparr>sp_Token = replicate KEYLEN 7, sp_FileID = [1]\<rparr>] [[5]])
      ''server-state'' toy_disk = (True, s, d')
    \<and> LoadServerFromStorage new_core ''server-state'' d' = Some (Inr (True, new_core\<lparr>version := Pointer,
        D := [(replicate KEYLEN 7, [1])], Dplus := [], Srev := [], A := [[5], []]\<rparr>))"
proof -
  let ?s = "SetupServer new_core Pointer [\<lparr>sp_Token = replicate KEYLEN 7, sp_FileID = [1]\<rparr>] [[5]]"
  have s: "version ?s = Pointer" "D ?s = [(replicate KEYLEN 7, [1])]" "Dplus ?s = []" "Srev ?s = []" "A ?s = [[5]]"
    "dirtyD ?s"
    by (simp_all add: SetupServer_eq new_core_def)
  have sized: "server_sized ?s"
    using new_core_sized(1)
    by (intro server_sized_SetupServer) (simp_all add: versions small_def ENCRYPTED_BLOCK_SIZE_def BLOCK_SIZE_def)
  have cur: "disk_current ''server-state'' toy_disk ?s" by (simp add: disk_current_def s)
  obtain s' d' where save: "SaveServerToStorage ?s ''server-state'' toy_disk = (True, s', d')"
    using SaveServer_fine [OF disk_fine_toy(2), of ?s "''server-state''"] by blast
  from save_load_server [OF sized cur save] save show ?thesis by (auto simp: s) (simp add: new_core_def)
qed

text \<open>C31. What \<open>Client::Save\<close> writes, \<open>Client::Load\<close> reads back into a new client: the keys,
  the version, the counts of added files, the names of the files and the next file id.\<close>

theorem save_load_client:
  assumes "client_sized (cl_core cl)" "names_sized (fileidMap cl)" "Client_Save cl dir d = (True, d')"
  shows "\<exists>cl2. Client_Load new_client dir d' = Some (Inr (True, cl2))
    \<and> version (cl_core cl2) = version (cl_core cl) \<and> key (cl_core cl2) = key (cl_core cl)
    \<and> kplus (cl_core cl2) = kplus (cl_core cl) \<and> kminus (cl_core cl2) = kminus (cl_core cl)
    \<and> Dcount (cl_core cl2) = Dcount (cl_core cl)
    \<and> fileidMap cl2 = fileidMap cl \<and> lastFileid cl2 = lastFileid cl"
proof -
  have "new_client\<lparr>addr := []\<rparr> = new_client" by (simp add: new_client_def)
  then show ?thesis using load_saved [OF assms, of "[]"] by (simp add: reloaded_def)
qed

theorem save_load_client_witness:
  "\<exists>d' cl2. Client_Save (new_client\<lparr>cl_core := toy_keys\<lparr>version := Packed, Dcount := [(cat, 7)]\<rparr>,
      fileidMap := [(1, cats), (2, pets)], lastFileid := 3\<rparr>) state_dir toy_disk = (True, d')
    \<and> Client_Load new_client state_dir d' = Some (Inr (True, cl2)) \<and> Dcount (cl_core cl2) = [(cat, 7)]
    \<and> fileidMap cl2 = [(1, cats), (2, pets)] \<and> lastFileid cl2 = 3"
proof -
  let ?cl = "new_client\<lparr>cl_core := toy_keys\<lparr>version := Packed, Dcount := [(cat, 7)]\<rparr>,
      fileidMap := [(1, cats), (2, pets)], lastFileid := 3\<rparr>"
  have 1: "client_sized (cl_core ?cl)"
    by (simp add: client_sized_def versions toy_keys_def om_inv_def cat_def)
  have 2: "names_sized (fileidMap ?cl)" by (simp add: names_sized_def om_inv_def cats_def pets_def)
  obtain d' where "Client_Save ?cl state_dir toy_disk = (True, d')"
    using SaveClient_fine [OF disk_fine_toy(2), of ?cl] by blast
  with save_load_client [OF 1 2 this] show ?thesis by auto
qed

text \<open>C32. Loading always comes to an end, whatever the files hold: \<open>Load\<close> returns true or false,
  or leaves by the exception that constructing a string of an impossible size throws.\<close>

theorem loading_returns:
  "(LoadServerFromStorage s dir d = Some (Inl LengthError) \<or> (\<exists>ok c. LoadServerFromStorage s dir d = Some (Inr (ok, c))))
    \<and> (Client_Load cl dir d = Some (Inl LengthError) \<or> (\<exists>ok cl2. Client_Load cl dir d = Some (Inr (ok, cl2))))"
  using LoadServer_ends [of s dir d] Client_Load_ends [of cl dir d] unfolding load_ends_def by (rule conjI)

text \<open>C33. A damaged length keeps the server from starting. \<open>readString\<close> makes a string of the size
  that stands in the file before it looks at the rest; where \<open>D\<close> begins with a key and a size
  no string can have, the exception leaves \<open>Load\<close> and ends the program, although \<open>main\<close>
  means to warn and to go on when the state cannot be loaded.\<close>

theorem damaged_size_stops_server:
  assumes "files d ''server-state/version'' = Some (dec_int v)" "- (2 ^ 31) \<le> v" "v < 2 ^ 31"
    and "files d ''server-state/D'' = Some (k @ dec n @ 0x3A # rest)" "length k = KEYLEN"
    and "2 ^ 47 \<le> n" "n < 2 ^ 64"
  shows "server_main P F zmq_bind d [name] msgs = Some (Inl LengthError)"
proof -
  have "readInt ''server-state/version'' x d = (True, v)" for x
    using read_int_dec [OF assms(2,3)] by (simp add: readInt_def assms(1))
  moreover have "readMap ''server-state/D'' m d = Some (Inl LengthError)" for m
    using readMap_size [OF assms(5-7)] by (simp add: readMap_def assms(4))
  ultimately show ?thesis
    by (simp add: server_main_def server_load_def LoadServerFromStorage_def new_server_def)
qed

theorem damaged_size_stops_server_witness:
  "server_main toy toy_wire (\<lambda>a. True) (toy_disk\<lparr>files := [''server-state/version'' \<mapsto> dec_int 1,
     ''server-state/D'' \<mapsto> replicate KEYLEN 9 @ dec (2 ^ 63) @ 0x3A # []]\<rparr>) [bytes_of ''server''] []
   = Some (Inl LengthError)"
  by (rule damaged_size_stops_server [where v = 1 and n = "2 ^ 63" and k = "replicate KEYLEN 9" and rest = "[]"]) simp_all

text \<open>A netstring that \<open>writeString\<close> wrote is read back by \<open>readString\<close>, with the
  stream left right behind it.\<close>

theorem netstring_round_trip:
  assumes "length s < 2 ^ 47"
  shows "readString (istream_on (writeString s @ rest)) old = Inr (True, s, istream_on rest)"
  using readString_writeString [OF _ assms, of "[]" rest old] by simp

theorem netstring_round_trip_witness:
  "readString (istream_on (writeString [44, 58, 0, 32] @ [7])) [1] = Inr (True, [44, 58, 0, 32], istream_on [7])"
  by (rule netstring_round_trip) simp

text \<open>\<open>readMap\<close> does not notice that a file was cut short: a file that ends between two
  records, or inside the key of one, is read as complete, so the entries behind the cut are
  lost without an error.\<close>

theorem cut_map_accepted:
  assumes "om_inv m" "map_sized m" "length part < KEYLEN"
    and "files d p = Some (map_bytes m @ part)"
  shows "readMap p [] d = Some (Inr (True, m))"
  using readMap_cut [OF assms(1-3)] assms(4) by (simp add: readMap_def)

theorem cut_map_accepted_witness:
  "readMap ''D'' [] (toy_disk\<lparr>files := [''D'' \<mapsto> map_bytes [(replicate KEYLEN 1, [2])] @ replicate 31 9]\<rparr>)
   = Some (Inr (True, [(replicate KEYLEN 1, [2])]))"
  by (rule cut_map_accepted) (simp_all add: om_inv_def map_sized_def KEYLEN_def DIGESTLEN_def)

text \<open>A server that has never had a Setup saves the pairs it was given by Add, and
  cannot load them: \<open>D\<close> was never written, so loading stops before \<open>Dplus\<close> and \<open>Srev\<close>.\<close>

theorem adds_before_setup_not_loaded:
  assumes "\<not> dirtyD s" "files d (base @ ''/D'') = None" "SaveServerToStorage s base d = (True, s', d')"
  shows "files d' (base @ ''/Dplus'') = Some (map_bytes (Dplus s))
    \<and> (\<exists>c'. LoadServerFromStorage new_core base d' = Some (Inr (False, c')) \<and> Dplus c' = [] \<and> Srev c' = [])"
proof -
  have "files d' (base @ ''/Dplus'') = Some (map_bytes (Dplus s))"
    using save_clean [OF assms(1,3)] by simp
  then show ?thesis using save_without_setup [OF assms, of new_core] by (simp add: new_core_def)
qed

theorem adds_before_setup_not_loaded_witness:
  "\<exists>s' d' c'. SaveServerToStorage (new_core\<lparr>Dplus := [(replicate KEYLEN 1, [2])]\<rparr>) ''server-state'' toy_disk = (True, s', d')
    \<and> LoadServerFromStorage new_core ''server-state'' d' = Some (Inr (False, c')) \<and> Dplus c' = []"
proof -
  let ?s = "new_core\<lparr>Dplus := [(replicate KEYLEN 1, [2])]\<rparr>"
  obtain s' d' where save: "SaveServerToStorage ?s ''server-state'' toy_disk = (True, s', d')"
    using SaveServer_fine [OF disk_fine_toy(2), of ?s "''server-state''"] by blast
  have "\<not> dirtyD ?s" "files toy_disk (''server-state'' @ ''/D'') = None"
    by (simp_all add: new_core_def toy_disk_def)
  from adds_before_setup_not_loaded [OF this save] save show ?thesis by blast
qed

section \<open>Words, names and options\<close>

text \<open>C34. \<open>tokenize\<close> returns, each once and in increasing order, exactly the words of the
  file: the non-empty runs of bytes that are not white space and cannot be made longer.\<close>

theorem tokenize_correct:
  assumes "files d (path_of f) = Some bs"
  shows "\<exists>ts. tokenize d f old = (True, ts) \<and> sorted_wrt (<) ts
    \<and> set ts = {w. w \<noteq> [] \<and> (\<forall>b \<in> set w. \<not> is_space b)
        \<and> (\<exists>pre post. bs = pre @ w @ post \<and> (pre = [] \<or> is_space (last pre)) \<and> (post = [] \<or> is_space (hd post)))}"
proof -
  obtain ts where ts: "tokenize d f old = (True, ts)" using assms by (simp add: tokenize_def)
  have "tokenize d f [] = (True, ts)" using ts assms by (simp add: tokenize_def)
  then have "sorted_wrt (<) ts" "set ts = set (words_of bs)"
    using tokenize_sorted [OF os_inv_empty, of d f] tokenize_set [OF assms, of "[]"] by (simp_all add: os_inv_def)
  moreover have "set (words_of bs) = {w. word_at bs w}" by (auto simp: words_of_word_at)
  ultimately show ?thesis using ts by (simp add: word_at_def)
qed

theorem tokenize_correct_witness:
  "\<exists>ts. tokenize toy_library pets [] = (True, ts) \<and> sorted_wrt (<) ts \<and> cat \<in> set ts"
proof -
  obtain ts where ts: "tokenize toy_library pets [] = (True, ts)" "sorted_wrt (<) ts"
    "set ts = {w. w \<noteq> [] \<and> (\<forall>b \<in> set w. \<not> is_space b)
        \<and> (\<exists>pre post. cat @ 32 # dog @ [10] = pre @ w @ post \<and> (pre = [] \<or> is_space (last pre)) \<and> (post = [] \<or> is_space (hd post)))}"
    using tokenize_correct [OF toy_library_files(2)] by blast
  have "cat \<in> set ts"
    unfolding ts(3) using toy_spelling
    by (intro CollectI conjI exI [of _ "[]"] exI [of _ "32 # dog @ [10]"]) (simp_all add: is_space_def)
  with ts show ?thesis by blast
qed

text \<open>Each \<open>-P\<close> moves the version one step on and stops at \<open>Pointer\<close>, so the client
  only ever asks for a version that \<open>SetupClient\<close> and the server know.\<close>

theorem version_from_options:
  assumes "parse_options opts DefaultPort Basic = Inr (port, ver)"
  shows "ver = min Pointer (Basic + int (length (filter (\<lambda>x. x = OptP) opts)))
    \<and> ver \<in> {Basic, Packed, Pointer}"
proof -
  have "min 2 (int k) \<in> {0, 1, 2}" for k by (simp add: min_def) presburger
  then show ?thesis using parse_options_version [OF assms] by (simp add: versions)
qed

theorem version_from_options_witness:
  "parse_options [OptP, OptPort [0x37], OptP, OptP] DefaultPort Basic = Inr (7, Pointer)"
proof -
  have "atoi [0x37] = Some 7" by (simp add: atoi_def scan_number_def is_space_def is_digit_def dec_value_def)
  then obtain ver where ver: "parse_options [OptP, OptPort [0x37], OptP, OptP] DefaultPort Basic = Inr (7, ver)"
    by (simp add: versions)
  from version_from_options [OF this] have "ver = Pointer" by (simp add: versions)
  with ver show ?thesis by simp
qed

text \<open>\<open>client setuplist m\<close>, where \<open>m\<close> holds one file name a line, does what
  \<open>client setup\<close> with these names as arguments does; a line feed after the last name makes
  no difference.\<close>

theorem setuplist_is_setup:
  assumes "shell_ok sh" "plain [m]" "plain (fs @ [f])"
    and "\<forall>l \<in> set (fs @ [f]). 10 \<notin> set l" "f \<noteq> []" "nl \<in> {[], [10]}"
    and "files d (path_of m) = Some (concat (map (\<lambda>l. l @ [10]) fs) @ f @ nl)"
  shows "run_client P F sh junk (d, sv) [bytes_of ''setuplist'', m]
    = run_client P F sh junk (d, sv) (bytes_of ''setup'' # fs @ [f])"
proof -
  have "lines_of (concat (map (\<lambda>l. l @ [10]) fs) @ f @ nl) = fs @ [f]"
    using lines_of_last [of fs f] lines_of_lines [of "fs @ [f]"] assms(4-6) by auto
  note list = setuplist_setup [OF assms(7) this, simplified]
  have "plain (bytes_of ''setuplist'' # [m])" "plain (bytes_of ''setup'' # fs @ [f])"
    using assms(2,3) by (simp_all only: plain_commands)
  note run_client_plain [OF assms(1) this(1), of P F junk d sv] run_client_plain [OF assms(1) this(2), of P F junk d sv]
  then show ?thesis by (simp add: run_command_def list)
qed

theorem setuplist_is_setup_witness:
  "run_client toy toy_wire toy_shell (\<lambda>i. []) (toy_disk\<lparr>files := [path_of dogs \<mapsto> cats @ [10] @ pets @ [10]]\<rparr>, toy_server)
      [bytes_of ''setuplist'', dogs]
   = run_client toy toy_wire toy_shell (\<lambda>i. []) (toy_disk\<lparr>files := [path_of dogs \<mapsto> cats @ [10] @ pets @ [10]]\<rparr>, toy_server)
      (bytes_of ''setup'' # [cats] @ [pets])"
  by (rule setuplist_is_setup [OF shell_ok_toy plain_toy(2), where nl = "[10]"])
    (use plain_toy(1) in \<open>simp_all add: cats_def pets_def\<close>)

section \<open>The server's containers\<close>

text \<open>Delete is a set union: neither the order nor a repetition of the revocation ids
  matters.\<close>

theorem delete_order_free:
  assumes "os_inv (Srev s)" "set L = set L'"
  shows "DeleteServer s L = DeleteServer s L'"
  by (rule DeleteServer_set [OF assms])

theorem delete_order_free_witness:
  "DeleteServer new_core [cat, dog, cat] = DeleteServer new_core [dog, cat]"
  by (rule delete_order_free) auto

section \<open>The index without files\<close>

lemma seed_words: "w \<in> set seed_tokens \<Longrightarrow> nul_free w \<and> length w \<le> 14"
proof -
  have "list_all (\<lambda>w. nul_free w \<and> length w \<le> 14) seed_tokens"
    by (simp add: seed_tokens_def bytes_of_def nul_free_def)
  then show "w \<in> set seed_tokens \<Longrightarrow> nul_free w \<and> length w \<le> 14" by (simp add: list_all_iff)
qed

lemma seed_plain: "w \<in> set seed_tokens \<Longrightarrow> plain [w]"
proof -
  have "list_all (\<lambda>w. plain [w]) seed_tokens"
    by (simp add: seed_tokens_def bytes_of_def plain_def)
  then show "w \<in> set seed_tokens \<Longrightarrow> plain [w]" by (simp add: list_all_iff)
qed

text \<open>C35. After \<open>client setup\<close> without files, \<open>client search\<close> for one of the four words it
  indexed ends with \<open>std::out_of_range\<close>: the id is found, and \<open>Filename\<close> throws for an id
  without a name where its comment promises the empty string.\<close>

theorem search_after_bare_setup_throws:
  assumes "setting P F" "shell_ok sh" "fresh_server sv" "fresh_keys P sh W" "disk_fine state_dir d"
    and "set seed_tokens \<subseteq> W" "w \<in> set seed_tokens"
  shows "\<exists>s1. run_client P F sh junk (d, sv) [bytes_of ''setup''] = Some (Inr ([], s1))
    \<and> run_client P F sh junk s1 [bytes_of ''search'', w] = Some (Inl OutOfRange)"
proof -
  obtain d1 sv1 where s1: "run_client P F sh junk (d, sv) [bytes_of ''setup''] = Some (Inr ([], d1, sv1))"
    "prog_rep P W (d1, sv1) (seed_book d)"
    using run_setup_seed [OF assms(1-6)] by force
  have "plain [w]" by (rule seed_plain [OF assms(7)])
  moreover have "print_results (new_client\<lparr>fileidMap := bk_names (seed_book d)\<rparr>) w
      (index_search (bk_index (seed_book d)) w) = Inl OutOfRange"
    by (simp add: seed_search [OF assms(7)] result_line_def Filename_def) (simp add: seed_book_def)
  moreover have "w \<in> W" using assms(6,7) by blast
  ultimately show ?thesis using run_search [OF assms(1,2) _ s1(2), of w junk] s1(1) by auto
qed

theorem search_after_bare_setup_throws_witness:
  "\<exists>s1. run_client toy toy_wire toy_shell (\<lambda>i. []) (toy_disk, toy_server) [bytes_of ''setup''] = Some (Inr ([], s1))
    \<and> run_client toy toy_wire toy_shell (\<lambda>i. []) s1 [bytes_of ''search'', bytes_of ''test''] = Some (Inl OutOfRange)"
proof -
  have "nul_free w \<and> length w \<le> 14" if "w \<in> set seed_tokens" for w
    using that seed_words by blast
  note keys = fresh_keys_toy [OF this]
  have "bytes_of ''test'' \<in> set seed_tokens" by (simp add: seed_tokens_def)
  from search_after_bare_setup_throws [OF setting_toy shell_ok_toy fresh_server_toy keys disk_fine_toy(2) subset_refl this]
  show ?thesis .
qed

text \<open>C36. Files added after \<open>client setup\<close> without files get the ids 0, 1, ..., and 1 is the
  id of the words that are there already: after two \<open>client addfile\<close>, a search for one of
  the four words prints the name of the second file, whatever that file holds.\<close>

theorem addfile_after_bare_setup_clashes:
  assumes "setting P F" "shell_ok sh" "fresh_server sv" "fresh_keys P sh W" "disk_fine state_dir d"
    and "set seed_tokens \<subseteq> W" "w \<in> set seed_tokens"
    and "cmds_ok W [CmdAddFile f junk, CmdAddFile g junk] (seed_book d)"
    and "w \<notin> words_in (seed_book d) f" "w \<notin> words_in (seed_book d) g" "g \<noteq> []"
  shows "\<exists>s1 s2 s3. run_client P F sh junk (d, sv) [bytes_of ''setup''] = Some (Inr ([], s1))
    \<and> cmd_run P F sh [CmdAddFile f junk, CmdAddFile g junk] s1 = Some (Inr s2)
    \<and> run_client P F sh junk s2 [bytes_of ''search'', w] = Some (Inr (got_response @ result_lines w [g], s3))"
proof -
  obtain d1 sv1 where s1: "run_client P F sh junk (d, sv) [bytes_of ''setup''] = Some (Inr ([], d1, sv1))"
    "prog_rep P W (d1, sv1) (seed_book d)"
    using run_setup_seed [OF assms(1-6)] by force
  let ?bk = "fold cmd_book [CmdAddFile f junk, CmdAddFile g junk] (seed_book d)"
  obtain d2 sv2 where s2: "cmd_run P F sh [CmdAddFile f junk, CmdAddFile g junk] (d1, sv1) = Some (Inr (d2, sv2))"
    "prog_rep P W (d2, sv2) ?bk"
    using cmd_run_tie [OF assms(1,2) s1(2) assms(8)] by force
  have "print_results (new_client\<lparr>fileidMap := bk_names ?bk\<rparr>) w (index_search (bk_index ?bk) w) = Inr (result_lines w [g])"
    unfolding seed_added(1) [OF assms(7,9,10)] using seed_added(2) [OF assms(7,9,10)] assms(11)
    by (simp add: result_line_def Filename_def result_lines_def del: fold_simps)
  moreover have "plain [w]" by (rule seed_plain [OF assms(7)])
  moreover have "w \<in> W" using assms(6,7) by blast
  ultimately show ?thesis using run_search [OF assms(1,2) _ s2(2), of w junk] s1(1) s2(1) by auto
qed

theorem addfile_after_bare_setup_clashes_witness:
  "\<exists>s1 s2 s3. run_client toy toy_wire toy_shell (\<lambda>i. []) (toy_library, toy_server) [bytes_of ''setup''] = Some (Inr ([], s1))
    \<and> cmd_run toy toy_wire toy_shell [CmdAddFile cats (\<lambda>i. []), CmdAddFile dogs (\<lambda>i. [])] s1 = Some (Inr s2)
    \<and> run_client toy toy_wire toy_shell (\<lambda>i. []) s2 [bytes_of ''search'', bytes_of ''test'']
      = Some (Inr (got_response @ result_lines (bytes_of ''test'') [dogs], s3))"
proof -
  let ?W = "set seed_tokens \<union> {cat, dog}"
  have "nul_free w \<and> length w \<le> 14" if "w \<in> ?W" for w
    using that toy_words seed_words by blast
  note keys = fresh_keys_toy [OF this]
  have lib: "bk_index (seed_book toy_library) = \<lparr>ix_setup = (\<lambda>w. if w \<in> set seed_tokens then [1] else []),
      ix_added = (\<lambda>w. []), ix_revoked = {}\<rparr>" "bk_files (seed_book toy_library) = files toy_library"
    by (simp_all add: seed_book_def)
  have words: "words_in bk cats = {cat}" "words_in bk dogs = {dog}" if "bk_files bk = files toy_library" for bk
    by (simp_all add: words_in_def that toy_library_files toy_words_of)
  have test: "bytes_of ''test'' \<in> set seed_tokens" "bytes_of ''test'' \<noteq> cat" "bytes_of ''test'' \<noteq> dog"
    by (simp_all add: seed_tokens_def bytes_of_def cat_def dog_def)
  have outside: "\<not> inside (path_of cats)" "\<not> inside (path_of dogs)"
    by (simp_all add: inside_def state_dir_def cats_def dogs_def path_of_def)
  have plain: "plain [cats]" using plain_toy(1) by (simp add: plain_def)
  have len: "length cat < 2 ^ 47" "length dog < 2 ^ 47" by (simp_all add: cat_def dog_def)
  have ok: "cmds_ok ?W [CmdAddFile cats (\<lambda>i. []), CmdAddFile dogs (\<lambda>i. [])] (seed_book toy_library)"
    using plain plain_toy(2) outside toy_names len
    by (simp add: words lib sizes_ok_def toy_library_files index_add_def)
  have W: "set seed_tokens \<subseteq> ?W" by blast
  have d: "disk_fine state_dir toy_library" by (simp add: toy_library_def)
  show ?thesis
    by (rule addfile_after_bare_setup_clashes [OF setting_toy shell_ok_toy fresh_server_toy keys d W test(1) ok])
      (simp_all add: words lib test toy_names)
qed

section \<open>The benchmark\<close>

text \<open>C37. The benchmark program comes to its end against a fresh server: it prints the one
  id of \<open>test\<close>, none for \<open>balloons\<close>, no complaint about an Add, and leaves an index in
  which a search finds the 100000 ids of \<open>balloons\<close> in order and the one of \<open>Chocolate\<close>.\<close>

theorem bench_finds:
  assumes S: "setting P F" and sv: "fresh_server sv" and conn: "zmq_connect default_addr"
    and s: "draw_keys devs new_core = Some (Inr s)" "keys_cf P bench_words s"
    and junk: "\<And>i j. length (junk i j) < 2 ^ 47" and d: "disk_fine state_dir d"
  shows "\<exists>d' sv' bk. bench_main P F zmq_connect (\<lambda>port. server_net P F) devs junk rnd ns d sv [prog]
      = Some (Inr (bench_output rnd ns, d', sv'))
    \<and> prog_rep P bench_words (d', sv') bk
    \<and> index_search (bk_index bk) balloons = map of_nat [0..<size_of_database]
    \<and> index_search (bk_index bk) chocolate = [of_nat (rnd mod size_of_database)]"
proof -
  let ?cl = "new_client\<lparr>addr := default_addr\<rparr>"
  obtain c sv1 where 1: "Client_Setup P F (server_net P F) devs ?cl sv Basic bench_tokens bench_fidmap
      = Some (Inr (True, ?cl\<lparr>cl_core := c\<rparr>, sv1))" "sys_rep P bench_words (?cl\<lparr>cl_core := c\<rparr>, sv1) bench_index"
    using bench_setup [OF S sv s _ refl] unfolding bench_words_def by blast
  obtain d' sv' bk where 2: "bench_run P F (server_net P F) devs junk rnd ns d ?cl sv = Some (Inr (bench_output rnd ns, d', sv'))"
    "prog_rep P bench_words (d', sv') bk"
    "bk_index bk = index_adds chocolate [rnd mod size_of_database] (index_adds balloons [0..<size_of_database] bench_index)"
    using bench_ran [where junk = junk, OF S 1(2,1) junk d] by blast
  have "bench_main P F zmq_connect (\<lambda>port. server_net P F) devs junk rnd ns d sv [prog]
      = Some (Inr (bench_output rnd ns, d', sv'))"
    using conn 2(1) by (simp add: bench_main_def Connect_def default_addr_def Let_def)
  moreover have "index_search (bk_index bk) balloons = map of_nat [0..<size_of_database]"
    "index_search (bk_index bk) chocolate = [of_nat (rnd mod size_of_database)]"
    using bench_words_differ
    by (simp_all add: 2(3) index_adds_added bench_index_def index_search_def)
  ultimately show ?thesis using 2(2) by blast
qed

theorem bench_finds_witness:
  "\<exists>d' sv'. bench_main toy toy_wire (\<lambda>a. True) (\<lambda>port. server_net toy toy_wire) toy_devs (\<lambda>i j. []) 100007 (5, 6)
      toy_disk toy_server [bytes_of ''bench''] = Some (Inr (bench_output 100007 (5, 6), d', sv'))"
proof -
  have "nul_free w \<and> length w \<le> 14" if "w \<in> bench_words" for w
    using that by (auto simp: bench_words_def bench_tokens_def balloons_def chocolate_def bytes_of_def nul_free_def)
  then have "keys_cf toy bench_words toy_keys" by (rule toy_keys_cf) simp_all
  from bench_finds [where junk = "\<lambda>i j. []" and zmq_connect = "\<lambda>a. True" and rnd = 100007 and ns = "(5, 6)"
      and prog = "bytes_of ''bench''", OF setting_toy fresh_server_toy _ draw_keys_toy this _ disk_fine_toy(2)]
  show ?thesis by fastforce
qed

section \<open>The smoke test\<close>

text \<open>C38. The smoke test can be run again and again against one server. The first run, which
  finds no saved state, sets up and prints what the test is meant to show: \<open>test\<close> in file
  1, \<open>balloons\<close> nowhere, then in file 4, then nowhere again, and no error. Each run after it
  loads the state and prints the same.\<close>

theorem smoke_test_repeats:
  assumes S: "setting P F" and conn: "\<And>a. conn a" and sv: "fresh_server sv"
    and s: "draw_keys devs new_core = Some (Inr s)" "keys_cf P smoke_words s"
    and d: "disk_fine state_dir d" "files d (state_dir @ ''/version'') = None"
    and js: "smoke_stacks (junk # js)" "length js + 1 < 2 ^ 64"
  shows "\<exists>s'. smoke_times P F conn devs (junk # js) (d, sv)
    = Some (Inr ((say ''setup finished'' @ smoke_output)
        # replicate (length js) (say ''loaded client state'' @ smoke_output), s'))"
proof -
  have junk: "length (junk i j) < 2 ^ 47" for i j using js(1) by (simp add: smoke_stacks_def)
  obtain d' sv' bk where 1: "smoke_main P F conn (\<lambda>port. server_net P F) devs junk d sv [bytes_of ''client_test'']
      = Some (Inr (say ''setup finished'' @ smoke_output, d', sv'))"
    and bk: "prog_rep P smoke_words (d', sv') bk" "bk_index bk = smoke_index 1"
    using smoke_first [where junk = junk and conn = conn, OF S conn junk sv s d] by blast
  have "smoke_stacks js" using js(1) by (simp add: smoke_stacks_def)
  from smoke_again [where conn = conn and devs = devs, OF S conn this bk] js(2) 1 show ?thesis by fastforce
qed

theorem smoke_test_repeats_witness:
  "\<exists>s'. smoke_times toy toy_wire (\<lambda>a. True) toy_devs [\<lambda>i j. [], \<lambda>i j. [7]] (toy_disk, toy_server)
    = Some (Inr ([say ''setup finished'' @ smoke_output, say ''loaded client state'' @ smoke_output], s'))"
proof -
  have "nul_free w \<and> length w \<le> 14" if "w \<in> smoke_words" for w
    using that by (auto simp: smoke_words_def bench_tokens_def balloons_def clowns_def bananas_def bytes_of_def nul_free_def)
  then have "keys_cf toy smoke_words toy_keys" by (rule toy_keys_cf) simp_all
  from smoke_test_repeats [where conn = "\<lambda>a. True", OF setting_toy _ fresh_server_toy draw_keys_toy this disk_fine_toy(2), of "\<lambda>i j. []" "[\<lambda>i j. [7]]"]
  show ?thesis by (simp add: smoke_stacks_def toy_disk_def)
qed

section \<open>Where the scheme's promises end\<close>

text \<open>C39. A client that sets itself up a second time keeps its counters, while the server
  forgets its added entries: the next Add of a token it had added before is acknowledged,
  and a search does not find it.\<close>

theorem second_setup_loses_add:
  assumes run: "SetupClient P devs cl ver tokens fileids = Some (Inr (cl', L, M))"
    and W: "set tokens \<subseteq> W" "w \<in> W" and cf: "keys_cf P W cl'"
    and valid: "ver = Basic \<or> (\<forall>w \<in> set tokens. INVALID \<notin> set (setup_ids tokens fileids w))"
    and len: "total_ids tokens fileids < 2 ^ 64"
    and gap: "dcount cl w \<noteq> 0"
    and fresh: "\<not> os_count (Srev sv) (label P (kminus cl') w fid)"
  shows "\<exists>cl2 sv2. run_add P cl' (SetupServer sv ver L M) fid junk [w] = Inr (cl2, sv2)
    \<and> SearchServer P sv2 (SearchClient P cl2 w)
        = Some (Inr (live_ids P sv (mac_key P (kminus cl') 0x31 w) (setup_ids tokens fileids w)))"
proof -
  have M: "length M < 2 ^ 64" using SetupClient_returned [OF run] len by simp
  have "length (setup_ids tokens fileids w) < 2 ^ 64" for w
    using length_setup_ids_le [of tokens fileids w] len by simp
  then show ?thesis by (intro resetup_loses_add [OF run W cf valid M _ gap fresh])
qed

theorem second_setup_loses_add_witness:
  "\<exists>cl L M cl2 sv2. SetupClient toy toy_devs (new_core\<lparr>Dcount := [(dog, 1)]\<rparr>) Basic toy_tokens toy_files
       = Some (Inr (cl, L, M))
     \<and> run_add toy cl (SetupServer new_core Basic L M) 77 (\<lambda>_. []) [dog] = Inr (cl2, sv2)
     \<and> SearchServer toy sv2 (SearchClient toy cl2 dog) = Some (Inr [2])"
proof -
  have keys: "draw_keys toy_devs (new_core\<lparr>Dcount := [(dog, 1)]\<rparr>)
      = Some (Inr (toy_keys\<lparr>Dcount := [(dog, 1)]\<rparr>))"
    using draw_keys_toy by (simp add: draw_keys_def toy_devs_def random_key_toy toy_keys_def)
  let ?cl = "toy_keys\<lparr>Dcount := [(dog, 1)], version := Basic\<rparr>"
  obtain L M where run: "SetupClient toy toy_devs (new_core\<lparr>Dcount := [(dog, 1)]\<rparr>) Basic toy_tokens toy_files
      = Some (Inr (?cl, L, M))"
    using SetupClient_total [OF keys _ toy_count, of Basic] by fastforce
  have cf: "keys_cf toy {cat, dog} ?cl" by (rule toy_keys_cf) (use toy_words in auto)
  obtain cl2 sv2 where "run_add toy ?cl (SetupServer new_core Basic L M) 77 (\<lambda>_. []) [dog] = Inr (cl2, sv2)"
    "SearchServer toy sv2 (SearchClient toy cl2 dog)
      = Some (Inr (live_ids toy new_core (mac_key toy (kminus ?cl) 0x31 dog) (setup_ids toy_tokens toy_files dog)))"
    using second_setup_loses_add [OF run _ _ cf, of dog new_core 77 "\<lambda>_. []"] toy_total
    by (auto simp: toy_tokens_def dcount_def)
  then show ?thesis using run by (auto simp: live_ids_def toy_ids)
qed



end
